(* ===== verification/Prelude.thy ===== *)
theory Prelude
  imports Complex_Main "HOL-Library.Word" "HOL-Library.Sublist"
begin

text \<open>
  Shared vocabulary of the development.  A C++ evaluation either has a value or runs into
  undefined behaviour (a signed overflow, an out-of-range conversion, \<open>pop_front\<close> on an empty
  deque, an out-of-range subscript); the datatype \<open>cxx\<close> keeps the two apart, so that the absence
  of undefined behaviour is a theorem and not a modelling convention.  The rest are string
  helpers that mirror \<open>std::string_view\<close>, and list lemmas several components use.
\<close>

named_theorems cxx_simps \<open>rewriting of undefined-behaviour outcomes\<close>

section \<open>Evaluations that may be undefined\<close>

datatype 'a cxx = Undefined | Defined 'a

fun bind_cxx :: "'a cxx \<Rightarrow> ('a \<Rightarrow> 'b cxx) \<Rightarrow> 'b cxx" where
  "bind_cxx Undefined f = Undefined"
| "bind_cxx (Defined x) f = f x"

fun is_defined :: "'a cxx \<Rightarrow> bool" where
  "is_defined Undefined = False"
| "is_defined (Defined _) = True"

lemma bind_cxx_eq_Defined [cxx_simps]:
  "bind_cxx m f = Defined y \<longleftrightarrow> (\<exists>x. m = Defined x \<and> f x = Defined y)"
  by (cases m) auto

lemma bind_cxx_eq_Undefined [cxx_simps]:
  "bind_cxx m f = Undefined \<longleftrightarrow> (m = Undefined \<or> (\<exists>x. m = Defined x \<and> f x = Undefined))"
  by (cases m) auto

lemma is_defined_iff [cxx_simps]: "is_defined m \<longleftrightarrow> (\<exists>x. m = Defined x)"
  by (cases m) auto

lemma map_sum_eq_Inr [cxx_simps]: "map_sum f g x = Inr y \<longleftrightarrow> (\<exists>z. x = Inr z \<and> y = g z)"
  by (cases x) auto

lemma map_sum_eq_Inl [cxx_simps]: "map_sum f g x = Inl y \<longleftrightarrow> (\<exists>z. x = Inl z \<and> y = f z)"
  by (cases x) auto

section \<open>64-bit signed integers\<close>

text \<open>
  A value of \<open>std::int64_t\<close> is an \<open>int\<close> in this range; an operation whose exact result leaves
  the range is undefined.  Where the code stores such a value without computing with it
  (\<open>InstrumentId\<close>) it is a \<open>64 word\<close>.
\<close>

definition int64_min :: int where "int64_min = - 9223372036854775808"
definition int64_max :: int where "int64_max = 9223372036854775807"

definition is_int64 :: "int \<Rightarrow> bool" where
  "is_int64 i \<longleftrightarrow> int64_min \<le> i \<and> i \<le> int64_max"

lemmas int64_defs = is_int64_def int64_min_def int64_max_def

definition checked_int64 :: "int \<Rightarrow> int cxx" where
  "checked_int64 i = (if is_int64 i then Defined i else Undefined)"

lemma checked_int64_eq_Defined [cxx_simps]:
  "checked_int64 i = Defined j \<longleftrightarrow> i = j \<and> is_int64 i"
  by (auto simp: checked_int64_def)

lemma checked_int64_eq_Undefined [cxx_simps]:
  "checked_int64 i = Undefined \<longleftrightarrow> \<not> is_int64 i"
  by (auto simp: checked_int64_def)

lemma sint_is_int64 [simp]: "is_int64 (sint (w :: 64 word))"
  using sint_ge [of w] sint_lt [of w] by (simp add: int64_defs)

type_synonym instrument_id = "64 word"
type_synonym nanos = int

section \<open>Strings\<close>

text \<open>
  \<open>find_char str c start\<close> is \<open>str.find(c, start)\<close>: the least index at or after \<open>start\<close> that
  holds \<open>c\<close>, and \<open>None\<close> for \<open>npos\<close>.  \<open>substr str start n\<close> is \<open>str.substr(start, n)\<close> for a
  \<open>start\<close> within the string.
\<close>

definition find_char :: "string \<Rightarrow> char \<Rightarrow> nat \<Rightarrow> nat option" where
  "find_char str c start =
     (let pos = start + length (takeWhile (\<lambda>d. d \<noteq> c) (drop start str))
      in if pos < length str then Some pos else None)"

definition substr :: "string \<Rightarrow> nat \<Rightarrow> nat \<Rightarrow> string" where
  "substr str start n = take n (drop start str)"

lemma length_takeWhile_neq: "c \<in> set xs \<Longrightarrow> length (takeWhile (\<lambda>d. d \<noteq> c) xs) < length xs"
  by (induction xs) auto

lemma takeWhile_neq_append: "c \<notin> set xs \<Longrightarrow> takeWhile (\<lambda>d. d \<noteq> c) (xs @ c # ys) = xs"
  by (induction xs) auto

lemma find_char_None:
  assumes "find_char str c start = None"
  shows "c \<notin> set (drop start str)"
proof
  assume "c \<in> set (drop start str)"
  then have "length (takeWhile (\<lambda>d. d \<noteq> c) (drop start str)) < length (drop start str)"
    by (rule length_takeWhile_neq)
  with assms show False
    by (simp add: find_char_def Let_def split: if_splits)
qed

lemma find_char_Some:
  assumes "find_char str c start = Some k"
  shows "start \<le> k" and "k < length str" and "str ! k = c"
    and "c \<notin> set (substr str start (k - start))"
proof -
  let ?n = "length (takeWhile (\<lambda>d. d \<noteq> c) (drop start str))"
  from assms have k: "k = start + ?n" and lt: "k < length str"
    by (auto simp: find_char_def Let_def split: if_splits)
  then have n: "?n < length (drop start str)" by simp
  show "start \<le> k" using k by simp
  show "k < length str" by (rule lt)
  show "str ! k = c"
    using nth_length_takeWhile [OF n] k lt by simp
  have "substr str start (k - start) = takeWhile (\<lambda>d. d \<noteq> c) (drop start str)"
    unfolding substr_def k by (simp add: takeWhile_eq_take [symmetric])
  then show "c \<notin> set (substr str start (k - start))"
    by (auto dest: set_takeWhileD)
qed

lemma find_char_eq_None_iff: "find_char str c 0 = None \<longleftrightarrow> c \<notin> set str"
  using find_char_None [of str c 0] find_char_Some [of str c 0]
  by (cases "find_char str c 0") (auto simp: in_set_conv_nth)

lemma find_char_append:
  assumes "c \<notin> set xs"
  shows "find_char (xs @ c # ys) c 0 = Some (length xs)"
  using assms by (simp add: find_char_def takeWhile_neq_append)

section \<open>Lists\<close>

lemma concat_map_filter_subset:
  "set (concat (map (\<lambda>k. filter (\<lambda>x. f x = k) xs) ks)) = {x \<in> set xs. f x \<in> set ks}"
  by auto

lemma distinct_concat_map_filter:
  assumes "distinct xs" and "distinct ks"
  shows "distinct (concat (map (\<lambda>k. filter (\<lambda>x. f x = k) xs) ks))"
  using assms by (induction ks) auto

lemma list_find_append:
  "List.find P (xs @ ys) = (case List.find P xs of None \<Rightarrow> List.find P ys | Some x \<Rightarrow> Some x)"
  by (induction xs) auto

lemma list_find_absent: "y \<notin> f ` set xs \<Longrightarrow> List.find (\<lambda>x. f x = y) xs = None"
  by (auto simp: find_None_iff)

lemma list_find_unique:
  "distinct (map f xs) \<Longrightarrow> x \<in> set xs \<Longrightarrow> List.find (\<lambda>y. f y = f x) xs = Some x"
  by (induction xs) auto

lemma list_find_in: "List.find P xs = Some x \<Longrightarrow> x \<in> set xs \<and> P x"
  by (auto simp: find_Some_iff)

end
