(* ===== verification/Float64.thy ===== *)
theory Float64
  imports Prelude
begin

text \<open>
  The C++ type \<open>double\<close> as the code uses it: IEEE 754 binary64 with round-to-nearest, ties to
  even.  A finite value carries a sign, a significand below \<open>2 ^ 53\<close> and an exponent; the
  canonical form (\<open>double_ok\<close>) has exactly one representation of every binary64 value, zeros and
  subnormals included.  NaN payloads are not distinguished (no code under \<open>src/\<close> reads them).
  The operations are the ones the gateway performs: rounding an exact ratio
  (\<open>std::from_chars\<close>), conversion from and to \<open>std::int64_t\<close>, multiplication (inside
  \<open>std::chrono::duration_cast\<close>), \<open>std::isnan\<close> and the comparison \<open>x > 0.0\<close>.
\<close>

section \<open>Representation\<close>

datatype double = NaN | Infinite bool | Finite bool nat int

fun double_ok :: "double \<Rightarrow> bool" where
  "double_ok NaN = True"
| "double_ok (Infinite _) = True"
| "double_ok (Finite _ m e) =
     (m < 2 ^ 53 \<and> - 1074 \<le> e \<and> e \<le> 971 \<and> (m < 2 ^ 52 \<longrightarrow> e = - 1074))"

definition kNoValue :: double where "kNoValue = NaN"

fun is_nan :: "double \<Rightarrow> bool" where
  "is_nan NaN = True"
| "is_nan _ = False"

text \<open>The C++ comparison \<open>x > 0.0\<close>: false on a NaN and on both zeros.\<close>

fun gt_zero :: "double \<Rightarrow> bool" where
  "gt_zero NaN = False"
| "gt_zero (Infinite s) = (\<not> s)"
| "gt_zero (Finite s m _) = (\<not> s \<and> 0 < m)"

definition magnitude :: "nat \<Rightarrow> int \<Rightarrow> real" where
  "magnitude m e = real m * 2 powi e"

fun real_of_double :: "double \<Rightarrow> real" where
  "real_of_double (Finite s m e) = (if s then - magnitude m e else magnitude m e)"
| "real_of_double _ = 0"

section \<open>Rounding an exact ratio\<close>

fun nat_log2 :: "nat \<Rightarrow> nat" where
  "nat_log2 n = (if n < 2 then 0 else Suc (nat_log2 (n div 2)))"

declare nat_log2.simps [simp del]

text \<open>\<open>scale n d e\<close> is a ratio equal to \<open>(n / d) / 2 ^ e\<close>.\<close>

definition scale :: "nat \<Rightarrow> nat \<Rightarrow> int \<Rightarrow> nat \<times> nat" where
  "scale n d e = (if 0 \<le> e then (n, d * 2 ^ nat e) else (n * 2 ^ nat (- e), d))"

text \<open>The exponent of the leading bit of \<open>n / d\<close>.\<close>

definition ratio_exponent :: "nat \<Rightarrow> nat \<Rightarrow> int" where
  "ratio_exponent n d =
     (let k = int (nat_log2 n) - int (nat_log2 d); (a, b) = scale n d k
      in if b \<le> a then k else k - 1)"

definition round_half_even :: "nat \<Rightarrow> nat \<Rightarrow> nat" where
  "round_half_even n d =
     (let q = n div d; r = n mod d
      in if 2 * r < d \<or> (2 * r = d \<and> even q) then q else Suc q)"

definition round_exponent :: "nat \<Rightarrow> nat \<Rightarrow> int" where
  "round_exponent n d = max (- 1074) (ratio_exponent n d - 52)"

definition round_ratio :: "bool \<Rightarrow> nat \<Rightarrow> nat \<Rightarrow> double" where
  "round_ratio s n d =
     (if n = 0 then Finite s 0 (- 1074)
      else let e = round_exponent n d; (a, b) = scale n d e; m = round_half_even a b;
               (m', e') = (if m = 2 ^ 53 then (2 ^ 52, e + 1) else (m, e))
           in if 971 < e' then Infinite s else Finite s m' e')"

section \<open>Conversions and arithmetic\<close>

text \<open>\<open>static_cast<double>\<close> of an integer.\<close>

definition double_of_int :: "int \<Rightarrow> double" where
  "double_of_int i = round_ratio (i < 0) (nat \<bar>i\<bar>) 1"

text \<open>\<open>static_cast<std::int64_t>\<close> of a double: truncation, undefined when the result does not fit.\<close>

fun trunc_magnitude :: "nat \<Rightarrow> int \<Rightarrow> int" where
  "trunc_magnitude m e = (if 0 \<le> e then int m * 2 ^ nat e else int m div 2 ^ nat (- e))"

fun int64_of_double :: "double \<Rightarrow> int cxx" where
  "int64_of_double (Finite s m e) =
     checked_int64 (if s then - trunc_magnitude m e else trunc_magnitude m e)"
| "int64_of_double _ = Undefined"

fun double_mul :: "double \<Rightarrow> double \<Rightarrow> double" where
  "double_mul NaN _ = NaN"
| "double_mul _ NaN = NaN"
| "double_mul (Infinite s) (Infinite t) = Infinite (s \<noteq> t)"
| "double_mul (Infinite s) (Finite t m _) = (if m = 0 then NaN else Infinite (s \<noteq> t))"
| "double_mul (Finite s m _) (Infinite t) = (if m = 0 then NaN else Infinite (s \<noteq> t))"
| "double_mul (Finite s m e) (Finite t n f) =
     (if 0 \<le> e + f then round_ratio (s \<noteq> t) (m * n * 2 ^ nat (e + f)) 1
      else round_ratio (s \<noteq> t) (m * n) (2 ^ nat (- (e + f))))"

section \<open>Binary logarithm and powers of two\<close>

lemma nat_log2_bounds:
  assumes "0 < n"
  shows "2 ^ nat_log2 n \<le> n" and "n < 2 ^ Suc (nat_log2 n)"
proof -
  have "2 ^ nat_log2 n \<le> n \<and> n < 2 ^ Suc (nat_log2 n)"
    using assms
  proof (induction n rule: nat_log2.induct)
    case (1 n)
    show ?case
    proof (cases "n < 2")
      case True
      with "1.prems" show ?thesis by (simp add: nat_log2.simps)
    next
      case False
      then have "2 ^ nat_log2 (n div 2) \<le> n div 2 \<and> n div 2 < 2 ^ Suc (nat_log2 (n div 2))"
        using "1.IH" by simp
      with False show ?thesis by (simp add: nat_log2.simps [of n]) linarith
    qed
  qed
  then show "2 ^ nat_log2 n \<le> n" and "n < 2 ^ Suc (nat_log2 n)" by simp_all
qed

lemma powi_nat: "0 \<le> e \<Longrightarrow> (2::real) powi e = 2 ^ nat e"
  by (simp add: power_int_def)

lemma powi_neg_nat: "e < 0 \<Longrightarrow> (2::real) powi e = 1 / 2 ^ nat (- e)"
  by (simp add: power_int_def power_inverse field_simps)

lemma powi_diff: "(2::real) powi (e - f) = 2 powi e / 2 powi f"
  by (rule power_int_diff) simp

lemma powi_strict_mono: "e < f \<Longrightarrow> (2::real) powi e < 2 powi f"
  by (rule power_int_strict_increasing) simp_all

lemma powi_mono: "e \<le> f \<Longrightarrow> (2::real) powi e \<le> 2 powi f"
  by (rule power_int_increasing) simp_all

lemma powi_add: "(2::real) powi (e + f) = 2 powi e * 2 powi f"
  by (rule power_int_add) simp

lemma nat_log2_powi:
  assumes "0 < n"
  shows "2 powi int (nat_log2 n) \<le> real n" and "real n < 2 powi (int (nat_log2 n) + 1)"
proof -
  have "real (2 ^ nat_log2 n) \<le> real n" and "real n < real (2 ^ Suc (nat_log2 n))"
    using nat_log2_bounds [OF assms] by (simp_all only: of_nat_le_iff of_nat_less_iff)
  then show "2 powi int (nat_log2 n) \<le> real n" and "real n < 2 powi (int (nat_log2 n) + 1)"
    by (simp_all add: powi_add)
qed

lemma scale_ratio:
  assumes "scale n d e = (a, b)" and "0 < d"
  shows "0 < b" and "real a / real b = real n / real d / 2 powi e"
  using assms by (auto simp: scale_def powi_nat powi_neg_nat split: if_splits)

lemma scale_le_iff:
  assumes "scale n d e = (a, b)" and "0 < d"
  shows "b \<le> a \<longleftrightarrow> 2 powi e \<le> real n / real d"
proof -
  have "b \<le> a \<longleftrightarrow> 1 \<le> real a / real b"
    using scale_ratio(1) [OF assms] by (simp add: le_divide_eq)
  also have "\<dots> \<longleftrightarrow> 2 powi e \<le> real n / real d"
    using assms(2) by (simp add: scale_ratio(2) [OF assms] le_divide_eq mult.commute)
  finally show ?thesis .
qed

lemma ratio_exponent_bounds:
  assumes "0 < n" and "0 < d"
  shows "2 powi ratio_exponent n d \<le> real n / real d"
    and "real n / real d < 2 powi (ratio_exponent n d + 1)"
proof -
  let ?x = "nat_log2 n" and ?y = "nat_log2 d"
  let ?k = "int ?x - int ?y"
  obtain a b where ab: "scale n d ?k = (a, b)" by fastforce
  note n = nat_log2_powi [OF assms(1)] and d = nat_log2_powi [OF assms(2)]
  have up: "real n / real d < 2 powi (?k + 1)"
  proof -
    have "real n / real d < 2 powi (int ?x + 1) / 2 powi int ?y"
      using n d by (intro frac_less) auto
    also have "\<dots> = 2 powi (?k + 1)"
      using powi_diff [of "int ?x + 1" "int ?y"] by (simp add: add_diff_eq diff_add_eq)
    finally show ?thesis .
  qed
  have low: "2 powi (?k - 1) \<le> real n / real d"
  proof -
    have "2 powi (?k - 1) = 2 powi int ?x / (2::real) powi (int ?y + 1)"
      using powi_diff [of "int ?x" "int ?y + 1"] by (simp add: diff_diff_eq)
    also have "\<dots> \<le> real n / real d"
      using n d assms by (intro frac_le) auto
    finally show ?thesis .
  qed
  show "2 powi ratio_exponent n d \<le> real n / real d"
    using low scale_le_iff [OF ab assms(2)] by (simp add: ratio_exponent_def ab Let_def)
  show "real n / real d < 2 powi (ratio_exponent n d + 1)"
    using up scale_le_iff [OF ab assms(2)] by (auto simp: ratio_exponent_def ab Let_def)
qed

lemma exponent_unique:
  assumes "2 powi k \<le> (x::real)" "x < 2 powi (k + 1)" "2 powi l \<le> x" "x < 2 powi (l + 1)"
  shows "k = l"
proof (rule ccontr)
  assume "k \<noteq> l"
  then consider "k + 1 \<le> l" | "l + 1 \<le> k" by linarith
  then show False
    by cases (use assms powi_mono [of "k + 1" l] powi_mono [of "l + 1" k] in linarith)+
qed


section \<open>Rounding to an integer\<close>

text \<open>Rounding to an integer: no integer is closer, and the error is at most one half.\<close>

lemma round_half_even_cases:
  assumes "0 < d"
  obtains t where "0 \<le> t" and "t < 1" and "real n / real d = real (n div d) + t"
    and "t \<le> 1 / 2 \<and> round_half_even n d = n div d \<or>
         1 / 2 \<le> t \<and> round_half_even n d = Suc (n div d)"
    and "t = 1 / 2 \<longrightarrow> even (round_half_even n d)"
proof
  let ?t = "real (n mod d) / real d"
  have d: "0 < real d" using assms by simp
  show "0 \<le> ?t" by simp
  show "?t < 1" using assms by simp
  show "real n / real d = real (n div d) + ?t"
    using d by (simp add: field_simps flip: of_nat_mult of_nat_add)
  have lt: "?t < 1 / 2 \<longleftrightarrow> 2 * (n mod d) < d" and eq: "?t = 1 / 2 \<longleftrightarrow> 2 * (n mod d) = d"
    using d by (auto simp: field_simps)
  show "?t \<le> 1 / 2 \<and> round_half_even n d = n div d \<or>
        1 / 2 \<le> ?t \<and> round_half_even n d = Suc (n div d)"
    using lt eq by (auto simp: round_half_even_def Let_def simp del: times_divide_eq_right)
  show "?t = 1 / 2 \<longrightarrow> even (round_half_even n d)"
    using eq by (auto simp: round_half_even_def Let_def)
qed

lemma round_half_even_nearest:
  assumes "0 < d"
  shows "\<bar>real (round_half_even n d) - real n / real d\<bar> \<le> \<bar>real_of_int j - real n / real d\<bar>"
proof -
  obtain t where t: "0 \<le> t" "t < 1" "real n / real d = real (n div d) + t"
    "t \<le> 1 / 2 \<and> round_half_even n d = n div d \<or> 1 / 2 \<le> t \<and> round_half_even n d = Suc (n div d)"
    by (rule round_half_even_cases [OF assms])
  have "j \<le> int (n div d) \<or> int (n div d) + 1 \<le> j" by linarith
  then have "real_of_int j \<le> real (n div d) \<or> real (n div d) + 1 \<le> real_of_int j"
    by linarith
  with t show ?thesis by (auto simp: abs_if)
qed

lemma round_half_even_error:
  assumes "0 < d"
  shows "\<bar>real (round_half_even n d) - real n / real d\<bar> \<le> 1 / 2"
proof -
  obtain t where "0 \<le> t" "t < 1" "real n / real d = real (n div d) + t"
    "t \<le> 1 / 2 \<and> round_half_even n d = n div d \<or> 1 / 2 \<le> t \<and> round_half_even n d = Suc (n div d)"
    by (rule round_half_even_cases [OF assms])
  then show ?thesis by (auto simp: abs_if)
qed

lemma round_half_even_between:
  assumes "0 < d" and "real l \<le> real n / real d" and "real n / real d \<le> real u"
  shows "l \<le> round_half_even n d" and "round_half_even n d \<le> u"
proof -
  have e: "\<bar>real (round_half_even n d) - real n / real d\<bar> \<le> 1 / 2"
    by (rule round_half_even_error [OF assms(1)])
  have "real l - 1 / 2 \<le> real (round_half_even n d)" "real (round_half_even n d) \<le> real u + 1 / 2"
    using abs_le_D1 [OF e] abs_le_D2 [OF e] assms(2,3) by linarith+
  then show "l \<le> round_half_even n d" and "round_half_even n d \<le> u"
    by linarith+
qed

lemma round_half_even_exact:
  assumes "0 < d" and "real n / real d = real m"
  shows "round_half_even n d = m"
  using round_half_even_between [of d m n m] assms by simp

section \<open>Facts about the rounding of a ratio\<close>

text \<open>Everything later proofs need of the significand before the carry.\<close>

lemma rounding_step:
  assumes n: "0 < n" and d: "0 < d" and sc: "scale n d (round_exponent n d) = (a, b)"
  shows "0 < b" and "real a / real b = real n / real d / 2 powi round_exponent n d"
    and "round_half_even a b \<le> 2 ^ 53"
    and "round_exponent n d \<noteq> - 1074 \<Longrightarrow> 2 ^ 52 \<le> real a / real b"
    and "round_exponent n d \<noteq> - 1074 \<Longrightarrow> 2 ^ 52 \<le> round_half_even a b"
proof -
  let ?e = "round_exponent n d"
  define x where "x = real n / real d"
  show b: "0 < b" and q0: "real a / real b = real n / real d / 2 powi ?e"
    using scale_ratio [OF sc d] by simp_all
  from q0 have q: "real a / real b = x / 2 powi ?e" unfolding x_def .
  have "x < 2 powi (ratio_exponent n d + 1)"
    unfolding x_def by (rule ratio_exponent_bounds(2) [OF n d])
  also have "\<dots> \<le> 2 powi (53 + ?e)"
    by (rule powi_mono) (simp add: round_exponent_def)
  finally have "x < 2 ^ 53 * 2 powi ?e" by (simp add: powi_add)
  then have "real a / real b \<le> real (2 ^ 53)"
    unfolding q by (simp add: divide_le_eq)
  moreover have "real 0 \<le> real a / real b" by simp
  ultimately show "round_half_even a b \<le> 2 ^ 53"
    using round_half_even_between(2) [OF b] by blast
  assume "?e \<noteq> - 1074"
  then have e: "?e = ratio_exponent n d - 52" by (simp add: round_exponent_def max_def split: if_splits)
  have "2 powi (52 + ?e) \<le> x"
    using ratio_exponent_bounds(1) [OF n d] e by (simp add: x_def)
  then have "2 ^ 52 * 2 powi ?e \<le> x" by (simp add: powi_add)
  then show low: "2 ^ 52 \<le> real a / real b"
    unfolding q by (simp add: le_divide_eq)
  then have "real (2 ^ 52) \<le> real a / real b" by simp
  then show "2 ^ 52 \<le> round_half_even a b"
    using round_half_even_between(1) [OF b] by (metis order_refl real_arch_simple)
qed

lemma round_ratio_FiniteE:
  assumes r: "round_ratio s n d = Finite t m e" and n: "0 < n" and d: "0 < d"
  obtains a b where "scale n d (round_exponent n d) = (a, b)" and "t = s"
    and "magnitude m e = real (round_half_even a b) * 2 powi round_exponent n d"
proof -
  obtain a b where ab: "scale n d (round_exponent n d) = (a, b)" by fastforce
  have "magnitude m e = real (round_half_even a b) * 2 powi round_exponent n d \<and> t = s"
  proof (cases "round_half_even a b = 2 ^ 53")
    case True
    with r ab n have "m = 2 ^ 52" "e = round_exponent n d + 1" "t = s"
      by (auto simp: round_ratio_def Let_def split: if_splits)
    with True show ?thesis by (simp add: magnitude_def powi_add)
  next
    case False
    with r ab n show ?thesis by (auto simp: round_ratio_def Let_def magnitude_def split: if_splits)
  qed
  with ab that show ?thesis by blast
qed

lemma round_ratio_ok: "0 < d \<Longrightarrow> double_ok (round_ratio s n d)"
proof (cases "n = 0")
  case False
  assume d: "0 < d"
  obtain a b where ab: "scale n d (round_exponent n d) = (a, b)" by fastforce
  from False have n: "0 < n" by simp
  note st = rounding_step [OF n d ab]
  have low: "round_half_even a b < 2 ^ 52 \<longrightarrow> round_exponent n d = - 1074"
    using st(5) by (cases "round_exponent n d = - 1074") simp_all
  have "- 1074 \<le> round_exponent n d" by (simp add: round_exponent_def)
  with False ab st(3) low show ?thesis
    by (auto simp: round_ratio_def Let_def)
qed (simp add: round_ratio_def)

lemma round_ratio_not_nan: "round_ratio s n d \<noteq> NaN"
  by (auto simp: round_ratio_def Let_def split: prod.splits)

text \<open>Rounding to nearest: no multiple of the chosen unit is closer to the exact ratio.\<close>

lemma round_ratio_closest_multiple:
  assumes r: "round_ratio s n d = Finite t m e" and n: "0 < n" and d: "0 < d"
  defines "x \<equiv> real n / real d" and "p \<equiv> (2::real) powi round_exponent n d"
  shows "\<bar>magnitude m e - x\<bar> \<le> \<bar>real_of_int j * p - x\<bar>"
    and "round_exponent n d \<noteq> - 1074 \<Longrightarrow> 2 ^ 52 * p \<le> x"
proof -
  obtain a b where ab: "scale n d (round_exponent n d) = (a, b)"
    and mag: "magnitude m e = real (round_half_even a b) * p"
    unfolding p_def by (rule round_ratio_FiniteE [OF r n d]) simp
  have p: "0 < p" by (simp add: p_def)
  note st = rounding_step [OF n d ab]
  have q: "x = real a / real b * p" using st(2) p by (simp add: x_def p_def)
  show "\<bar>magnitude m e - x\<bar> \<le> \<bar>real_of_int j * p - x\<bar>"
  proof -
    have "\<bar>real (round_half_even a b) - real a / real b\<bar> * p \<le> \<bar>real_of_int j - real a / real b\<bar> * p"
      using round_half_even_nearest [OF st(1)] p by (intro mult_right_mono) auto
    moreover have "\<bar>y * p - x\<bar> = \<bar>y - real a / real b\<bar> * p" for y
    proof -
      have "y * p - x = (y - real a / real b) * p" by (simp add: q left_diff_distrib)
      then show ?thesis using p by (simp add: abs_mult)
    qed
    ultimately show ?thesis using mag by simp
  qed
  show "2 ^ 52 * p \<le> x" if "round_exponent n d \<noteq> - 1074"
    unfolding q by (rule mult_right_mono [OF st(4) [OF that]]) (use p in simp)
qed

text \<open>So no binary64 value is closer to the exact ratio.\<close>

lemma round_ratio_nearest:
  assumes r: "round_ratio s n d = Finite t m e" and d: "0 < d"
    and ok: "double_ok (Finite u m2 e2)"
  shows "\<bar>magnitude m e - real n / real d\<bar> \<le> \<bar>magnitude m2 e2 - real n / real d\<bar>"
proof (cases "n = 0")
  case True
  with r show ?thesis by (simp add: round_ratio_def magnitude_def)
next
  case False
  then have n: "0 < n" by simp
  define x p where "x = real n / real d" and "p = (2::real) powi round_exponent n d"
  note closest = round_ratio_closest_multiple [OF r n d, folded x_def p_def]
  have "\<bar>magnitude m e - x\<bar> \<le> \<bar>magnitude m2 e2 - x\<bar>"
  proof (cases "round_exponent n d \<le> e2")
    case True
    define k where "k = nat (e2 - round_exponent n d)"
    have "2 powi e2 = 2 ^ k * p"
      using True powi_add [of "int k" "round_exponent n d"] by (simp add: k_def p_def powi_nat)
    then have "magnitude m2 e2 = real_of_int (int (m2 * 2 ^ k)) * p"
      by (simp add: magnitude_def)
    then show ?thesis using closest(1) by metis
  next
    case False
    with ok have ne: "round_exponent n d \<noteq> - 1074" by simp
    have "2 ^ 52 * p \<le> x" by (rule closest(2) [OF ne])
    moreover have "magnitude m2 e2 \<le> 2 ^ 52 * p"
    proof -
      have "real m2 \<le> 2 ^ 53" using ok by (simp add: less_imp_le)
      moreover have "2 powi e2 \<le> p / 2"
        using False powi_mono [of e2 "round_exponent n d - 1"] by (simp add: p_def powi_diff)
      ultimately have "real m2 * 2 powi e2 \<le> 2 ^ 53 * (p / 2)"
        by (intro mult_mono) auto
      then show ?thesis by (simp add: magnitude_def)
    qed
    ultimately show ?thesis using closest(1) [of "2 ^ 52"] by (simp add: abs_if split: if_splits)
  qed
  then show ?thesis by (simp add: x_def)
qed

text \<open>A ratio that is a binary64 value is kept exactly.\<close>

lemma round_ratio_exact:
  assumes ok: "double_ok (Finite t m e)" and d: "0 < d" and eq: "real n / real d = magnitude m e"
  shows "round_ratio s n d = Finite s m e"
proof (cases "m = 0")
  case True
  with eq d ok show ?thesis by (simp add: round_ratio_def magnitude_def)
next
  case False
  then have m: "0 < m" by simp
  have "0 < real n / real d" using m by (simp add: eq magnitude_def)
  then have n: "0 < n" by (simp add: zero_less_divide_iff)
  have L: "2 powi (int (nat_log2 m) + e) \<le> real n / real d"
    "real n / real d < 2 powi (int (nat_log2 m) + e + 1)"
    using nat_log2_powi [OF m] by (simp_all add: eq magnitude_def powi_add)
  have k: "ratio_exponent n d = int (nat_log2 m) + e"
    by (rule exponent_unique [OF ratio_exponent_bounds [OF n d] L])
  have e: "round_exponent n d = e"
  proof (cases "m < 2 ^ 52")
    case True
    then have "(2::nat) ^ nat_log2 m < 2 ^ 52" using nat_log2_bounds(1) [OF m] by linarith
    then have "nat_log2 m < 52" by (simp only: power_strict_increasing_iff)
    with True ok k show ?thesis by (simp add: round_exponent_def)
  next
    case False
    then have a: "(2::nat) ^ 52 < 2 ^ Suc (nat_log2 m)"
      using nat_log2_bounds(2) [OF m] by linarith
    have b: "(2::nat) ^ nat_log2 m < 2 ^ 53"
    proof (rule le_less_trans [OF nat_log2_bounds(1) [OF m]])
      show "m < 2 ^ 53" using ok by simp
    qed
    have "52 < Suc (nat_log2 m)" "nat_log2 m < 53"
      using a b by (simp_all only: power_strict_increasing_iff)
    with ok k show ?thesis by (simp add: round_exponent_def)
  qed
  obtain a b where ab: "scale n d (round_exponent n d) = (a, b)" by fastforce
  note st = rounding_step [OF n d ab]
  have "real a / real b = real m" using st(2) by (simp add: eq e magnitude_def)
  then have "round_half_even a b = m" by (rule round_half_even_exact [OF st(1)])
  with n ab e ok show ?thesis by (simp add: round_ratio_def)
qed

text \<open>The overflow threshold: half an ulp above the largest finite value.\<close>

lemma round_ratio_overflow:
  assumes r: "round_ratio s n d = Infinite t" and d: "0 < d"
  shows "(2 ^ 53 - 1 / 2) * 2 powi 971 \<le> real n / real d"
proof -
  have n: "0 < n" using r by (cases "n = 0") (auto simp: round_ratio_def)
  define x p where "x = real n / real d" and "p = (2::real) powi round_exponent n d"
  obtain a b where ab: "scale n d (round_exponent n d) = (a, b)" by fastforce
  have p: "0 < p" by (simp add: p_def)
  note st = rounding_step [OF n d ab]
  have q: "x = real a / real b * p" using st(2) p by (simp add: x_def p_def)
  from r n ab have c: "round_half_even a b = 2 ^ 53 \<and> 971 \<le> round_exponent n d \<or> 972 \<le> round_exponent n d"
    by (auto simp: round_ratio_def Let_def split: if_splits)
  then have ge: "971 \<le> round_exponent n d" by linarith
  have "(2 ^ 53 - 1 / 2) * 2 powi 971 \<le> x"
  proof (cases "972 \<le> round_exponent n d")
    case True
    then have "2 ^ 52 \<le> real a / real b" by (intro st(4)) simp
    moreover have "2 * 2 powi 971 \<le> p"
      using True powi_mono [of 972 "round_exponent n d"] powi_add [of 1 971] by (simp add: p_def)
    ultimately have "2 ^ 52 * (2 * 2 powi 971) \<le> x"
      unfolding q by (intro mult_mono) auto
    then show ?thesis by (simp add: left_diff_distrib)
  next
    case False
    with c have m: "round_half_even a b = 2 ^ 53" by simp
    have h: "\<bar>real (2 ^ 53) - real a / real b\<bar> \<le> 1 / 2"
      using round_half_even_error [OF st(1), of a] unfolding m .
    have "2 ^ 53 - 1 / 2 \<le> real a / real b"
      using abs_le_D1 [OF h] by simp
    moreover have "2 powi 971 \<le> p"
      unfolding p_def by (rule powi_mono [OF ge])
    ultimately show ?thesis unfolding q by (intro mult_mono) auto
  qed
  then show ?thesis by (simp add: x_def)
qed

section \<open>Integers\<close>

lemma canonical_integer:
  assumes "n \<le> 2 ^ 53"
  obtains m e where "double_ok (Finite s m e)" and "magnitude m e = real n"
proof -
  consider "n = 0" | "n = 2 ^ 53" | "0 < n" "n < 2 ^ 53" using assms by linarith
  then have "\<exists>m e. double_ok (Finite s m e) \<and> magnitude m e = real n"
  proof cases
    case 1
    then show ?thesis by (intro exI [of _ 0] exI [of _ "- 1074"]) (simp add: magnitude_def)
  next
    case 2
    have "double_ok (Finite s (2 ^ 52) 1)" by simp
    moreover have "magnitude (2 ^ 52) 1 = real n" by (simp add: magnitude_def 2)
    ultimately show ?thesis by blast
  next
    case 3
    define L where "L = nat_log2 n"
    have low: "2 ^ L \<le> n" and up: "n < 2 ^ Suc L"
      using nat_log2_bounds [OF 3(1)] by (simp_all add: L_def)
    have "(2::nat) ^ L < 2 ^ 53" using low 3(2) by (rule le_less_trans)
    then have L: "L \<le> 52" by (simp only: power_strict_increasing_iff)
    let ?m = "n * 2 ^ (52 - L)"
    have "2 ^ L * 2 ^ (52 - L) \<le> ?m" using low by (rule mult_le_mono1)
    moreover have "?m < 2 ^ Suc L * 2 ^ (52 - L)" using up by simp
    moreover have "L + (52 - L) = 52" "Suc L + (52 - L) = 53" using L by simp_all
    then have "(2::nat) ^ L * 2 ^ (52 - L) = 2 ^ 52" "(2::nat) ^ Suc L * 2 ^ (52 - L) = 2 ^ 53"
      by (simp_all only: power_add [symmetric])
    ultimately have "2 ^ 52 \<le> ?m" "?m < 2 ^ 53" by argo+
    moreover have "magnitude ?m (int L - 52) = real n"
    proof -
      have "2 powi (int L - 52) = 1 / (2::real) ^ (52 - L)"
        using L powi_neg_nat [of "int L - 52"] by (cases "L = 52") (simp_all add: nat_diff_distrib)
      then show ?thesis by (simp add: magnitude_def)
    qed
    ultimately show ?thesis using L
      by (intro exI [of _ ?m] exI [of _ "int L - 52"]) simp
  qed
  with that show ?thesis by blast
qed

lemma double_of_int_small:
  assumes "\<bar>i\<bar> \<le> 2 ^ 53"
  obtains m e where "double_of_int i = Finite (i < 0) m e" and "double_ok (Finite (i < 0) m e)"
    and "magnitude m e = real_of_int \<bar>i\<bar>"
proof -
  have "nat \<bar>i\<bar> \<le> 2 ^ 53" using assms by (simp add: nat_le_iff)
  then obtain m e where me: "double_ok (Finite (i < 0) m e)" "magnitude m e = real (nat \<bar>i\<bar>)"
    by (rule canonical_integer)
  then have "double_of_int i = Finite (i < 0) m e"
    unfolding double_of_int_def by (intro round_ratio_exact) auto
  with me that show ?thesis by simp
qed

lemma trunc_magnitude_floor: "trunc_magnitude m e = \<lfloor>magnitude m e\<rfloor>"
proof (cases "0 \<le> e")
  case True
  then have "magnitude m e = real_of_int (int m * 2 ^ nat e)" by (simp add: magnitude_def powi_nat)
  then have "\<lfloor>magnitude m e\<rfloor> = int m * 2 ^ nat e" by (simp only: floor_of_int)
  with True show ?thesis by simp
next
  case False
  then have "magnitude m e = real_of_int (int m) / real_of_int (2 ^ nat (- e))"
    by (simp add: magnitude_def powi_neg_nat)
  then have "\<lfloor>magnitude m e\<rfloor> = int m div 2 ^ nat (- e)"
    by (simp only: floor_divide_of_int_eq)
  with False show ?thesis by simp
qed

lemma trunc_magnitude_integer:
  assumes "magnitude m e = real k"
  shows "trunc_magnitude m e = int k"
proof (cases "0 \<le> e")
  case True
  then have "real (m * 2 ^ nat e) = real k" using assms by (simp add: magnitude_def powi_nat)
  then have "m * 2 ^ nat e = k" by (simp only: of_nat_eq_iff)
  with True show ?thesis by auto
next
  case False
  then have "real m / 2 ^ nat (- e) = real k" using assms by (simp add: magnitude_def powi_neg_nat)
  then have "real m = real (k * 2 ^ nat (- e))" by (simp add: field_simps)
  then have "m = k * 2 ^ nat (- e)" by (simp only: of_nat_eq_iff)
  with False show ?thesis by simp
qed

lemma int64_of_double_of_int:
  assumes "\<bar>i\<bar> \<le> 2 ^ 53"
  shows "int64_of_double (double_of_int i) = Defined i"
proof -
  obtain m e where me: "double_of_int i = Finite (i < 0) m e" "magnitude m e = real_of_int \<bar>i\<bar>"
    using double_of_int_small [OF assms] by blast
  then have "trunc_magnitude m e = \<bar>i\<bar>"
    using trunc_magnitude_integer [of m e "nat \<bar>i\<bar>"] by simp
  moreover have "is_int64 i" using assms by (auto simp: int64_defs abs_le_iff)
  ultimately show ?thesis by (auto simp: me(1) checked_int64_def simp del: trunc_magnitude.simps)
qed

lemma double_of_int_ok [simp]: "double_ok (double_of_int i)"
  by (simp add: double_of_int_def round_ratio_ok)

lemma double_of_int_not_nan [simp]: "\<not> is_nan (double_of_int i)"
  by (cases "double_of_int i") (auto simp: double_of_int_def round_ratio_not_nan)

lemma magnitude_nonneg [simp]: "0 \<le> magnitude m e"
  by (simp add: magnitude_def)

lemma magnitude_pos_iff [simp]: "0 < magnitude m e \<longleftrightarrow> 0 < m"
  by (simp add: magnitude_def zero_less_mult_iff)

lemma gt_zero_finite: "gt_zero (Finite s m e) \<longleftrightarrow> 0 < real_of_double (Finite s m e)"
  by (auto simp: not_less)

lemma double_mul_ok: "double_ok (double_mul x y)"
  by (cases "(x, y)" rule: double_mul.cases) (auto intro!: round_ratio_ok simp del: double_ok.simps(3))

end
