(* ===== verification/CharConv.thy ===== *)
theory CharConv
  imports Float64
begin

text \<open>
  \<open>std::from_chars\<close> for the three types the code parses (\<open>unsigned\<close>, \<open>std::uint16_t\<close>,
  \<open>double\<close>) and the helpers of \<open>marketdata/model.cpp\<close> built on strings: \<open>parse_number\<close>,
  \<open>to_upper\<close>, \<open>split\<close>.  \<open>from_chars\<close> returns the unconsumed rest of the input (the returned
  \<open>ptr\<close>) together with an error code or the value.
\<close>

section \<open>Characters and digits\<close>

definition is_digit :: "char \<Rightarrow> bool" where
  "is_digit c \<longleftrightarrow> (48 :: nat) \<le> of_char c \<and> of_char c \<le> (57 :: nat)"

definition digit_val :: "char \<Rightarrow> nat" where
  "digit_val c = of_char c - 48"

definition digits_val :: "string \<Rightarrow> nat" where
  "digits_val ds = foldl (\<lambda>n c. 10 * n + digit_val c) 0 ds"

text \<open>\<open>std::toupper\<close> in the "C" locale.\<close>

definition toupper :: "char \<Rightarrow> char" where
  "toupper c = (if (97 :: nat) \<le> of_char c \<and> of_char c \<le> (122 :: nat)
                then char_of (of_char c - 32 :: nat) else c)"

definition to_upper :: "string \<Rightarrow> string" where
  "to_upper str = map toupper str"

section \<open>std::from_chars\<close>

datatype errc = Invalid_argument | Result_out_of_range

text \<open>
  Unsigned integers: the longest prefix of digits; no sign and no white space.  \<open>limit\<close> is the
  largest value of the type.
\<close>

definition from_chars_unsigned :: "nat \<Rightarrow> string \<Rightarrow> string \<times> (errc + nat)" where
  "from_chars_unsigned limit str =
     (let ds = takeWhile is_digit str; rest = dropWhile is_digit str
      in if ds = [] then (str, Inl Invalid_argument)
         else if limit < digits_val ds then (rest, Inl Result_out_of_range)
         else (rest, Inr (digits_val ds)))"

definition unsigned_max :: nat where "unsigned_max = 4294967295"
definition uint16_max :: nat where "uint16_max = 65535"

text \<open>
  Floating point, \<open>chars_format::general\<close>: an optional minus sign, then \<open>inf\<close>, \<open>infinity\<close>,
  \<open>nan\<close> or \<open>nan(...)\<close> in any case, or a decimal number with an optional exponent.  An exponent
  without digits is not consumed.  The value is the binary64 number nearest to the decimal one; a
  nonzero decimal that rounds to zero or to infinity is out of range.
\<close>

definition decimal_value :: "bool \<Rightarrow> nat \<Rightarrow> int \<Rightarrow> double" where
  "decimal_value s n x =
     (if 0 \<le> x then round_ratio s (n * 10 ^ nat x) 1 else round_ratio s n (10 ^ nat (- x)))"

fun out_of_range :: "nat \<Rightarrow> double \<Rightarrow> bool" where
  "out_of_range n (Infinite _) = True"
| "out_of_range n (Finite _ m _) = (m = 0 \<and> 0 < n)"
| "out_of_range n NaN = False"

definition strip_prefix_ci :: "string \<Rightarrow> string \<Rightarrow> string option" where
  "strip_prefix_ci p str =
     (if to_upper (take (length p) str) = to_upper p then Some (drop (length p) str) else None)"

definition is_nan_char :: "char \<Rightarrow> bool" where
  "is_nan_char c \<longleftrightarrow> is_digit c \<or> c = CHR ''_'' \<or>
     ((65 :: nat) \<le> of_char (toupper c) \<and> of_char (toupper c) \<le> (90 :: nat))"

definition skip_nan_payload :: "string \<Rightarrow> string" where
  "skip_nan_payload str =
     (case str of [] \<Rightarrow> [] | c # cs \<Rightarrow>
        if c = CHR ''('' then
          (case dropWhile is_nan_char cs of
             [] \<Rightarrow> str | d # ds \<Rightarrow> if d = CHR '')'' then ds else str)
        else str)"

text \<open>The exponent after the mantissa: its value and the rest, the input itself if there is none.\<close>

definition parse_exponent :: "string \<Rightarrow> int \<times> string" where
  "parse_exponent str =
     (case str of [] \<Rightarrow> (0, []) | c # cs \<Rightarrow>
        if c = CHR ''e'' \<or> c = CHR ''E'' then
          let (neg, ds) = (case cs of [] \<Rightarrow> (False, []) | d # ds \<Rightarrow>
                             if d = CHR ''-'' then (True, ds)
                             else if d = CHR ''+'' then (False, ds) else (False, cs));
              x = takeWhile is_digit ds
          in if x = [] then (0, str)
             else ((if neg then - int (digits_val x) else int (digits_val x)), dropWhile is_digit ds)
        else (0, str))"

definition from_chars_decimal :: "string \<Rightarrow> bool \<Rightarrow> string \<Rightarrow> string \<times> (errc + double)" where
  "from_chars_decimal whole s str =
     (let ip = takeWhile is_digit str; r1 = dropWhile is_digit str;
          (fp, r2) = (case r1 of [] \<Rightarrow> ([], []) | c # cs \<Rightarrow>
                        if c = CHR ''.'' then (takeWhile is_digit cs, dropWhile is_digit cs)
                        else ([], r1));
          n = digits_val (ip @ fp)
      in if ip @ fp = [] then (whole, Inl Invalid_argument)
         else let (x, r3) = parse_exponent r2;
                  v = decimal_value s n (x - int (length fp))
              in if out_of_range n v then (r3, Inl Result_out_of_range) else (r3, Inr v))"

definition from_chars_double :: "string \<Rightarrow> string \<times> (errc + double)" where
  "from_chars_double str =
     (let (s, t) = (case str of [] \<Rightarrow> (False, []) | c # cs \<Rightarrow>
                      if c = CHR ''-'' then (True, cs) else (False, str))
      in case strip_prefix_ci ''infinity'' t of Some r \<Rightarrow> (r, Inr (Infinite s))
         | None \<Rightarrow> (case strip_prefix_ci ''inf'' t of Some r \<Rightarrow> (r, Inr (Infinite s))
         | None \<Rightarrow> (case strip_prefix_ci ''nan'' t of Some r \<Rightarrow> (skip_nan_payload r, Inr NaN)
         | None \<Rightarrow> from_chars_decimal str s t)))"

section \<open>Helpers of model.cpp\<close>

text \<open>\<open>parse_number<T>\<close>: the value if the whole text was consumed without an error.\<close>

definition parse_number :: "(string \<Rightarrow> string \<times> (errc + 'a)) \<Rightarrow> string \<Rightarrow> 'a option" where
  "parse_number from_chars str =
     (case from_chars str of
        (rest, Inr v) \<Rightarrow> if rest = [] then Some v else None
      | (rest, Inl _) \<Rightarrow> None)"

text \<open>\<open>split\<close>: the loop over \<open>find\<close>, with the index where the next part starts.\<close>

function split_from :: "string \<Rightarrow> char \<Rightarrow> nat \<Rightarrow> string list" where
  "split_from str sep start =
     (case find_char str sep start of
        None \<Rightarrow> [drop start str]
      | Some k \<Rightarrow> substr str start (k - start) # split_from str sep (Suc k))"
  by pat_completeness auto
termination
  by (relation "measure (\<lambda>(str, sep, start). length str - start)")
    (use find_char_Some in fastforce)+

declare split_from.simps [simp del]

definition split :: "string \<Rightarrow> char \<Rightarrow> string list" where
  "split str sep = split_from str sep 0"

section \<open>Facts about splitting\<close>

text \<open>The reference: split structurally, one character at a time; and its inverse.\<close>

fun split_ref :: "char \<Rightarrow> string \<Rightarrow> string list" where
  "split_ref sep [] = [[]]"
| "split_ref sep (c # cs) =
     (if c = sep then [] # split_ref sep cs
      else (c # hd (split_ref sep cs)) # tl (split_ref sep cs))"

fun join :: "char \<Rightarrow> string list \<Rightarrow> string" where
  "join sep [] = []"
| "join sep [p] = p"
| "join sep (p # ps) = p @ sep # join sep ps"

lemma split_ref_nonempty [simp]: "split_ref sep str \<noteq> []"
  by (cases str) auto

lemma split_ref_no_sep: "sep \<notin> set str \<Longrightarrow> split_ref sep str = [str]"
  by (induction str) auto

lemma split_ref_append: "sep \<notin> set p \<Longrightarrow> split_ref sep (p @ sep # str) = p # split_ref sep str"
  by (induction p) auto

lemma split_from_eq_ref:
  "start \<le> length str \<Longrightarrow> split_from str sep start = split_ref sep (drop start str)"
proof (induction str sep start rule: split_from.induct)
  case (1 str sep start)
  show ?case
  proof (cases "find_char str sep start")
    case None
    then show ?thesis
      by (simp add: split_from.simps [of str] split_ref_no_sep find_char_None)
  next
    case (Some k)
    note f = find_char_Some [OF Some]
    have "drop start str = substr str start (k - start) @ drop k str"
      using f(1) append_take_drop_id [of "k - start" "drop start str"] by (simp add: substr_def)
    also have "drop k str = sep # drop (Suc k) str"
      using Cons_nth_drop_Suc [OF f(2)] f(3) by simp
    finally have "split_ref sep (drop start str)
        = substr str start (k - start) # split_ref sep (drop (Suc k) str)"
      using f(4) by (simp add: split_ref_append)
    with "1.IH" [OF Some] f(2) Some show ?thesis
      by (simp add: split_from.simps [of str])
  qed
qed

lemma split_eq_ref: "split str sep = split_ref sep str"
  by (simp add: split_def split_from_eq_ref)

lemma join_Cons: "ps \<noteq> [] \<Longrightarrow> join sep (p # ps) = p @ sep # join sep ps"
  by (cases ps) auto

lemma join_split_ref: "join sep (split_ref sep str) = str"
proof (induction str)
  case (Cons c cs)
  then show ?case
    by (cases "tl (split_ref sep cs)"; cases "split_ref sep cs") (auto simp: join_Cons)
qed simp

lemma split_ref_join:
  "ps \<noteq> [] \<Longrightarrow> \<forall>p \<in> set ps. sep \<notin> set p \<Longrightarrow> split_ref sep (join sep ps) = ps"
proof (induction sep ps rule: join.induct)
  case (3 sep p q ps)
  then show ?case by (simp add: split_ref_append)
qed (simp_all add: split_ref_no_sep)

lemma split_ref_parts: "p \<in> set (split_ref sep str) \<Longrightarrow> sep \<notin> set p"
proof (induction str arbitrary: p)
  case (Cons c cs)
  have "hd (split_ref sep cs) \<in> set (split_ref sep cs)" by simp
  moreover have "set (tl (split_ref sep cs)) \<subseteq> set (split_ref sep cs)"
    by (cases "split_ref sep cs") auto
  ultimately show ?case using Cons by (auto split: if_splits)
qed simp

lemma length_split_ref: "length (split_ref sep str) = Suc (count_list str sep)"
  by (induction str) auto

section \<open>Facts about numbers\<close>

text \<open>The decimal rendering of an unsigned number, as \<open>operator<<\<close> and \<open>std::to_string\<close> print it.\<close>

fun show_nat :: "nat \<Rightarrow> string" where
  "show_nat n = (if n < 10 then [char_of (48 + n)] else show_nat (n div 10) @ [char_of (48 + n mod 10)])"

declare show_nat.simps [simp del]

lemma digits_val_append: "digits_val (xs @ [c]) = 10 * digits_val xs + digit_val c"
  by (simp add: digits_val_def)

lemma digit_char:
  assumes "n < 10"
  shows "is_digit (char_of (48 + n))" and "digit_val (char_of (48 + n)) = n"
  using assms by (simp_all add: is_digit_def digit_val_def)

lemma show_nat_digits: "c \<in> set (show_nat n) \<Longrightarrow> is_digit c"
proof (induction n rule: show_nat.induct)
  case (1 n)
  then show ?case by (auto simp: show_nat.simps [of n] digit_char split: if_splits)
qed

lemma show_nat_nonempty [simp]: "show_nat n \<noteq> []"
  by (subst show_nat.simps) simp

lemma digits_val_show_nat [simp]: "digits_val (show_nat n) = n"
proof (induction n rule: show_nat.induct)
  case (1 n)
  show ?case
  proof (cases "n < 10")
    case True
    then have "show_nat n = [] @ [char_of (48 + n)]" by (simp add: show_nat.simps)
    then have "digits_val (show_nat n) = 10 * digits_val [] + digit_val (char_of (48 + n))"
      by (simp only: digits_val_append)
    with True show ?thesis by (simp add: digit_char) (simp add: digits_val_def)
  next
    case False
    then have "digits_val (show_nat n) = 10 * (n div 10) + n mod 10"
      using "1.IH" by (simp add: show_nat.simps [of n] digits_val_append digit_char)
    then show ?thesis by simp
  qed
qed

lemma parse_unsigned_iff:
  "parse_number (from_chars_unsigned limit) str = Some v \<longleftrightarrow>
     str \<noteq> [] \<and> (\<forall>c \<in> set str. is_digit c) \<and> v = digits_val str \<and> v \<le> limit"
proof (cases "\<forall>c \<in> set str. is_digit c")
  case True
  then have tw: "takeWhile is_digit str = str" "dropWhile is_digit str = []" by auto
  from True show ?thesis
    by (auto simp: parse_number_def from_chars_unsigned_def Let_def tw
        simp del: takeWhile_eq_all_conv dropWhile_eq_Nil_conv)
next
  case False
  then have "dropWhile is_digit str \<noteq> []" by auto
  with False show ?thesis
    by (auto simp: parse_number_def from_chars_unsigned_def Let_def split: if_splits)
qed

lemma toupper_digit: "is_digit c \<Longrightarrow> toupper c = c"
  by (simp add: is_digit_def toupper_def)

lemma strip_prefix_ci_digit:
  assumes "is_digit c" and "p \<noteq> []" and "\<not> is_digit (toupper (hd p))"
  shows "strip_prefix_ci p (c # cs) = None"
proof -
  have "hd (to_upper (take (length p) (c # cs))) = c"
    using assms by (cases p) (simp_all add: to_upper_def toupper_digit)
  moreover have "hd (to_upper p) = toupper (hd p)"
    using assms by (cases p) (simp_all add: to_upper_def)
  ultimately have "to_upper (take (length p) (c # cs)) \<noteq> to_upper p"
    using assms by metis
  then show ?thesis by (simp add: strip_prefix_ci_def)
qed

lemma not_digit_letters [simp]:
  "\<not> is_digit (toupper CHR ''i'')" "\<not> is_digit (toupper CHR ''n'')" "\<not> is_digit CHR ''-''"
  "\<not> is_digit CHR ''.''" "\<not> is_digit CHR ''e''" "\<not> is_digit CHR ''_''" "\<not> is_digit CHR '':''"
  by (simp_all add: is_digit_def toupper_def)

lemma from_chars_double_digits:
  assumes ne: "ds \<noteq> []" and ds: "\<forall>c \<in> set ds. is_digit c"
  shows "from_chars_double ds =
    ([], if out_of_range (digits_val ds) (round_ratio False (digits_val ds) 1)
         then Inl Result_out_of_range else Inr (round_ratio False (digits_val ds) 1))"
proof -
  obtain c cs where c: "ds = c # cs" using ne by (cases ds) auto
  with ds have dc: "is_digit c" by simp
  then have nm: "c \<noteq> CHR ''-''" by (auto simp: is_digit_def)
  have tw: "takeWhile is_digit ds = ds" "dropWhile is_digit ds = []" using ds by auto
  have "from_chars_double ds = from_chars_decimal ds False ds"
    unfolding from_chars_double_def c using dc nm
    by (simp add: strip_prefix_ci_digit)
  then show ?thesis using ne tw
    by (simp add: from_chars_decimal_def parse_exponent_def decimal_value_def)
qed

text \<open>A whole number up to \<open>2 ^ 53\<close> is parsed exactly.\<close>

lemma parse_double_integer:
  assumes "ds \<noteq> []" and "\<forall>c \<in> set ds. is_digit c" and "digits_val ds \<le> 2 ^ 53"
  shows "parse_number from_chars_double ds = Some (double_of_int (int (digits_val ds)))"
proof -
  have eq: "double_of_int (int (digits_val ds)) = round_ratio False (digits_val ds) 1"
    by (simp add: double_of_int_def)
  have small: "\<bar>int (digits_val ds)\<bar> \<le> 2 ^ 53" using assms(3) by simp
  obtain m e where me: "double_of_int (int (digits_val ds)) = Finite (int (digits_val ds) < 0) m e"
    "magnitude m e = real_of_int \<bar>int (digits_val ds)\<bar>"
    using double_of_int_small [OF small] by blast
  have "\<not> out_of_range (digits_val ds) (round_ratio False (digits_val ds) 1)"
    using me unfolding eq by (cases m) (auto simp: magnitude_def)
  then show ?thesis
    by (simp add: parse_number_def from_chars_double_digits [OF assms(1,2)] eq)
qed

end
