(* ===== verification/Decimals.thy ===== *)
theory Decimals
  imports CharConv
begin

text \<open>
  The decimal numbers that \<open>std::from_chars\<close> reads as a \<open>double\<close>: a grammar of their text and the
  number it spells, what \<open>from_chars_double\<close> (\<open>CharConv\<close>) makes of it, and that the result is a
  nearest binary64 number.
\<close>

text \<open>\<open>decimal_text str n x\<close>: the text \<open>str\<close> spells the number \<open>n\<close> times ten to the \<open>x\<close>.\<close>

section \<open>The grammar of decimal numbers\<close>

inductive exponent_text :: "string \<Rightarrow> int \<Rightarrow> bool" where
  no_exponent: "exponent_text [] 0"
| exponent: "c \<in> {CHR ''e'', CHR ''E''} \<Longrightarrow> sign \<in> {'''', ''+''} \<Longrightarrow> ds \<noteq> [] \<Longrightarrow> \<forall>d \<in> set ds. is_digit d \<Longrightarrow>
    exponent_text (c # sign @ ds) (int (digits_val ds))"
| negative_exponent: "c \<in> {CHR ''e'', CHR ''E''} \<Longrightarrow> ds \<noteq> [] \<Longrightarrow> \<forall>d \<in> set ds. is_digit d \<Longrightarrow>
    exponent_text (c # CHR ''-'' # ds) (- int (digits_val ds))"

inductive decimal_text :: "string \<Rightarrow> nat \<Rightarrow> int \<Rightarrow> bool" where
  whole: "xs \<noteq> [] \<Longrightarrow> \<forall>c \<in> set xs. is_digit c \<Longrightarrow> exponent_text ex x \<Longrightarrow>
    decimal_text (xs @ ex) (digits_val xs) x"
| fraction: "xs @ ys \<noteq> [] \<Longrightarrow> \<forall>c \<in> set (xs @ ys). is_digit c \<Longrightarrow> exponent_text ex x \<Longrightarrow>
    decimal_text (xs @ CHR ''.'' # ys @ ex) (digits_val (xs @ ys)) (x - int (length ys))"

lemma takeWhile_digits:
  assumes "\<forall>c \<in> set xs. is_digit c" and "rest = [] \<or> \<not> is_digit (hd rest)"
  shows "takeWhile is_digit (xs @ rest) = xs" and "dropWhile is_digit (xs @ rest) = rest"
  using assms by (cases rest; auto simp: takeWhile_append dropWhile_append)+

lemma not_digit_E [simp]: "\<not> is_digit CHR ''E''" "\<not> is_digit CHR ''+''"
  by (simp_all add: is_digit_def)

lemma exponent_text_hd: "exponent_text ex x \<Longrightarrow> ex = [] \<or> \<not> is_digit (hd ex) \<and> hd ex \<noteq> CHR ''.''"
  by (induction rule: exponent_text.induct) auto

lemma parse_exponent_text: "exponent_text ex x \<Longrightarrow> parse_exponent ex = (x, [])"
proof (induction rule: exponent_text.induct)
  case (exponent c sign ds)
  then have ds: "takeWhile is_digit ds = ds" "dropWhile is_digit ds = []" by auto
  obtain d ds' where d: "ds = d # ds'" using exponent(3) by (cases ds) auto
  then have "d \<noteq> CHR ''-'' \<and> d \<noteq> CHR ''+''" using exponent(4) by auto
  with exponent ds d show ?case
    by (auto simp: parse_exponent_def Let_def simp del: takeWhile_eq_all_conv dropWhile_eq_Nil_conv)
next
  case (negative_exponent c ds)
  then have ds: "takeWhile is_digit ds = ds" "dropWhile is_digit ds = []" by auto
  with negative_exponent show ?case
    by (auto simp: parse_exponent_def Let_def simp del: takeWhile_eq_all_conv dropWhile_eq_Nil_conv)
qed (simp add: parse_exponent_def)

lemma parse_exponent_sound:
  assumes "parse_exponent r = (x, [])"
  shows "exponent_text r x"
proof (cases r)
  case Nil
  with assms show ?thesis by (simp add: parse_exponent_def exponent_text.no_exponent)
next
  case (Cons c cs)
  define neg ds where "neg = (cs \<noteq> [] \<and> hd cs = CHR ''-'')"
    and "ds = (if cs \<noteq> [] \<and> hd cs \<in> {CHR ''-'', CHR ''+''} then tl cs else cs)"
  have p: "(case cs of [] \<Rightarrow> (False, []) | d # ds \<Rightarrow> if d = CHR ''-'' then (True, ds)
      else if d = CHR ''+'' then (False, ds) else (False, cs)) = (neg, ds)"
    by (cases cs) (auto simp: neg_def ds_def)
  have e: "c = CHR ''e'' \<or> c = CHR ''E''" and ne: "takeWhile is_digit ds \<noteq> []" and all: "dropWhile is_digit ds = []"
    and x: "x = (if neg then - int (digits_val (takeWhile is_digit ds)) else int (digits_val (takeWhile is_digit ds)))"
    using assms unfolding Cons parse_exponent_def by (auto simp: p Let_def split: if_splits)
  then have ds: "ds \<noteq> []" "\<forall>d \<in> set ds. is_digit d" and tw: "takeWhile is_digit ds = ds" by auto
  show ?thesis
  proof (cases neg)
    case True
    then have "r = c # CHR ''-'' # ds" using Cons by (cases cs) (auto simp: neg_def ds_def)
    with True e ds x tw show ?thesis using exponent_text.negative_exponent [of c ds] by auto
  next
    case False
    then have "r = c # '''' @ ds \<or> r = c # ''+'' @ ds" using Cons by (cases cs) (auto simp: neg_def ds_def)
    with False e ds x tw show ?thesis
      using exponent_text.exponent [of c "''''" ds] exponent_text.exponent [of c "''+''" ds] by auto
  qed
qed

text \<open>\<open>from_chars_decimal\<close> consumes the whole text exactly on a decimal number.\<close>

lemma from_chars_decimal_text:
  assumes "decimal_text str n x"
  shows "from_chars_decimal whole s str =
    ([], if out_of_range n (decimal_value s n x) then Inl Result_out_of_range else Inr (decimal_value s n x))"
  using assms
proof cases
  case (whole xs ex)
  then have "ex = [] \<or> \<not> is_digit (hd ex)" and hd: "ex = [] \<or> hd ex \<noteq> CHR ''.''" using exponent_text_hd by auto
  note tw = takeWhile_digits [OF whole(4) this(1)]
  have "(case ex of [] \<Rightarrow> ([], []) | c # cs \<Rightarrow> if c = CHR ''.'' then (takeWhile is_digit cs, dropWhile is_digit cs)
      else ([], ex)) = ([], ex)" using hd by (cases ex) auto
  with whole show ?thesis by (simp add: from_chars_decimal_def tw parse_exponent_text)
next
  case (fraction xs ys ex x')
  have "ex = [] \<or> \<not> is_digit (hd ex)" using exponent_text_hd [OF fraction(6)] by auto
  then have ys: "takeWhile is_digit (ys @ ex) = ys" "dropWhile is_digit (ys @ ex) = ex"
    using takeWhile_digits [of ys ex] fraction(5) by auto
  have xs: "takeWhile is_digit (xs @ CHR ''.'' # ys @ ex) = xs"
    "dropWhile is_digit (xs @ CHR ''.'' # ys @ ex) = CHR ''.'' # ys @ ex"
    using takeWhile_digits [of xs "CHR ''.'' # ys @ ex"] fraction(5) by auto
  from fraction show ?thesis by (auto simp add: from_chars_decimal_def xs ys parse_exponent_text)
qed

lemma from_chars_decimal_sound:
  assumes "from_chars_decimal whole s str = ([], Inr v)"
  obtains n x where "decimal_text str n x"
proof -
  define ip r1 where "ip = takeWhile is_digit str" and "r1 = dropWhile is_digit str"
  have str: "str = ip @ r1" and ip: "\<forall>c \<in> set ip. is_digit c"
    by (auto simp: ip_def r1_def dest: set_takeWhileD)
  show thesis
  proof (cases "r1 \<noteq> [] \<and> hd r1 = CHR ''.''")
    case True
    then obtain cs where r1: "r1 = CHR ''.'' # cs" by (cases r1) auto
    define fp r2 where "fp = takeWhile is_digit cs" and "r2 = dropWhile is_digit cs"
    have cs: "cs = fp @ r2" and fp: "\<forall>c \<in> set fp. is_digit c"
      by (auto simp: fp_def r2_def dest: set_takeWhileD)
    obtain x r3 where x: "parse_exponent r2 = (x, r3)" by (cases "parse_exponent r2")
    have "ip @ fp \<noteq> []" and "r3 = []"
      using assms unfolding from_chars_decimal_def Let_def ip_def [symmetric] r1_def [symmetric] r1
      by (auto simp: fp_def [symmetric] r2_def [symmetric] x split: if_splits)
    then show thesis
      using decimal_text.fraction [of ip fp r2 x] parse_exponent_sound [of r2 x] x ip fp that
      by (auto simp: str r1 cs)
  next
    case False
    then have nd: "(case r1 of [] \<Rightarrow> ([], []) | c # cs \<Rightarrow> if c = CHR ''.'' then (takeWhile is_digit cs, dropWhile is_digit cs)
      else ([], r1)) = ([], r1)" by (cases r1) auto
    obtain x r3 where x: "parse_exponent r1 = (x, r3)" by (cases "parse_exponent r1")
    have "ip \<noteq> []" and "r3 = []"
      using assms unfolding from_chars_decimal_def Let_def ip_def [symmetric] r1_def [symmetric] nd
      by (auto simp: x split: if_splits)
    then show thesis
      using decimal_text.whole [of ip r1 x] parse_exponent_sound [of r1 x] x ip that by (auto simp: str)
  qed
qed

text \<open>Without a sign, \<open>from_chars_double\<close> yields a finite number exactly on a decimal number.\<close>

lemma strip_prefix_ci_other:
  assumes "toupper c \<noteq> toupper (hd p)" and "p \<noteq> []"
  shows "strip_prefix_ci p (c # cs) = None"
proof -
  have "hd (to_upper (take (length p) (c # cs))) \<noteq> hd (to_upper p)"
    using assms by (cases p) (simp_all add: to_upper_def)
  then show ?thesis by (auto simp: strip_prefix_ci_def)
qed

lemma upper_not_dot: "toupper CHR ''i'' \<noteq> CHR ''.''" "toupper CHR ''n'' \<noteq> CHR ''.''"
  by (auto simp: toupper_def dest: arg_cong [where f = "of_char :: char \<Rightarrow> nat"])

lemma parse_decimal_text:
  assumes "decimal_text str n x"
  defines "v \<equiv> decimal_value False n x"
  shows "parse_number from_chars_double str = (if out_of_range n v then None else Some v)"
proof -
  obtain c cs where c: "str = c # cs" and first: "is_digit c \<or> c = CHR ''.''"
    using assms(1)
  proof cases
    case (whole xs ex)
    then show thesis using that by (cases xs) auto
  next
    case (fraction xs ys ex x')
    then show thesis using that by (cases xs) auto
  qed
  then have "c \<noteq> CHR ''-''" by auto
  moreover have "is_digit (toupper c) \<or> toupper c = CHR ''.''"
    using first by (auto simp: toupper_digit) (simp add: toupper_def)
  then have "toupper c \<noteq> toupper CHR ''i''" and "toupper c \<noteq> toupper CHR ''n''"
    using not_digit_letters(1,2) upper_not_dot by metis+
  ultimately have "from_chars_double str = from_chars_decimal str False str"
    unfolding from_chars_double_def c by (simp add: strip_prefix_ci_other)
  then show ?thesis by (simp add: parse_number_def from_chars_decimal_text [OF assms(1)] v_def)
qed

lemma parse_finite_text:
  assumes "parse_number from_chars_double str = Some (Finite s m e)" and "CHR ''-'' \<notin> set str"
  obtains n x where "decimal_text str n x"
proof -
  have start: "(case str of [] \<Rightarrow> (False, []) | c # cs \<Rightarrow> if c = CHR ''-'' then (True, cs) else (False, str)) = (False, str)"
    using assms(2) by (cases str) auto
  obtain rest where r: "from_chars_double str = (rest, Inr (Finite s m e))" and "rest = []"
    using assms(1) by (auto simp: parse_number_def split: prod.splits sum.splits if_splits)
  then have "from_chars_decimal str False str = ([], Inr (Finite s m e))"
    unfolding from_chars_double_def start by (auto split: option.splits)
  then show thesis using that by (rule from_chars_decimal_sound)
qed

text \<open>The decimal value is a nearest binary64 number to what the text spells.\<close>

lemma decimal_value_nearest:
  assumes "decimal_value s n x = Finite t m e" and "double_ok (Finite u m2 e2)"
  shows "\<bar>magnitude m e - real n * 10 powi x\<bar> \<le> \<bar>magnitude m2 e2 - real n * 10 powi x\<bar>"
proof (cases "0 \<le> x")
  case True
  with assms(1) have "round_ratio s (n * 10 ^ nat x) 1 = Finite t m e" by (simp add: decimal_value_def)
  from round_ratio_nearest [OF this _ assms(2)] True show ?thesis by (simp add: power_int_def)
next
  case False
  with assms(1) have "round_ratio s n (10 ^ nat (- x)) = Finite t m e" by (simp add: decimal_value_def)
  from round_ratio_nearest [OF this _ assms(2)]
  have "\<bar>magnitude m e - real n / 10 ^ nat (- x)\<bar> \<le> \<bar>magnitude m2 e2 - real n / 10 ^ nat (- x)\<bar>" by simp
  moreover have "real n / 10 ^ nat (- x) = real n * 10 powi x"
    using False by (simp add: power_int_def field_simps)
  ultimately show ?thesis by simp
qed

end
