(* ===== verification/Calendar.thy ===== *)
theory Calendar
  imports Prelude
begin

text \<open>
  The part of \<open>std::chrono\<close> calendars that \<open>parse_expiry\<close> uses: \<open>year_month_day\<close>, its \<open>ok()\<close> and
  its conversion to \<open>sys_days\<close> (days since 1970-01-01, proleptic Gregorian calendar).  The
  conversion is characterised by two facts: the epoch is day 0 and the next calendar day has the
  next number; from bounds within a year it follows that distinct dates have distinct numbers.
\<close>

record ymd =
  ymd_year :: int
  ymd_month :: nat
  ymd_day :: nat

definition is_leap :: "int \<Rightarrow> bool" where
  "is_leap y \<longleftrightarrow> y mod 4 = 0 \<and> (y mod 100 \<noteq> 0 \<or> y mod 400 = 0)"

definition last_day :: "int \<Rightarrow> nat \<Rightarrow> nat" where
  "last_day y m =
     (if m = 2 then (if is_leap y then 29 else 28)
      else if m = 4 \<or> m = 6 \<or> m = 9 \<or> m = 11 then 30 else 31)"

definition ymd_ok :: "ymd \<Rightarrow> bool" where
  "ymd_ok d \<longleftrightarrow> - 32767 \<le> ymd_year d \<and> ymd_year d \<le> 32767 \<and>
     1 \<le> ymd_month d \<and> ymd_month d \<le> 12 \<and>
     1 \<le> ymd_day d \<and> ymd_day d \<le> last_day (ymd_year d) (ymd_month d)"

definition days_before_year :: "int \<Rightarrow> int" where
  "days_before_year y =
     365 * (y - 1970) + ((y - 1) div 4 - (y - 1) div 100 + (y - 1) div 400) - 477"

definition days_before_month :: "int \<Rightarrow> nat \<Rightarrow> int" where
  "days_before_month y m = int (sum_list (map (last_day y) [1..<m]))"

definition sys_days :: "ymd \<Rightarrow> int" where
  "sys_days d = days_before_year (ymd_year d) + days_before_month (ymd_year d) (ymd_month d)
     + int (ymd_day d) - 1"

text \<open>\<open>sys_days + hours\<close> as a count of nanoseconds.\<close>

definition kDeribitExpiryHourUtc :: int where "kDeribitExpiryHourUtc = 8"

definition nanos_at_hour :: "ymd \<Rightarrow> int \<Rightarrow> nanos" where
  "nanos_at_hour d h = (sys_days d * 24 + h) * 3600 * 1000000000"

section \<open>The day count follows the calendar\<close>

definition epoch_day :: ymd where
  "epoch_day = \<lparr>ymd_year = 1970, ymd_month = 1, ymd_day = 1\<rparr>"

definition next_day :: "ymd \<Rightarrow> ymd" where
  "next_day d =
     (if ymd_day d < last_day (ymd_year d) (ymd_month d) then d\<lparr>ymd_day := Suc (ymd_day d)\<rparr>
      else if ymd_month d < 12 then d\<lparr>ymd_month := Suc (ymd_month d), ymd_day := 1\<rparr>
      else \<lparr>ymd_year = ymd_year d + 1, ymd_month = 1, ymd_day = 1\<rparr>)"

definition year_days :: "int \<Rightarrow> int" where
  "year_days y = (if is_leap y then 366 else 365)"

lemma div_pred:
  assumes "0 < (k::int)"
  shows "y div k = (y - 1) div k + (if y mod k = 0 then 1 else 0)"
proof (cases "y mod k = 0")
  case True
  then obtain q where "y = k * q" by (auto elim: dvdE simp: mod_eq_0_iff_dvd)
  moreover have "(k * q - 1) div k = q - 1"
  proof -
    have "(k * q - 1) div k = (k * (q - 1) + (k - 1)) div k" by (simp add: algebra_simps)
    also have "\<dots> = q - 1" using assms by simp
    finally show ?thesis .
  qed
  ultimately show ?thesis using assms by simp
next
  case False
  moreover have "0 \<le> y mod k" "y mod k < k" using assms by simp_all
  ultimately have m: "0 < y mod k" "y mod k < k" by linarith+
  have "y - 1 = k * (y div k) + (y mod k - 1)" by simp
  then have "(y - 1) div k = (k * (y div k) + (y mod k - 1)) div k" by (rule arg_cong)
  also have "\<dots> = y div k + (y mod k - 1) div k" using assms by simp
  also have "(y mod k - 1) div k = 0" using m by simp
  finally show ?thesis using False by simp
qed

lemma leap_count_step:
  fixes y :: int
  assumes "b = a + c" and "b' = a' + c'" and "b'' = a'' + c''"
  shows "365 * (y + 1 - 1970) + (b - b' + b'') - 477
    = 365 * (y - 1970) + (a - a' + a'') - 477 + (365 + (c - c' + c''))"
  using assms by simp

lemma leap_days_cases:
  "(R \<longrightarrow> Q) \<Longrightarrow> (Q \<longrightarrow> P) \<Longrightarrow>
    365 + ((if P then 1 else 0) - (if Q then 1 else 0) + (if R then 1 else 0))
    = (if P \<and> (\<not> Q \<or> R) then 366 else (365 :: int))"
  by (cases P; cases Q; cases R) simp_all

lemma days_before_year_Suc: "days_before_year (y + 1) = days_before_year y + year_days y"
proof -
  have "(100::int) dvd 400" "(4::int) dvd 100" by simp_all
  then have m: "y mod 400 = 0 \<longrightarrow> y mod 100 = 0" "y mod 100 = 0 \<longrightarrow> y mod 4 = 0"
    unfolding mod_eq_0_iff_dvd by (blast intro: dvd_trans)+
  have "days_before_year (y + 1) = days_before_year y
      + (365 + ((if y mod 4 = 0 then 1 else 0) - (if y mod 100 = 0 then 1 else 0)
         + (if y mod 400 = 0 then 1 else 0)))"
    unfolding days_before_year_def add_diff_cancel_right'
    by (rule leap_count_step; rule div_pred) simp_all
  then show ?thesis unfolding year_days_def is_leap_def
    by (simp only: leap_days_cases [of "y mod 400 = 0" "y mod 100 = 0", OF m])
qed

lemma days_before_month_Suc:
  "1 \<le> m \<Longrightarrow> days_before_month y (Suc m) = days_before_month y m + int (last_day y m)"
  by (simp add: days_before_month_def)

lemma days_before_month_1 [simp]: "days_before_month y (Suc 0) = 0"
  by (simp add: days_before_month_def)

lemma days_before_month_13: "days_before_month y 13 = year_days y"
  by (simp add: days_before_month_def last_day_def year_days_def upt_rec)

lemma sys_days_epoch: "sys_days epoch_day = 0"
  by (simp add: epoch_day_def sys_days_def days_before_year_def)

lemma next_day_ok:
  assumes "ymd_ok d" and "ymd_year d < 32767"
  shows "ymd_ok (next_day d)"
  using assms by (auto simp: ymd_ok_def next_day_def last_day_def)

lemma sys_days_next:
  assumes "ymd_ok d"
  shows "sys_days (next_day d) = sys_days d + 1"
proof -
  have ok: "1 \<le> ymd_month d" "ymd_month d \<le> 12" "ymd_day d \<le> last_day (ymd_year d) (ymd_month d)"
    using assms by (simp_all add: ymd_ok_def)
  show ?thesis
  proof (cases "ymd_day d < last_day (ymd_year d) (ymd_month d)")
    case True
    then show ?thesis by (simp add: next_day_def sys_days_def)
  next
    case False
    with ok have last: "ymd_day d = last_day (ymd_year d) (ymd_month d)" by simp
    show ?thesis
    proof (cases "ymd_month d < 12")
      case True
      with False last ok show ?thesis
        by (simp add: next_day_def sys_days_def days_before_month_Suc)
    next
      case m: False
      with ok have "ymd_month d = 12" by simp
      moreover have "days_before_month (ymd_year d) 12 + int (last_day (ymd_year d) 12) = year_days (ymd_year d)"
        using days_before_month_Suc [of 12] days_before_month_13 by simp
      ultimately show ?thesis using False last
        by (simp add: next_day_def sys_days_def days_before_year_Suc)
    qed
  qed
qed

section \<open>Distinct dates have distinct day numbers\<close>

lemma days_before_year_mono: "y \<le> z \<Longrightarrow> days_before_year y \<le> days_before_year z"
proof (induction z rule: int_ge_induct)
  case (step z)
  then show ?case by (simp add: days_before_year_Suc year_days_def)
qed simp

lemma days_before_month_mono: "m \<le> n \<Longrightarrow> days_before_month y m \<le> days_before_month y n"
proof (induction n rule: dec_induct)
  case (step n)
  then show ?case by (cases "1 \<le> n") (simp_all add: days_before_month_Suc days_before_month_def)
qed simp

lemma last_day_pos [simp]: "0 < last_day y m"
  by (simp add: last_day_def)

lemma sys_days_in_year:
  assumes "ymd_ok d"
  shows "days_before_year (ymd_year d) \<le> sys_days d" and "sys_days d < days_before_year (ymd_year d + 1)"
proof -
  have ok: "1 \<le> ymd_month d" "ymd_month d \<le> 12" "1 \<le> ymd_day d"
    "ymd_day d \<le> last_day (ymd_year d) (ymd_month d)"
    using assms by (simp_all add: ymd_ok_def)
  show "days_before_year (ymd_year d) \<le> sys_days d"
    using ok by (simp add: sys_days_def days_before_month_def)
  have "days_before_month (ymd_year d) (Suc (ymd_month d)) \<le> year_days (ymd_year d)"
    using days_before_month_mono [of "Suc (ymd_month d)" 13] ok by (simp add: days_before_month_13)
  with ok show "sys_days d < days_before_year (ymd_year d + 1)"
    by (simp add: sys_days_def days_before_year_Suc days_before_month_Suc)
qed

lemma sys_days_less:
  assumes "ymd_ok a" and "ymd_ok b"
    and "ymd_year a < ymd_year b \<or> ymd_year a = ymd_year b \<and>
      (ymd_month a < ymd_month b \<or> ymd_month a = ymd_month b \<and> ymd_day a < ymd_day b)"
  shows "sys_days a < sys_days b"
  using assms(3)
proof (elim disjE conjE)
  assume "ymd_year a < ymd_year b"
  then have "days_before_year (ymd_year a + 1) \<le> days_before_year (ymd_year b)"
    by (intro days_before_year_mono) simp
  with sys_days_in_year [OF assms(1)] sys_days_in_year [OF assms(2)] show ?thesis by linarith
next
  assume y: "ymd_year a = ymd_year b" and m: "ymd_month a < ymd_month b"
  have ok: "1 \<le> ymd_month a" "ymd_day a \<le> last_day (ymd_year a) (ymd_month a)" "1 \<le> ymd_day b"
    using assms(1,2) by (simp_all add: ymd_ok_def)
  have "days_before_month (ymd_year a) (Suc (ymd_month a)) \<le> days_before_month (ymd_year a) (ymd_month b)"
    using m by (intro days_before_month_mono) simp
  with ok y show ?thesis by (simp add: sys_days_def days_before_month_Suc)
next
  assume "ymd_year a = ymd_year b" "ymd_month a = ymd_month b" "ymd_day a < ymd_day b"
  then show ?thesis by (simp add: sys_days_def)
qed

lemma sys_days_inj:
  assumes "ymd_ok a" and "ymd_ok b" and "sys_days a = sys_days b"
  shows "a = b"
proof (rule ccontr)
  assume "a \<noteq> b"
  then have "ymd_year a \<noteq> ymd_year b \<or> ymd_month a \<noteq> ymd_month b \<or> ymd_day a \<noteq> ymd_day b"
    by (auto intro: ymd.equality)
  then have "sys_days a < sys_days b \<or> sys_days b < sys_days a"
    using sys_days_less [OF assms(1,2)] sys_days_less [OF assms(2,1)] by linarith
  with assms(3) show False by simp
qed

lemma nanos_at_hour_inj:
  assumes "ymd_ok a" and "ymd_ok b" and "nanos_at_hour a h = nanos_at_hour b h"
  shows "a = b"
  using assms by (intro sys_days_inj) (simp_all add: nanos_at_hour_def)

end
