(* ===== verification/Model.thy ===== *)
theory Model
  imports CharConv Calendar
begin

text \<open>
  \<open>marketdata/model.hpp\<close> and \<open>marketdata/model.cpp\<close>: instrument kinds, the identity record
  \<open>InstrumentKey\<close>, the \<open>Tick\<close>, and the symbol parser.  Facts: the exact grammar of an expiry,
  the shape of every key the parser returns, the exact accepted symbols of each kind, and the
  round trip from printed option, future and index names.
\<close>

section \<open>Data\<close>

datatype option_right = Call | Put

datatype instrument_kind = Option | Future | Index | Perpetual | Unknown

record instrument_key =
  symbol :: string
  base_ccy :: string
  key_id :: instrument_id
  kind :: instrument_kind
  expiry :: nanos
  strike :: double
  key_right :: option_right

record tick =
  tick_id :: instrument_id
  exchange_ts :: nanos
  recv_ts :: nanos
  price :: double

text \<open>The default member initialisers.\<close>

definition default_key :: instrument_key where
  "default_key = \<lparr>symbol = [], base_ccy = [], key_id = 0, kind = Unknown, expiry = 0,
     strike = kNoValue, key_right = Call\<rparr>"

definition default_tick :: tick where
  "default_tick = \<lparr>tick_id = 0, exchange_ts = 0, recv_ts = 0, price = kNoValue\<rparr>"

fun to_string :: "instrument_kind \<Rightarrow> string" where
  "to_string Option = ''option''"
| "to_string Future = ''future''"
| "to_string Index = ''index''"
| "to_string Perpetual = ''perpetual''"
| "to_string Unknown = ''unknown''"

section \<open>Expiry dates\<close>

definition kMonths :: "string list" where
  "kMonths = [''JAN'', ''FEB'', ''MAR'', ''APR'', ''MAY'', ''JUN'',
              ''JUL'', ''AUG'', ''SEP'', ''OCT'', ''NOV'', ''DEC'']"

definition month_from_name :: "string \<Rightarrow> nat option" where
  "month_from_name name =
     (case find (\<lambda>i. kMonths ! i = name) [0..<length kMonths] of
        Some i \<Rightarrow> Some (i + 1) | None \<Rightarrow> None)"

definition parse_expiry :: "string \<Rightarrow> nanos option" where
  "parse_expiry str =
     (if length str < 6 \<or> 7 < length str then None
      else let day_digits = length str - 5;
               day = parse_number (from_chars_unsigned unsigned_max) (substr str 0 day_digits);
               month = month_from_name (substr str day_digits 3);
               year = parse_number (from_chars_unsigned unsigned_max) (drop (day_digits + 3) str)
           in (case (day, month, year) of
                 (Some d, Some m, Some y) \<Rightarrow>
                   let date = \<lparr>ymd_year = int (2000 + y), ymd_month = m, ymd_day = d\<rparr>
                   in if \<not> ymd_ok date then None
                      else Some (nanos_at_hour date kDeribitExpiryHourUtc)
               | _ \<Rightarrow> None))"

section \<open>Symbols\<close>

definition parse_symbol :: "string \<Rightarrow> instrument_key option" where
  "parse_symbol str =
     (if str = [] then None
      else case find_char str CHR ''_'' 0 of
        Some underscore \<Rightarrow>
          (if underscore = 0 \<or> underscore + 1 = length str then None
           else Some (default_key\<lparr>symbol := str,
                  base_ccy := to_upper (substr str 0 underscore), kind := Index\<rparr>))
      | None \<Rightarrow>
          (let parts = split str CHR ''-'' in
           if length parts \<noteq> 2 \<and> length parts \<noteq> 4 then None
           else if parts ! 0 = [] then None
           else let key = default_key\<lparr>symbol := str, base_ccy := parts ! 0\<rparr> in
             if length parts = 2 then
               (if parts ! 1 = ''PERPETUAL'' then Some (key\<lparr>kind := Perpetual\<rparr>)
                else (case parse_expiry (parts ! 1) of
                   None \<Rightarrow> None
                 | Some e \<Rightarrow> Some (key\<lparr>kind := Future, expiry := e\<rparr>)))
             else (case (parse_expiry (parts ! 1), parse_number from_chars_double (parts ! 2)) of
                (Some e, Some k) \<Rightarrow>
                  (if \<not> gt_zero k then None
                   else if parts ! 3 = ''C'' then
                     Some (key\<lparr>key_right := Call, kind := Option, expiry := e, strike := k\<rparr>)
                   else if parts ! 3 = ''P'' then
                     Some (key\<lparr>key_right := Put, kind := Option, expiry := e, strike := k\<rparr>)
                   else None)
              | _ \<Rightarrow> None)))"

section \<open>The grammar of an expiry\<close>

lemma length_kMonths [simp]: "length kMonths = 12"
  by (simp add: kMonths_def)

lemma distinct_kMonths: "distinct kMonths"
  by (simp add: kMonths_def)

lemma kMonths_length3: "i < 12 \<Longrightarrow> length (kMonths ! i) = 3"
proof -
  assume "i < 12"
  then have "kMonths ! i \<in> set kMonths" by simp
  then show ?thesis by (auto simp: kMonths_def)
qed

lemma month_from_name_iff:
  "month_from_name name = Some m \<longleftrightarrow> 1 \<le> m \<and> m \<le> 12 \<and> name = kMonths ! (m - 1)"
proof
  assume "month_from_name name = Some m"
  then obtain i where i: "find (\<lambda>i. kMonths ! i = name) [0..<12] = Some i" and m: "m = i + 1"
    by (auto simp: month_from_name_def split: option.splits)
  from i have "i < 12" "kMonths ! i = name"
    by (auto simp: find_Some_iff)
  with m show "1 \<le> m \<and> m \<le> 12 \<and> name = kMonths ! (m - 1)" by simp
next
  assume a: "1 \<le> m \<and> m \<le> 12 \<and> name = kMonths ! (m - 1)"
  have "find (\<lambda>i. kMonths ! i = name) [0..<12] = Some (m - 1)"
    unfolding find_Some_iff
    using a by (intro exI [of _ "m - 1"]) (auto simp: nth_eq_iff_index_eq [OF distinct_kMonths])
  with a show "month_from_name name = Some m" by (simp add: month_from_name_def)
qed

text \<open>The date that an expiry text denotes: one or two day digits, a month name, two year digits.\<close>

definition expiry_date :: "string \<Rightarrow> nat \<Rightarrow> string \<Rightarrow> ymd" where
  "expiry_date dd m yy =
     \<lparr>ymd_year = int (2000 + digits_val yy), ymd_month = m, ymd_day = digits_val dd\<rparr>"

definition expiry_parts :: "string \<Rightarrow> nat \<Rightarrow> string \<Rightarrow> bool" where
  "expiry_parts dd m yy \<longleftrightarrow> (length dd = 1 \<or> length dd = 2) \<and> length yy = 2 \<and>
     (\<forall>c \<in> set dd. is_digit c) \<and> (\<forall>c \<in> set yy. is_digit c) \<and> ymd_ok (expiry_date dd m yy)"

lemma digit_val_le: "is_digit c \<Longrightarrow> digit_val c \<le> 9"
  by (auto simp: is_digit_def digit_val_def)

lemma digits_val_bound:
  "\<forall>c \<in> set ds. is_digit c \<Longrightarrow> length ds \<le> 2 \<Longrightarrow> digits_val ds \<le> 99"
  by (cases ds; cases "tl ds")
    (auto simp: digits_val_def dest!: digit_val_le)

lemma parse_expiry_text:
  assumes "length dd = 1 \<or> length dd = 2" and "length mon = 3" and "length yy = 2"
  shows "parse_expiry (dd @ mon @ yy) =
    (case (parse_number (from_chars_unsigned unsigned_max) dd, month_from_name mon,
           parse_number (from_chars_unsigned unsigned_max) yy) of
       (Some d, Some m, Some y) \<Rightarrow>
         let date = \<lparr>ymd_year = int (2000 + y), ymd_month = m, ymd_day = d\<rparr>
         in if \<not> ymd_ok date then None else Some (nanos_at_hour date kDeribitExpiryHourUtc)
     | _ \<Rightarrow> None)"
proof -
  have len: "length (dd @ mon @ yy) - 5 = length dd" using assms by auto
  have "\<not> (length (dd @ mon @ yy) < 6 \<or> 7 < length (dd @ mon @ yy))" using assms by auto
  moreover have "substr (dd @ mon @ yy) 0 (length dd) = dd"
    "substr (dd @ mon @ yy) (length dd) 3 = mon" "drop (length dd + 3) (dd @ mon @ yy) = yy"
    using assms(2) by (simp_all add: substr_def)
  ultimately show ?thesis
    unfolding parse_expiry_def len by (simp only: Let_def if_False)
qed

lemma parse_expiry_iff:
  "parse_expiry str = Some n \<longleftrightarrow>
     (\<exists>dd m yy. expiry_parts dd m yy \<and> str = dd @ kMonths ! (m - 1) @ yy \<and>
        n = nanos_at_hour (expiry_date dd m yy) kDeribitExpiryHourUtc)"
    (is "_ \<longleftrightarrow> ?rhs")
proof
  assume p: "parse_expiry str = Some n"
  then have len: "6 \<le> length str" "length str \<le> 7"
    by (auto simp: parse_expiry_def split: if_splits)
  define dd mon yy where "dd = take (length str - 5) str"
    and "mon = take 3 (drop (length str - 5) str)" and "yy = drop (length str - 5 + 3) str"
  have s: "str = dd @ mon @ yy"
    by (simp add: dd_def mon_def yy_def) (metis add.commute append_take_drop_id drop_drop)
  have l: "length dd = 1 \<or> length dd = 2" "length mon = 3" "length yy = 2"
    using len by (auto simp: dd_def mon_def yy_def)
  from p [unfolded s parse_expiry_text [OF l]] obtain d m y where
    d: "parse_number (from_chars_unsigned unsigned_max) dd = Some d" and
    m: "month_from_name mon = Some m" and
    y: "parse_number (from_chars_unsigned unsigned_max) yy = Some y" and
    ok: "ymd_ok \<lparr>ymd_year = int (2000 + y), ymd_month = m, ymd_day = d\<rparr>" and
    n: "n = nanos_at_hour \<lparr>ymd_year = int (2000 + y), ymd_month = m, ymd_day = d\<rparr> kDeribitExpiryHourUtc"
    by (auto simp: Let_def split: option.splits if_splits)
  have "expiry_parts dd m yy" "n = nanos_at_hour (expiry_date dd m yy) kDeribitExpiryHourUtc"
    using d y ok n l by (auto simp: expiry_parts_def expiry_date_def parse_unsigned_iff)
  with m s show ?rhs by (auto simp: month_from_name_iff)
next
  assume ?rhs
  then obtain dd m yy where p: "expiry_parts dd m yy" and s: "str = dd @ kMonths ! (m - 1) @ yy"
    and n: "n = nanos_at_hour (expiry_date dd m yy) kDeribitExpiryHourUtc" by blast
  have m: "1 \<le> m" "m \<le> 12"
    using p by (auto simp: expiry_parts_def expiry_date_def ymd_ok_def)
  then have mn: "month_from_name (kMonths ! (m - 1)) = Some m" and l: "length (kMonths ! (m - 1)) = 3"
    by (simp_all add: month_from_name_iff kMonths_length3)
  have dy: "parse_number (from_chars_unsigned unsigned_max) dd = Some (digits_val dd)"
    "parse_number (from_chars_unsigned unsigned_max) yy = Some (digits_val yy)"
    using p digits_val_bound [of dd] digits_val_bound [of yy]
    by (auto simp: expiry_parts_def parse_unsigned_iff unsigned_max_def)
  have "parse_expiry str = Some (nanos_at_hour (expiry_date dd m yy) kDeribitExpiryHourUtc)"
    unfolding s using p l mn dy by (subst parse_expiry_text) (auto simp: expiry_parts_def expiry_date_def)
  with n show "parse_expiry str = Some n" by simp
qed

lemma expiry_year: "expiry_parts dd m yy \<Longrightarrow>
    2000 \<le> ymd_year (expiry_date dd m yy) \<and> ymd_year (expiry_date dd m yy) \<le> 2099"
  using digits_val_bound [of yy] by (simp add: expiry_parts_def expiry_date_def)

text \<open>
  Every expiry fits the \<open>std::int64_t\<close> count of nanoseconds, so the conversion to \<open>Nanos\<close> does not
  overflow; it is a time between 2000 and 2100, at 08:00 of its day.
\<close>

lemma parse_expiry_bounds:
  assumes "parse_expiry str = Some n"
  shows "946684800 * 1000000000 \<le> n" and "n < 4102444800 * 1000000000" and "is_int64 n"
    and "n mod (86400 * 1000000000) = 8 * 3600 * 1000000000"
proof -
  obtain dd m yy where p: "expiry_parts dd m yy"
    and n: "n = nanos_at_hour (expiry_date dd m yy) kDeribitExpiryHourUtc"
    using assms parse_expiry_iff by blast
  let ?d = "expiry_date dd m yy"
  have ok: "ymd_ok ?d" using p by (simp add: expiry_parts_def)
  have y: "2000 \<le> ymd_year ?d" "ymd_year ?d + 1 \<le> 2100"
    using expiry_year [OF p] by linarith+
  note days_before_year_mono [OF y(1)] days_before_year_mono [OF y(2)]
  moreover have "days_before_year 2000 = 10957" "days_before_year 2100 = 47482"
    by (simp_all add: days_before_year_def)
  ultimately have "10957 \<le> sys_days ?d" "sys_days ?d < 47482"
    using sys_days_in_year [OF ok] by linarith+
  then show "946684800 * 1000000000 \<le> n" "n < 4102444800 * 1000000000" "is_int64 n"
    by (simp_all add: n nanos_at_hour_def kDeribitExpiryHourUtc_def int64_defs)
  have "n = 8 * 3600 * 1000000000 + sys_days ?d * (86400 * 1000000000)"
    by (simp add: n nanos_at_hour_def kDeribitExpiryHourUtc_def algebra_simps)
  then show "n mod (86400 * 1000000000) = 8 * 3600 * 1000000000"
    by simp
qed

section \<open>The grammar of a symbol\<close>

text \<open>
  \<open>symbol_form str key\<close>: the symbols the gateway understands and the identity each denotes, one
  rule per form listed in the comment on \<open>parse_symbol\<close>.
\<close>

abbreviation dash :: char where "dash \<equiv> CHR ''-''"
abbreviation underscore :: char where "underscore \<equiv> CHR ''_''"

definition plain :: "string \<Rightarrow> bool" where
  "plain s \<longleftrightarrow> dash \<notin> set s \<and> underscore \<notin> set s"

definition right_text :: "option_right \<Rightarrow> string" where
  "right_text r = (case r of Call \<Rightarrow> ''C'' | Put \<Rightarrow> ''P'')"

inductive symbol_form :: "string \<Rightarrow> instrument_key \<Rightarrow> bool" where
  index: "a \<noteq> [] \<Longrightarrow> b \<noteq> [] \<Longrightarrow> underscore \<notin> set a \<Longrightarrow> str = a @ underscore # b \<Longrightarrow>
    symbol_form str (default_key\<lparr>symbol := str, base_ccy := to_upper a, kind := Index\<rparr>)"
| perpetual: "a \<noteq> [] \<Longrightarrow> plain a \<Longrightarrow> str = a @ dash # ''PERPETUAL'' \<Longrightarrow>
    symbol_form str (default_key\<lparr>symbol := str, base_ccy := a, kind := Perpetual\<rparr>)"
| future: "a \<noteq> [] \<Longrightarrow> plain a \<Longrightarrow> parse_expiry t = Some e \<Longrightarrow> str = a @ dash # t \<Longrightarrow>
    symbol_form str (default_key\<lparr>symbol := str, base_ccy := a, kind := Future, expiry := e\<rparr>)"
| option: "a \<noteq> [] \<Longrightarrow> plain a \<Longrightarrow> parse_expiry t = Some e \<Longrightarrow> plain k \<Longrightarrow>
    parse_number from_chars_double k = Some v \<Longrightarrow> gt_zero v \<Longrightarrow>
    str = a @ dash # t @ dash # k @ dash # right_text r \<Longrightarrow>
    symbol_form str (default_key\<lparr>symbol := str, base_ccy := a, kind := Option, expiry := e,
      strike := v, key_right := r\<rparr>)"

inductive_cases symbol_formE: "symbol_form str key"

lemma split_parts:
  "\<lbrakk>dash \<notin> set a; dash \<notin> set b\<rbrakk> \<Longrightarrow> split (a @ dash # b) dash = [a, b]"
  "\<lbrakk>dash \<notin> set a; dash \<notin> set b; dash \<notin> set c; dash \<notin> set d\<rbrakk> \<Longrightarrow>
     split (a @ dash # b @ dash # c @ dash # d) dash = [a, b, c, d]"
  by (simp_all add: split_eq_ref split_ref_append split_ref_no_sep)

lemma month_letters: "1 \<le> m \<Longrightarrow> m \<le> 12 \<Longrightarrow> plain (kMonths ! (m - 1))"
proof -
  assume "1 \<le> m" "m \<le> 12"
  then have "kMonths ! (m - 1) \<in> set kMonths" by simp
  then show ?thesis by (auto simp: kMonths_def plain_def)
qed

lemma digits_plain: "\<forall>c \<in> set ds. is_digit c \<Longrightarrow> plain ds"
  by (auto simp: plain_def)

lemma expiry_plain:
  assumes "parse_expiry t = Some e"
  shows "plain t" and "t \<noteq> ''PERPETUAL''"
proof -
  obtain dd m yy where p: "expiry_parts dd m yy" and t: "t = dd @ kMonths ! (m - 1) @ yy"
    using assms parse_expiry_iff by blast
  then have "1 \<le> m" "m \<le> 12"
    by (auto simp: expiry_parts_def expiry_date_def ymd_ok_def)
  then show "plain t"
    using p month_letters [of m] digits_plain [of dd] digits_plain [of yy]
    by (auto simp: t plain_def expiry_parts_def)
  show "t \<noteq> ''PERPETUAL''"
    using assms by (auto simp: parse_expiry_def)
qed

lemma parse_symbol_underscore:
  assumes "underscore \<notin> set a"
  shows "parse_symbol (a @ underscore # b) =
    (if a = [] \<or> b = [] then None
     else Some (default_key\<lparr>symbol := a @ underscore # b, base_ccy := to_upper a, kind := Index\<rparr>))"
  using assms by (simp add: parse_symbol_def find_char_append substr_def)

lemma parse_symbol_two:
  assumes "plain a" and "plain t"
  shows "parse_symbol (a @ dash # t) =
    (if a = [] then None
     else if t = ''PERPETUAL'' then
       Some (default_key\<lparr>symbol := a @ dash # t, base_ccy := a, kind := Perpetual\<rparr>)
     else (case parse_expiry t of None \<Rightarrow> None
       | Some e \<Rightarrow> Some (default_key\<lparr>symbol := a @ dash # t, base_ccy := a, kind := Future, expiry := e\<rparr>)))"
proof -
  have "find_char (a @ dash # t) underscore 0 = None"
    using assms by (simp add: find_char_eq_None_iff plain_def)
  moreover have "split (a @ dash # t) dash = [a, t]"
    using assms by (intro split_parts) (simp_all add: plain_def)
  ultimately show ?thesis by (simp add: parse_symbol_def)
qed

lemma parse_symbol_four:
  assumes "plain a" and "plain t" and "plain k" and "plain r"
  shows "parse_symbol (a @ dash # t @ dash # k @ dash # r) =
    (if a = [] then None
     else (case (parse_expiry t, parse_number from_chars_double k) of
       (Some e, Some v) \<Rightarrow>
         if \<not> gt_zero v then None
         else (let key = default_key\<lparr>symbol := a @ dash # t @ dash # k @ dash # r, base_ccy := a,
                           kind := Option, expiry := e, strike := v\<rparr> in
           if r = ''C'' then Some (key\<lparr>key_right := Call\<rparr>)
           else if r = ''P'' then Some (key\<lparr>key_right := Put\<rparr>) else None)
     | _ \<Rightarrow> None))"
proof -
  have "find_char (a @ dash # t @ dash # k @ dash # r) underscore 0 = None"
    using assms by (simp add: find_char_eq_None_iff plain_def)
  moreover have "split (a @ dash # t @ dash # k @ dash # r) dash = [a, t, k, r]"
    using assms by (intro split_parts) (simp_all add: plain_def)
  ultimately show ?thesis
    by (simp add: parse_symbol_def Let_def split: option.split)
qed

lemma symbol_parts_cases:
  assumes "underscore \<notin> set str"
  obtains a t where "str = a @ dash # t" "plain a" "plain t"
  | a t k r where "str = a @ dash # t @ dash # k @ dash # r" "plain a" "plain t" "plain k" "plain r"
  | "parse_symbol str = None"
proof (cases "length (split str dash) = 2 \<or> length (split str dash) = 4")
  case True
  define ps where "ps = split_ref dash str"
  have pl: "\<forall>p \<in> set ps. plain p"
  proof
    fix p assume p: "p \<in> set ps"
    then have "dash \<notin> set p" unfolding ps_def by (rule split_ref_parts)
    moreover have "set p \<subseteq> set str"
    proof -
      have "set (join dash ps) = set str" by (simp add: ps_def join_split_ref)
      moreover have "p \<in> set ps \<Longrightarrow> set p \<subseteq> set (join dash ps)"
        by (induction dash ps rule: join.induct) auto
      ultimately show ?thesis using p by simp
    qed
    ultimately show "plain p" using assms by (auto simp: plain_def)
  qed
  have j: "str = join dash ps" by (simp add: ps_def join_split_ref)
  from True consider a t where "ps = [a, t]" | a t k r where "ps = [a, t, k, r]"
    by (auto simp: split_eq_ref ps_def numeral_eq_Suc length_Suc_conv)
  then show thesis
  proof cases
    case 1
    then show thesis using that(1) [of a t] j pl by simp
  next
    case 2
    then show thesis using that(2) [of a t k r] j pl by simp
  qed
next
  case False
  moreover have "find_char str underscore 0 = None"
    using assms by (simp add: find_char_eq_None_iff)
  ultimately have "parse_symbol str = None" by (auto simp: parse_symbol_def)
  then show thesis by (rule that(3))
qed

lemma right_text_plain [simp]: "plain (right_text r)"
  by (cases r) (auto simp: right_text_def plain_def)

lemma parse_symbol_sound:
  assumes p: "parse_symbol str = Some key"
  shows "symbol_form str key"
proof (cases "underscore \<in> set str")
  case True
  then obtain a b where s: "str = a @ underscore # b" and a: "underscore \<notin> set a"
    by (auto dest: split_list_first)
  with p show ?thesis
    by (auto simp: parse_symbol_underscore split: if_splits intro: symbol_form.index)
next
  case False
  then show ?thesis
  proof (cases rule: symbol_parts_cases)
    case (1 a t)
    with p show ?thesis
      by (auto simp: parse_symbol_two split: if_splits option.splits
          intro: symbol_form.perpetual symbol_form.future)
  next
    case (2 a t k r)
    from p [unfolded 2(1) parse_symbol_four [OF 2(2-5)]] obtain e v where
      ev: "a \<noteq> []" "parse_expiry t = Some e" "parse_number from_chars_double k = Some v" "gt_zero v"
      and r: "r = right_text Call \<and> key = default_key\<lparr>symbol := str, base_ccy := a, kind := Option,
           expiry := e, strike := v, key_right := Call\<rparr>
         \<or> r = right_text Put \<and> key = default_key\<lparr>symbol := str, base_ccy := a, kind := Option,
           expiry := e, strike := v, key_right := Put\<rparr>"
      unfolding 2(1)
      by (auto simp: Let_def right_text_def split: if_splits option.splits)
    have "symbol_form str (default_key\<lparr>symbol := str, base_ccy := a, kind := Option,
        expiry := e, strike := v, key_right := q\<rparr>)" if "r = right_text q" for q
      using symbol_form.option [OF ev(1) 2(2) ev(2) 2(4) ev(3,4)] that 2(1) by simp
    with r show ?thesis by blast
  next
    case 3
    with p show ?thesis by simp
  qed
qed

lemma parse_symbol_complete:
  assumes "symbol_form str key"
  shows "parse_symbol str = Some key"
  using assms
proof (cases rule: symbol_form.cases)
  case (index a b)
  then show ?thesis by (simp add: parse_symbol_underscore)
next
  case (perpetual a)
  then show ?thesis by (simp add: parse_symbol_two plain_def)
next
  case (future a t e)
  then show ?thesis using expiry_plain [of t e] by (simp add: parse_symbol_two)
next
  case (option a t e k v r)
  then show ?thesis using expiry_plain [of t e]
    by (cases r) (simp_all add: parse_symbol_four Let_def right_text_def plain_def)
qed

lemma parse_symbol_iff: "parse_symbol str = Some key \<longleftrightarrow> symbol_form str key"
  using parse_symbol_sound parse_symbol_complete by blast


section \<open>The shape of a parsed identity\<close>

lemma from_chars_double_ok:
  assumes "from_chars_double str = (rest, Inr v)"
  shows "double_ok v"
proof -
  have dec: "double_ok (decimal_value s n x)" for s n x
    by (simp add: decimal_value_def round_ratio_ok)
  have "double_ok w" if "from_chars_decimal whole s t = (r, Inr w)" for whole s t r w
    using that dec
    by (auto simp: from_chars_decimal_def Let_def split: prod.splits if_splits)
  with assms show ?thesis
    by (auto simp: from_chars_double_def Let_def split: prod.splits option.splits)
qed

lemma parse_double_ok: "parse_number from_chars_double str = Some v \<Longrightarrow> double_ok v"
  by (auto simp: parse_number_def split: prod.splits sum.splits if_splits
      intro: from_chars_double_ok)

definition key_ok :: "instrument_key \<Rightarrow> bool" where
  "key_ok key \<longleftrightarrow> symbol key \<noteq> [] \<and> base_ccy key \<noteq> [] \<and> kind key \<noteq> Unknown \<and>
     is_int64 (expiry key) \<and> double_ok (strike key) \<and>
     (kind key = Option \<longrightarrow> gt_zero (strike key)) \<and>
     (kind key \<noteq> Option \<longrightarrow> strike key = kNoValue \<and> key_right key = Call) \<and>
     (kind key \<in> {Index, Perpetual} \<longrightarrow> expiry key = 0)"

lemma symbol_form_ok: "symbol_form str key \<Longrightarrow> key_ok key \<and> symbol key = str \<and> key_id key = 0"
proof (induction rule: symbol_form.induct)
  case (option a t e k v str r)
  then show ?case using parse_double_ok [of k v] parse_expiry_bounds(3) [of t e]
    by (auto simp: key_ok_def default_key_def)
next
  case (future a t e str)
  then show ?case using parse_expiry_bounds(3) [of t e]
    by (auto simp: key_ok_def default_key_def kNoValue_def)
qed (auto simp: key_ok_def default_key_def kNoValue_def int64_defs to_upper_def)

lemma parse_symbol_ok:
  assumes "parse_symbol str = Some key"
  shows "key_ok key" and "symbol key = str" and "key_id key = 0"
  using symbol_form_ok [of str key] assms by (simp_all add: parse_symbol_iff)

text \<open>Which symbols get which kind: an underscore decides for the index.\<close>

lemma symbol_kind:
  assumes "symbol_form str key"
  shows "kind key = Index \<longleftrightarrow> underscore \<in> set str"
    and "kind key \<noteq> Index \<Longrightarrow> count_list str dash = (if kind key = Option then 3 else 1)"
proof -
  have c: "plain s \<Longrightarrow> count_list s dash = 0" for s by (simp add: plain_def)
  have p: "plain ''PERPETUAL''" by (simp add: plain_def)
  have "kind key = Index \<and> underscore \<in> set str \<or>
    kind key \<noteq> Index \<and> underscore \<notin> set str \<and>
    count_list str dash = (if kind key = Option then 3 else 1)"
    using assms
  proof (induction rule: symbol_form.induct)
    case (option a t e k v str r)
    then show ?case using expiry_plain [of t e] right_text_plain [of r] c by (auto simp: plain_def)
  next
    case (future a t e str)
    then show ?case using expiry_plain [of t e] c by (auto simp: plain_def)
  next
    case (perpetual a str)
    then show ?case using c p by (auto simp: plain_def)
  qed simp
  then show "kind key = Index \<longleftrightarrow> underscore \<in> set str"
    and "kind key \<noteq> Index \<Longrightarrow> count_list str dash = (if kind key = Option then 3 else 1)"
    by auto
qed

section \<open>Printed names\<close>

text \<open>The names the venue lists: the day without a leading zero, two year digits, a whole strike.\<close>

definition print_expiry :: "nat \<Rightarrow> nat \<Rightarrow> nat \<Rightarrow> string" where
  "print_expiry d m yy =
     show_nat d @ kMonths ! (m - 1) @ [char_of (48 + yy div 10), char_of (48 + yy mod 10)]"

definition print_future :: "string \<Rightarrow> nat \<Rightarrow> nat \<Rightarrow> nat \<Rightarrow> string" where
  "print_future base d m yy = base @ dash # print_expiry d m yy"

definition print_option :: "string \<Rightarrow> nat \<Rightarrow> nat \<Rightarrow> nat \<Rightarrow> nat \<Rightarrow> option_right \<Rightarrow> string" where
  "print_option base d m yy k r =
     base @ dash # print_expiry d m yy @ dash # show_nat k @ dash # right_text r"

lemma show_nat_small:
  assumes "n < 100"
  shows "length (show_nat n) = 1 \<or> length (show_nat n) = 2"
proof -
  have "n div 10 < 10" using assms by simp
  then show ?thesis by (simp add: show_nat.simps [of n] show_nat.simps [of "n div 10"])
qed

lemma parse_print_expiry:
  assumes "yy < 100" and "ymd_ok \<lparr>ymd_year = int (2000 + yy), ymd_month = m, ymd_day = d\<rparr>"
  shows "parse_expiry (print_expiry d m yy)
    = Some (nanos_at_hour \<lparr>ymd_year = int (2000 + yy), ymd_month = m, ymd_day = d\<rparr> kDeribitExpiryHourUtc)"
proof -
  let ?y = "[char_of (48 + yy div 10), char_of (48 + yy mod 10)] :: string"
  have d: "d < 100" using assms(2) by (auto simp: ymd_ok_def last_day_def split: if_splits)
  have y: "digits_val ?y = yy"
    using assms(1) digit_char(2) [of "yy div 10"] digit_char(2) [of "yy mod 10"]
    by (simp add: digits_val_def)
  have yd: "is_digit (char_of (48 + yy div 10))" "is_digit (char_of (48 + yy mod 10))"
    using assms(1) by (simp_all add: digit_char)
  have "expiry_parts (show_nat d) m ?y"
    using show_nat_small [OF d] yd assms y
    by (auto simp: expiry_parts_def expiry_date_def dest: show_nat_digits)
  then show ?thesis
    unfolding parse_expiry_iff using y
    by (intro exI [of _ "show_nat d"] exI [of _ m] exI [of _ ?y])
      (simp add: print_expiry_def expiry_date_def)
qed

lemma parse_print_strike:
  assumes "0 < k" and "k \<le> 2 ^ 53"
  shows "parse_number from_chars_double (show_nat k) = Some (double_of_int (int k))"
    and "gt_zero (double_of_int (int k))" and "real_of_double (double_of_int (int k)) = real k"
proof -
  show "parse_number from_chars_double (show_nat k) = Some (double_of_int (int k))"
    using parse_double_integer [of "show_nat k"] assms(2) by (auto dest: show_nat_digits)
  have small: "\<bar>int k\<bar> \<le> 2 ^ 53" using assms(2) by simp
  obtain m e where me: "double_of_int (int k) = Finite (int k < 0) m e"
    "magnitude m e = real_of_int \<bar>int k\<bar>"
    using double_of_int_small [OF small] by blast
  then show "real_of_double (double_of_int (int k)) = real k" by simp
  moreover have "double_of_int (int k) = Finite False m e" using me(1) by simp
  ultimately show "gt_zero (double_of_int (int k))"
    using assms(1) by (simp only: gt_zero_finite of_nat_0_less_iff)
qed

lemma parse_print_future:
  assumes "a \<noteq> []" and "plain a" and "yy < 100"
    and "ymd_ok \<lparr>ymd_year = int (2000 + yy), ymd_month = m, ymd_day = d\<rparr>"
  shows "parse_symbol (print_future a d m yy) = Some (default_key\<lparr>symbol := print_future a d m yy,
    base_ccy := a, kind := Future,
    expiry := nanos_at_hour \<lparr>ymd_year = int (2000 + yy), ymd_month = m, ymd_day = d\<rparr> kDeribitExpiryHourUtc\<rparr>)"
  using assms by (intro parse_symbol_complete symbol_form.future)
    (simp_all add: parse_print_expiry print_future_def)

lemma parse_print_option:
  assumes "a \<noteq> []" and "plain a" and "yy < 100"
    and "ymd_ok \<lparr>ymd_year = int (2000 + yy), ymd_month = m, ymd_day = d\<rparr>"
    and "0 < k" and "k \<le> 2 ^ 53"
  shows "parse_symbol (print_option a d m yy k r) = Some (default_key\<lparr>symbol := print_option a d m yy k r,
    base_ccy := a, kind := Option,
    expiry := nanos_at_hour \<lparr>ymd_year = int (2000 + yy), ymd_month = m, ymd_day = d\<rparr> kDeribitExpiryHourUtc,
    strike := double_of_int (int k), key_right := r\<rparr>)"
proof -
  have "plain (show_nat k)" by (rule digits_plain) (auto dest: show_nat_digits)
  with assms show ?thesis
    by (intro parse_symbol_complete symbol_form.option)
      (simp_all add: parse_print_expiry parse_print_strike print_option_def)
qed

text \<open>Distinct dates give distinct expiries.\<close>

lemma parse_expiry_inj:
  assumes "parse_expiry (dd @ kMonths ! (m - 1) @ yy) = Some n" and "expiry_parts dd m yy"
    and "parse_expiry (dd' @ kMonths ! (m' - 1) @ yy') = Some n" and "expiry_parts dd' m' yy'"
  shows "expiry_date dd m yy = expiry_date dd' m' yy'"
proof -
  have "parse_expiry (dd @ kMonths ! (m - 1) @ yy) = Some (nanos_at_hour (expiry_date dd m yy) kDeribitExpiryHourUtc)"
    "parse_expiry (dd' @ kMonths ! (m' - 1) @ yy') = Some (nanos_at_hour (expiry_date dd' m' yy') kDeribitExpiryHourUtc)"
    using assms(2,4) by (auto simp: parse_expiry_iff)
  with assms(1,3) have "nanos_at_hour (expiry_date dd m yy) kDeribitExpiryHourUtc
    = nanos_at_hour (expiry_date dd' m' yy') kDeribitExpiryHourUtc" by simp
  with assms(2,4) show ?thesis
    by (intro nanos_at_hour_inj) (auto simp: expiry_parts_def)
qed

text \<open>The expiry of a dated instrument is that of its second part, the strike of an option the number
  that its third part spells.\<close>

lemma right_text_parts: "dash \<notin> set (right_text r)"
  by (cases r) (simp_all add: right_text_def)

lemma dated_parts:
  assumes "parse_symbol str = Some key" and "kind key \<in> {Future, Option}"
  shows "parse_expiry (split str dash ! 1) = Some (expiry key)" and "base_ccy key = split str dash ! 0"
proof -
  have "parse_expiry (split str dash ! 1) = Some (expiry key) \<and> base_ccy key = split str dash ! 0"
    using assms(1) [unfolded parse_symbol_iff]
  proof cases
    case (future a t e)
    then show ?thesis using expiry_plain(1) [of t e] by (simp add: plain_def split_parts)
  next
    case (option a t e k v r)
    then show ?thesis using expiry_plain(1) [of t e] right_text_parts by (simp add: plain_def split_parts)
  qed (use assms(2) in auto)
  then show "parse_expiry (split str dash ! 1) = Some (expiry key)" and "base_ccy key = split str dash ! 0"
    by simp_all
qed

lemma option_strike_part:
  assumes "parse_symbol str = Some key" and "kind key = Option"
  shows "parse_number from_chars_double (split str dash ! 2) = Some (strike key)"
    and "dash \<notin> set (split str dash ! 2)" and "gt_zero (strike key)"
proof -
  have "parse_number from_chars_double (split str dash ! 2) = Some (strike key) \<and>
      dash \<notin> set (split str dash ! 2) \<and> gt_zero (strike key)"
    using assms(1) [unfolded parse_symbol_iff]
  proof cases
    case (option a t e k v r)
    then show ?thesis using expiry_plain(1) [of t e] right_text_parts by (simp add: plain_def split_parts)
  qed (use assms(2) in \<open>auto simp: default_key_def\<close>)
  then show "parse_number from_chars_double (split str dash ! 2) = Some (strike key)"
    and "dash \<notin> set (split str dash ! 2)" and "gt_zero (strike key)" by simp_all
qed

end
