(* ===== verification/Repository.thy ===== *)
theory Repository
  imports Model
begin

text \<open>
  \<open>marketdata/InstrumentRepository.{hpp,cpp}\<close>: the database row, the pure mapping of a row to
  an identity (\<open>to_instrument_key\<close>) and the startup load.  libpqxx is not part of the repository:
  \<open>load\<close> takes as arguments what it calls there (opening a connection, running the query,
  committing, and the conversions of a field), each of which may throw.
\<close>

section \<open>Rows and their mapping\<close>

record instrument_row =
  instrument_id_of :: instrument_id
  row_symbol :: string
  instrument_type :: string
  option_type :: "string option"
  row_strike :: "double option"
  expiration :: "nanos option"

definition to_instrument_key :: "instrument_row \<Rightarrow> instrument_key option" where
  "to_instrument_key row =
     (if row_symbol row = [] then None
      else case parse_symbol (row_symbol row) of None \<Rightarrow> None | Some parsed \<Rightarrow>
        let key = parsed\<lparr>key_id := instrument_id_of row\<rparr> in
        if instrument_type row = ''option'' then
          (if kind key \<noteq> Option then None
           else
             let key = (case row_strike row of Some s \<Rightarrow> key\<lparr>strike := s\<rparr> | None \<Rightarrow> key) in
             case (case option_type row of
                     Some t \<Rightarrow> if t = ''call'' then Some (key\<lparr>key_right := Call\<rparr>)
                               else if t = ''put'' then Some (key\<lparr>key_right := Put\<rparr>) else None
                   | None \<Rightarrow> Some key)
             of None \<Rightarrow> None
              | Some key \<Rightarrow> Some (case expiration row of
                    Some e \<Rightarrow> key\<lparr>expiry := e\<rparr> | None \<Rightarrow> key))
        else if instrument_type row = ''future'' then
          (if kind key \<noteq> Future then None
           else
             let key = (case expiration row of Some e \<Rightarrow> key\<lparr>expiry := e\<rparr> | None \<Rightarrow> key)
             in Some (key\<lparr>strike := kNoValue\<rparr>))
        else if instrument_type row = ''currency'' then
          (if kind key \<noteq> Index then None else Some (key\<lparr>strike := kNoValue\<rparr>))
        else None)"

section \<open>The startup load\<close>

text \<open>
  \<open>duration_cast<nanoseconds>(duration<double>{epoch_seconds})\<close>: the product with 1e9 is a
  double, then truncated to \<open>std::int64_t\<close>.
\<close>

definition nanos_of_epoch_seconds :: "double \<Rightarrow> nanos cxx" where
  "nanos_of_epoch_seconds s = int64_of_double (double_mul s (double_of_int 1000000000))"

text \<open>
  What the code uses of one field of a \<open>pqxx::row\<close>: \<open>is_null\<close> and the three conversions \<open>as<T>\<close>,
  which throw (\<open>Inl\<close>) on a text that is not a value of the type.
\<close>

record 'err pq_field =
  is_null :: bool
  as_int64 :: "'err + instrument_id"
  as_string :: "'err + string"
  as_double :: "'err + double"

type_synonym 'err pq_row = "'err pq_field list"

definition kInstrumentQuery :: string where
  "kInstrumentQuery = concat (map (\<lambda>line. CHR 0x0A # line) [
     ''SELECT i.instrument_id,'',
     ''       i.symbol,'',
     ''       i.instrument_type,'',
     ''       o.option_type,'',
     ''       o.strike,'',
     ''       EXTRACT(EPOCH FROM COALESCE(o.expiration_timestamp,'',
     ''                                   f.expiration_timestamp)) AS expiration_epoch'',
     ''FROM   security_master.instrument i'',
     ''JOIN   security_master.venue v USING (venue_id)'',
     ''LEFT   JOIN security_master.option o USING (instrument_id)'',
     ''LEFT   JOIN security_master.future f USING (instrument_id)'',
     ''WHERE  v.code = $1'',
     ''  AND  i.instrument_type IN ('option', 'future', 'currency')'',
     ''ORDER BY i.instrument_id'',
     []])"

text \<open>
  One record of the result.  An exception of a conversion leaves \<open>load\<close>; the conversion of the
  expiry to nanoseconds may be undefined.
\<close>

definition load_record :: "'err pq_row \<Rightarrow> ('err + instrument_row) cxx" where
  "load_record rec =
     (case (as_int64 (rec ! 0), as_string (rec ! 1), as_string (rec ! 2)) of
        (Inl e, _, _) \<Rightarrow> Defined (Inl e)
      | (Inr _, Inl e, _) \<Rightarrow> Defined (Inl e)
      | (Inr _, Inr _, Inl e) \<Rightarrow> Defined (Inl e)
      | (Inr i, Inr s, Inr t) \<Rightarrow>
          (case (if is_null (rec ! 3) then Inr None else map_sum id Some (as_string (rec ! 3))) of
             Inl e \<Rightarrow> Defined (Inl e)
           | Inr ot \<Rightarrow>
               (case (if is_null (rec ! 4) then Inr None else map_sum id Some (as_double (rec ! 4))) of
                  Inl e \<Rightarrow> Defined (Inl e)
                | Inr st \<Rightarrow>
                    let row = \<lparr>instrument_id_of = i, row_symbol = s, instrument_type = t,
                               option_type = ot, row_strike = st, expiration = None\<rparr> in
                    if is_null (rec ! 5) then Defined (Inr row)
                    else (case as_double (rec ! 5) of
                            Inl e \<Rightarrow> Defined (Inl e)
                          | Inr secs \<Rightarrow> bind_cxx (nanos_of_epoch_seconds secs)
                              (\<lambda>n. Defined (Inr (row\<lparr>expiration := Some n\<rparr>)))))))"

fun load_records :: "'err pq_row list \<Rightarrow> ('err + instrument_row list) cxx" where
  "load_records [] = Defined (Inr [])"
| "load_records (r # rs) =
     bind_cxx (load_record r) (\<lambda>x. case x of
       Inl e \<Rightarrow> Defined (Inl e)
     | Inr row \<Rightarrow> bind_cxx (load_records rs) (\<lambda>ys. Defined (map_sum id (Cons row) ys)))"

text \<open>
  \<open>load\<close>: connect, one query with one argument, commit, then read every record.  \<open>connect\<close>,
  \<open>exec_params\<close> and \<open>commit\<close> are libpqxx's.
\<close>

definition load :: "(string \<Rightarrow> 'err + 'conn) \<Rightarrow> ('conn \<Rightarrow> string \<Rightarrow> string \<Rightarrow> 'err + 'err pq_row list) \<Rightarrow>
    ('conn \<Rightarrow> 'err + unit) \<Rightarrow> string \<Rightarrow> string \<Rightarrow> ('err + instrument_row list) cxx" where
  "load connect exec_params commit conninfo venue_code =
     (case connect conninfo of Inl e \<Rightarrow> Defined (Inl e)
      | Inr c \<Rightarrow> (case exec_params c kInstrumentQuery venue_code of Inl e \<Rightarrow> Defined (Inl e)
      | Inr result \<Rightarrow> (case commit c of Inl e \<Rightarrow> Defined (Inl e)
      | Inr _ \<Rightarrow> load_records result)))"

section \<open>What the mapping accepts\<close>

text \<open>The instrument type a kind corresponds to in the database.\<close>

fun db_type :: "instrument_kind \<Rightarrow> string option" where
  "db_type Option = Some ''option''"
| "db_type Future = Some ''future''"
| "db_type Index = Some ''currency''"
| "db_type _ = None"

definition db_right :: "instrument_row \<Rightarrow> option_right \<Rightarrow> option_right option" where
  "db_right row parsed =
     (case option_type row of None \<Rightarrow> Some parsed
      | Some t \<Rightarrow> if t = ''call'' then Some Call else if t = ''put'' then Some Put else None)"

definition value_or :: "'a option \<Rightarrow> 'a \<Rightarrow> 'a" where
  "value_or x y = (case x of None \<Rightarrow> y | Some z \<Rightarrow> z)"

text \<open>
  A normal form of the branches of \<open>to_instrument_key\<close>, given the parsed symbol, for the proofs below;
  what the mapping promises is \<open>documented\<close>, in the next section.
\<close>

definition reconcile :: "instrument_row \<Rightarrow> instrument_key \<Rightarrow> instrument_key option" where
  "reconcile row p =
     (if db_type (kind p) \<noteq> Some (instrument_type row) then None
      else if kind p = Option then
        map_option (\<lambda>r. p\<lparr>key_id := instrument_id_of row, strike := value_or (row_strike row) (strike p),
            key_right := r, expiry := value_or (expiration row) (expiry p)\<rparr>)
          (db_right row (key_right p))
      else if kind p = Future then
        Some (p\<lparr>key_id := instrument_id_of row, strike := kNoValue,
            expiry := value_or (expiration row) (expiry p)\<rparr>)
      else Some (p\<lparr>key_id := instrument_id_of row, strike := kNoValue\<rparr>))"

lemma to_instrument_key_eq:
  "to_instrument_key row = Option.bind (parse_symbol (row_symbol row)) (reconcile row)"
proof (cases "parse_symbol (row_symbol row)")
  case None
  then show ?thesis by (simp add: to_instrument_key_def)
next
  case (Some p)
  have ne: "row_symbol row \<noteq> []" using Some by (auto simp: parse_symbol_def)
  have "kind p \<noteq> Unknown" using parse_symbol_ok(1) [OF Some] by (simp add: key_ok_def)
  then show ?thesis using Some ne
    by (cases "kind p"; cases "row_strike row"; cases "expiration row"; cases "option_type row")
      (auto simp: to_instrument_key_def reconcile_def db_right_def value_or_def Let_def)
qed

lemma to_instrument_key_SomeE:
  assumes "to_instrument_key row = Some key"
  obtains p where "parse_symbol (row_symbol row) = Some p" and "reconcile row p = Some key"
  using assms by (auto simp: to_instrument_key_eq bind_eq_Some_conv)

lemma reconcile_fields:
  assumes "reconcile row p = Some key"
  shows "key_id key = instrument_id_of row" and "symbol key = symbol p" and "base_ccy key = base_ccy p"
    and "kind key = kind p" and "db_type (kind key) = Some (instrument_type row)"
    and "kind key \<noteq> Option \<Longrightarrow> strike key = kNoValue"
    and "kind key \<in> {Option, Future} \<Longrightarrow> expiry key = value_or (expiration row) (expiry p)"
    and "kind key = Option \<Longrightarrow> strike key = value_or (row_strike row) (strike p)"
    and "kind key = Option \<Longrightarrow> db_right row (key_right p) = Some (key_right key)"
  using assms by (auto simp: reconcile_def split: if_splits)

lemma to_instrument_key_fields:
  assumes "to_instrument_key row = Some key"
  shows "key_id key = instrument_id_of row" and "symbol key = row_symbol row"
    and "db_type (kind key) = Some (instrument_type row)" and "kind key \<in> {Option, Future, Index}"
    and "symbol key \<noteq> []"
proof -
  obtain p where p: "parse_symbol (row_symbol row) = Some p" and r: "reconcile row p = Some key"
    by (rule to_instrument_key_SomeE [OF assms])
  note f = reconcile_fields [OF r] and s = parse_symbol_ok [OF p]
  show "key_id key = instrument_id_of row" "symbol key = row_symbol row"
    and t: "db_type (kind key) = Some (instrument_type row)"
    using f s by simp_all
  show "kind key \<in> {Option, Future, Index}"
    using t by (cases "kind key") auto
  show "symbol key \<noteq> []" using f(2) s(1) by (simp add: key_ok_def)
qed

text \<open>A row whose own values are sane yields a well-formed identity.\<close>

lemma to_instrument_key_ok:
  assumes "to_instrument_key row = Some key"
    and "\<And>s. row_strike row = Some s \<Longrightarrow> double_ok s \<and> gt_zero s"
    and "\<And>n. expiration row = Some n \<Longrightarrow> is_int64 n"
  shows "key_ok key"
proof -
  obtain p where p: "parse_symbol (row_symbol row) = Some p" and r: "reconcile row p = Some key"
    by (rule to_instrument_key_SomeE [OF assms(1)])
  have "key_ok p" by (rule parse_symbol_ok(1) [OF p])
  with r assms(2,3) show ?thesis
    by (cases "kind p"; cases "row_strike row"; cases "expiration row")
      (auto simp: reconcile_def key_ok_def value_or_def kNoValue_def split: if_splits)
qed

section \<open>The documented mapping\<close>

fun right_name :: "option_right \<Rightarrow> string" where
  "right_name Call = ''call''"
| "right_name Put = ''put''"

text \<open>
  What the comment on \<open>to_instrument_key\<close> promises, form by form: an option row with its strike and
  right, a future row with its expiry, a currency row, each with a symbol of its kind; the database's
  values win (the expiry of an option is the symbol's where the row has none).  No other row has an
  identity: not an unknown type, not an option without strike or right, not a future without expiry.
\<close>

inductive documented :: "instrument_row \<Rightarrow> instrument_key \<Rightarrow> bool" for row :: instrument_row where
  option: "symbol_form (row_symbol row) p \<Longrightarrow> kind p = Option \<Longrightarrow> instrument_type row = ''option'' \<Longrightarrow>
    row_strike row = Some k \<Longrightarrow> option_type row = Some (right_name r) \<Longrightarrow>
    documented row (p\<lparr>key_id := instrument_id_of row, strike := k, key_right := r,
      expiry := value_or (expiration row) (expiry p)\<rparr>)"
| future: "symbol_form (row_symbol row) p \<Longrightarrow> kind p = Future \<Longrightarrow> instrument_type row = ''future'' \<Longrightarrow>
    expiration row = Some e \<Longrightarrow>
    documented row (p\<lparr>key_id := instrument_id_of row, strike := kNoValue, expiry := e\<rparr>)"
| currency: "symbol_form (row_symbol row) p \<Longrightarrow> kind p = Index \<Longrightarrow> instrument_type row = ''currency'' \<Longrightarrow>
    documented row (p\<lparr>key_id := instrument_id_of row, strike := kNoValue\<rparr>)"

inductive_simps documented_iff: "documented row key"

text \<open>The columns that the comment asks for, and a row completed with what its symbol says.\<close>

definition has_columns :: "instrument_row \<Rightarrow> bool" where
  "has_columns row \<longleftrightarrow>
     (instrument_type row = ''option'' \<longrightarrow> row_strike row \<noteq> None \<and> option_type row \<noteq> None) \<and>
     (instrument_type row = ''future'' \<longrightarrow> expiration row \<noteq> None)"

definition fill_columns :: "instrument_key \<Rightarrow> instrument_row \<Rightarrow> instrument_row" where
  "fill_columns p row = row\<lparr>row_strike := Some (value_or (row_strike row) (strike p)),
     option_type := Some (value_or (option_type row) (right_name (key_right p))),
     expiration := Some (value_or (expiration row) (expiry p))\<rparr>"

lemma value_or_simps [simp]: "value_or (Some x) y = x" "value_or None y = y"
  by (simp_all add: value_or_def)

lemma documented_columns: "documented row key \<Longrightarrow> has_columns row"
  by (induction rule: documented.induct) (auto simp: has_columns_def)

lemma right_name_iff: "right_name r = t \<longleftrightarrow> t = ''call'' \<and> r = Call \<or> t = ''put'' \<and> r = Put"
  by (cases r) auto

lemma fill_sel [simp]:
  "row_symbol (fill_columns p row) = row_symbol row" "instrument_type (fill_columns p row) = instrument_type row"
  "instrument_id_of (fill_columns p row) = instrument_id_of row"
  "row_strike (fill_columns p row) = Some (value_or (row_strike row) (strike p))"
  "option_type (fill_columns p row) = Some (value_or (option_type row) (right_name (key_right p)))"
  "expiration (fill_columns p row) = Some (value_or (expiration row) (expiry p))"
  by (simp_all add: fill_columns_def)

lemma db_right_iff: "db_right row p = Some r \<longleftrightarrow> value_or (option_type row) (right_name p) = right_name r"
  by (cases p; cases r) (auto simp: db_right_def value_or_def split: option.splits)

lemma reconcile_documented:
  assumes "symbol_form (row_symbol row) p"
  shows "reconcile row p = Some key \<longleftrightarrow> documented (fill_columns p row) key"
proof
  assume r: "reconcile row p = Some key"
  then have t: "db_type (kind p) = Some (instrument_type row)" by (auto simp: reconcile_def split: if_splits)
  show "documented (fill_columns p row) key"
  proof (cases "kind p")
    case Option
    with r t obtain r where
      "db_right row (key_right p) = Some r" and "key = p\<lparr>key_id := instrument_id_of row,
        strike := value_or (row_strike row) (strike p), key_right := r, expiry := value_or (expiration row) (expiry p)\<rparr>"
      by (auto simp: reconcile_def)
    with Option t assms show ?thesis
      using documented.option [of "fill_columns p row" p "value_or (row_strike row) (strike p)" r]
      by (simp add: db_right_iff)
  next
    case Future
    with r t assms show ?thesis
      using documented.future [of "fill_columns p row" p "value_or (expiration row) (expiry p)"]
      by (simp add: reconcile_def)
  next
    case Index
    with r t assms show ?thesis
      using documented.currency [of "fill_columns p row" p] by (simp add: reconcile_def)
  qed (use t in simp_all)
next
  assume d: "documented (fill_columns p row) key"
  have same: "q = p" if "symbol_form (row_symbol row) q" for q
    using that assms by (simp add: parse_symbol_iff [symmetric])
  from d show "reconcile row p = Some key"
    by cases (auto simp: reconcile_def db_right_iff [symmetric] dest!: same)
qed

lemma documented_fill:
  assumes "has_columns row" and "symbol_form (row_symbol row) p"
  shows "documented (fill_columns p row) key \<longleftrightarrow> documented row key"
proof -
  have same: "q = p" if "symbol_form (row_symbol row) q" for q
    using that assms(2) by (simp add: parse_symbol_iff [symmetric])
  have "documented (fill_columns p row) key" if "documented row key"
    using that
  proof cases
    case (option q k r)
    with same [of q] show ?thesis using documented.option [of "fill_columns p row" q k r] by simp
  next
    case (future q e)
    then show ?thesis using documented.future [of "fill_columns p row" q e] by simp
  next
    case (currency q)
    then show ?thesis using documented.currency [of "fill_columns p row" q] by simp
  qed
  moreover have "documented row key" if "documented (fill_columns p row) key"
    using that
  proof cases
    case (option q k r)
    then obtain k' t where "row_strike row = Some k'" and "option_type row = Some t"
      using assms(1) by (auto simp: has_columns_def)
    with option same [of q] show ?thesis using documented.option [of row q k r] by simp
  next
    case (future q e)
    then obtain e' where "expiration row = Some e'" using assms(1) by (auto simp: has_columns_def)
    with future show ?thesis using documented.future [of row q e] by simp
  next
    case (currency q)
    then show ?thesis using documented.currency [of row q] by simp
  qed
  ultimately show ?thesis by blast
qed

text \<open>The code completes every row from its symbol; on a row that has its columns that changes nothing.\<close>

lemma to_instrument_key_documented:
  "to_instrument_key row = Some key \<longleftrightarrow>
    (\<exists>p. symbol_form (row_symbol row) p \<and> documented (fill_columns p row) key)"
  by (auto simp: to_instrument_key_eq bind_eq_Some_conv parse_symbol_iff reconcile_documented)

lemma documented_symbol: "documented row key \<Longrightarrow> \<exists>p. symbol_form (row_symbol row) p"
  by (induction rule: documented.induct) blast+

lemma to_instrument_key_complete:
  "has_columns row \<Longrightarrow> to_instrument_key row = Some key \<longleftrightarrow> documented row key"
  using documented_fill documented_symbol unfolding to_instrument_key_documented by blast

section \<open>The expiry column\<close>

lemma canonical_scaled:
  assumes "n \<le> 2 ^ 53" and "j \<le> 900"
  obtains m e where "double_ok (Finite s m e)" and "magnitude m e = real n * 2 ^ j"
proof (cases "n = 0")
  case True
  then show thesis using that [of 0 "- 1074"] by (simp add: magnitude_def)
next
  case False
  obtain m e where me: "double_ok (Finite s m e)" "magnitude m e = real n"
    by (rule canonical_integer [OF assms(1)])
  have "e \<noteq> - 1074"
  proof
    assume "e = - 1074"
    then have "real m = real n * 2 ^ 1074" using me(2) by (simp add: magnitude_def powi_neg_nat field_simps)
    moreover have "real n * 2 ^ 1074 \<ge> 1 * 2 ^ 1074" using False by (intro mult_right_mono) auto
    moreover have "real m < 2 ^ 53" using me(1) by simp
    moreover have "(2::real) ^ 53 \<le> 2 ^ 1074" by (rule power_increasing) simp_all
    ultimately show False by linarith
  qed
  moreover have "e \<le> 71"
  proof (rule ccontr)
    assume "\<not> e \<le> 71"
    then have "2 powi 71 \<le> (2::real) powi e" by (intro powi_mono) simp
    then have "real m * 2 powi 71 \<le> real m * 2 powi e" by (rule mult_left_mono) simp
    then have "real m * 2 ^ 71 \<le> real n" using me(2) by (simp add: magnitude_def)
    moreover have "real n \<le> 2 ^ 53" using assms(1) by (metis of_nat_le_iff of_nat_numeral of_nat_power)
    moreover have "2 ^ 52 \<le> real m" using me(1) \<open>e \<noteq> - 1074\<close> by (auto simp: not_less)
    ultimately show False by simp
  qed
  ultimately have "double_ok (Finite s m (e + int j))" using me(1) assms(2) by auto
  moreover have "magnitude m (e + int j) = real n * 2 ^ j"
    using me(2) by (simp add: magnitude_def powi_add)
  ultimately show thesis by (rule that)
qed

lemma double_mul_exact:
  assumes "double_ok (Finite u k g)" and "magnitude k g = magnitude m e * magnitude n f"
  shows "double_mul (Finite s m e) (Finite t n f) = Finite (s \<noteq> t) k g"
proof (cases "0 \<le> e + f")
  case True
  then have "2 powi e * 2 powi f = (2::real) ^ nat (e + f)"
    by (simp add: powi_add [symmetric] powi_nat)
  then have "real (m * n * 2 ^ nat (e + f)) / real 1 = magnitude k g"
    using assms(2) by (simp add: magnitude_def)
  from round_ratio_exact [OF assms(1) _ this] True show ?thesis by simp
next
  case False
  then have "2 powi e * 2 powi f = 1 / (2::real) ^ nat (- (e + f))"
    by (simp add: powi_add [symmetric] powi_neg_nat)
  then have "real (m * n) / real (2 ^ nat (- (e + f))) = magnitude k g"
    using assms(2) by (simp add: magnitude_def field_simps)
  from round_ratio_exact [OF assms(1) _ this] False show ?thesis by simp
qed

text \<open>
  A whole number of seconds before the year 2116 becomes exactly that many nanoseconds, although
  the product is beyond \<open>2 ^ 53\<close>: the factor \<open>2 ^ 9\<close> of 1e9 leaves a significand that fits.
\<close>

lemma nanos_of_whole_seconds:
  assumes "0 \<le> s" and "s \<le> 4611686018"
  shows "nanos_of_epoch_seconds (double_of_int s) = Defined (s * 1000000000)"
proof -
  have small: "\<bar>s\<bar> \<le> 2 ^ 53" "\<bar>1000000000 :: int\<bar> \<le> 2 ^ 53" using assms by simp_all
  obtain m e where me: "double_of_int s = Finite (s < 0) m e" "magnitude m e = real_of_int \<bar>s\<bar>"
    using double_of_int_small [OF small(1)] by blast
  obtain n f where nf: "double_of_int 1000000000 = Finite ((1000000000 :: int) < 0) n f"
    "magnitude n f = real_of_int \<bar>1000000000\<bar>"
    using double_of_int_small [OF small(2)] by blast
  have "nat s * 1953125 \<le> 2 ^ 53" using assms by simp
  then obtain k g where kg: "double_ok (Finite False k g)" "magnitude k g = real (nat s * 1953125) * 2 ^ 9"
    using canonical_scaled [of "nat s * 1953125" 9] by auto
  have val: "magnitude k g = real (nat s * 1000000000)" using kg(2) by simp
  then have "magnitude k g = magnitude m e * magnitude n f"
    using me(2) nf(2) assms(1) by simp
  from double_mul_exact [OF kg(1) this]
  have "double_mul (double_of_int s) (double_of_int 1000000000) = Finite False k g"
    using me(1) nf(1) assms(1) by simp
  moreover have "trunc_magnitude k g = s * 1000000000"
    using trunc_magnitude_integer [OF val] assms(1) by simp
  moreover have "is_int64 (s * 1000000000)" using assms by (simp add: int64_defs)
  ultimately show ?thesis
    by (simp add: nanos_of_epoch_seconds_def checked_int64_def del: trunc_magnitude.simps)
qed

section \<open>Loading\<close>

lemma load_records_iff:
  "load_records recs = Defined (Inr rows) \<longleftrightarrow>
     list_all2 (\<lambda>r row. load_record r = Defined (Inr row)) recs rows"
proof (induction recs arbitrary: rows)
  case (Cons r recs)
  show ?case
  proof
    assume l: "load_records (r # recs) = Defined (Inr rows)"
    then obtain x where x: "load_record r = Defined x" by (cases "load_record r") auto
    from l x obtain row rest where "x = Inr row" "load_records recs = Defined (Inr rest)" "rows = row # rest"
      by (cases x) (auto simp: cxx_simps)
    with x have "load_record r = Defined (Inr row)" "load_records recs = Defined (Inr rest)" "rows = row # rest"
      by simp_all
    then show "list_all2 (\<lambda>r row. load_record r = Defined (Inr row)) (r # recs) rows"
      using Cons.IH [of rest] by simp
  next
    assume "list_all2 (\<lambda>r row. load_record r = Defined (Inr row)) (r # recs) rows"
    then show "load_records (r # recs) = Defined (Inr rows)"
      by (auto simp: list_all2_Cons1 Cons.IH [symmetric])
  qed
qed auto

lemma load_record_fields:
  assumes "load_record rec = Defined (Inr row)"
  shows "as_int64 (rec ! 0) = Inr (instrument_id_of row)" and "as_string (rec ! 1) = Inr (row_symbol row)"
    and "as_string (rec ! 2) = Inr (instrument_type row)"
    and "option_type row = None \<longleftrightarrow> is_null (rec ! 3)" and "row_strike row = None \<longleftrightarrow> is_null (rec ! 4)"
    and "expiration row = None \<longleftrightarrow> is_null (rec ! 5)"
  using assms
  by (auto simp: load_record_def Let_def cxx_simps map_sum_def split: sum.splits if_splits)

end
