(* ===== verification/Registry.thy ===== *)
theory Registry
  imports Model "HOL-Library.Multiset"
begin

text \<open>
  \<open>marketdata/InstrumentRegistry.{hpp,cpp}\<close>: the identity table, its lookups, channel names and
  the subscription list.  The three \<open>unordered_map\<close>s are partial functions; the vector \<open>m_keys\<close>
  keeps insertion order.  \<open>find\<close> subscripts \<open>m_keys\<close> with a stored slot, which would be undefined
  behaviour out of range; the invariant shows it never is.  The interface other components rely
  on is the locale \<open>identity_table\<close>, and \<open>channel_router\<close> extends it with channel bindings.
\<close>

section \<open>Channels\<close>

definition kTickerChannelPrefix :: string where "kTickerChannelPrefix = ''ticker.''"
definition kIndexChannelPrefix :: string where "kIndexChannelPrefix = ''deribit_price_index.''"

definition channel_for :: "instrument_key \<Rightarrow> string \<Rightarrow> string" where
  "channel_for key interval =
     (case kind key of
        Option \<Rightarrow> kTickerChannelPrefix @ symbol key @ ''.'' @ interval
      | Future \<Rightarrow> kTickerChannelPrefix @ symbol key @ ''.'' @ interval
      | Index \<Rightarrow> kIndexChannelPrefix @ symbol key
      | Perpetual \<Rightarrow> []
      | Unknown \<Rightarrow> [])"

section \<open>The registry\<close>

record registry =
  m_keys :: "instrument_key list"
  m_slot_by_id :: "instrument_id \<rightharpoonup> nat"
  m_by_symbol :: "string \<rightharpoonup> instrument_id"
  m_by_channel :: "string \<rightharpoonup> instrument_id"

definition empty_registry :: registry where
  "empty_registry = \<lparr>m_keys = [], m_slot_by_id = Map.empty, m_by_symbol = Map.empty,
     m_by_channel = Map.empty\<rparr>"

text \<open>\<open>unordered_map::emplace\<close> keeps an entry that is already there.\<close>

definition emplace :: "('k \<rightharpoonup> 'v) \<Rightarrow> 'k \<Rightarrow> 'v \<Rightarrow> ('k \<rightharpoonup> 'v)" where
  "emplace m k v = (case m k of Some _ \<Rightarrow> m | None \<Rightarrow> m(k \<mapsto> v))"

definition by_symbol :: "registry \<Rightarrow> string \<Rightarrow> instrument_id option" where
  "by_symbol r str = m_by_symbol r str"

definition by_channel :: "registry \<Rightarrow> string \<Rightarrow> instrument_id option" where
  "by_channel r channel = m_by_channel r channel"

definition find_key :: "registry \<Rightarrow> instrument_id \<Rightarrow> instrument_key option cxx" where
  "find_key r i =
     (case m_slot_by_id r i of
        None \<Rightarrow> Defined None
      | Some slot \<Rightarrow> if slot < length (m_keys r) then Defined (Some (m_keys r ! slot)) else Undefined)"

definition add :: "registry \<Rightarrow> instrument_key \<Rightarrow> registry \<times> instrument_id option" where
  "add r key =
     (if key_id key = 0 then (r, None)
      else (case by_symbol r (symbol key) of
        Some existing \<Rightarrow> (r, Some existing)
      | None \<Rightarrow>
          (let i = key_id key in
           (r\<lparr>m_slot_by_id := emplace (m_slot_by_id r) i (length (m_keys r)),
              m_by_symbol := emplace (m_by_symbol r) (symbol key) i,
              m_keys := m_keys r @ [key]\<rparr>, Some i))))"

definition bind_channel :: "registry \<Rightarrow> string \<Rightarrow> instrument_id \<Rightarrow> registry" where
  "bind_channel r channel i = r\<lparr>m_by_channel := (m_by_channel r)(channel \<mapsto> i)\<rparr>"

definition reg_size :: "registry \<Rightarrow> nat" where
  "reg_size r = length (m_keys r)"

definition reg_all_keys :: "registry \<Rightarrow> instrument_key list" where
  "reg_all_keys r = m_keys r"

fun ids_loop :: "instrument_kind \<Rightarrow> instrument_key list \<Rightarrow> instrument_id list \<Rightarrow> instrument_id list" where
  "ids_loop k [] ids = ids"
| "ids_loop k (key # keys) ids = ids_loop k keys (if kind key = k then ids @ [key_id key] else ids)"

definition ids_of_kind :: "registry \<Rightarrow> instrument_kind \<Rightarrow> instrument_id list" where
  "ids_of_kind r k = ids_loop k (m_keys r) []"

text \<open>The two nested loops of \<open>subscription_channels\<close>, with the vector built so far.\<close>

fun channels_of_kind :: "string \<Rightarrow> instrument_kind \<Rightarrow> instrument_key list \<Rightarrow> string list \<Rightarrow> string list" where
  "channels_of_kind interval k [] channels = channels"
| "channels_of_kind interval k (key # keys) channels =
     (if kind key \<noteq> k then channels_of_kind interval k keys channels
      else let channel = channel_for key interval in
           channels_of_kind interval k keys (if channel \<noteq> [] then channels @ [channel] else channels))"

fun channels_loop :: "string \<Rightarrow> instrument_kind list \<Rightarrow> instrument_key list \<Rightarrow> string list \<Rightarrow> string list" where
  "channels_loop interval [] keys channels = channels"
| "channels_loop interval (k # ks) keys channels =
     channels_loop interval ks keys (channels_of_kind interval k keys channels)"

definition subscription_channels :: "registry \<Rightarrow> string \<Rightarrow> string list" where
  "subscription_channels r interval = channels_loop interval [Index, Future, Option] (m_keys r) []"

section \<open>The interfaces\<close>

text \<open>
  What a client of the identity table may rely on: an ordered list of entries with pairwise
  distinct symbols and nonzero ids; \<open>add\<close> appends a new symbol and nothing else; the lookups
  return the first matching entry and never leave the defined behaviour of C++.
\<close>

locale identity_table =
  fixes empty :: 'r
    and insert_key :: "'r \<Rightarrow> instrument_key \<Rightarrow> 'r \<times> instrument_id option"
    and find_id :: "'r \<Rightarrow> instrument_id \<Rightarrow> instrument_key option cxx"
    and find_symbol :: "'r \<Rightarrow> string \<Rightarrow> instrument_id option"
    and entries :: "'r \<Rightarrow> instrument_key list"
    and inv :: "'r \<Rightarrow> bool"
  assumes inv_empty: "inv empty"
    and entries_empty: "entries empty = []"
    and inv_insert: "inv r \<Longrightarrow> inv (fst (insert_key r key))"
    and insert_no_id: "key_id key = 0 \<Longrightarrow> insert_key r key = (r, None)"
    and insert_known: "key_id key \<noteq> 0 \<Longrightarrow> find_symbol r (symbol key) = Some i \<Longrightarrow>
      insert_key r key = (r, Some i)"
    and insert_new: "key_id key \<noteq> 0 \<Longrightarrow> find_symbol r (symbol key) = None \<Longrightarrow>
      entries (fst (insert_key r key)) = entries r @ [key] \<and> snd (insert_key r key) = Some (key_id key)"
    and find_id_spec: "inv r \<Longrightarrow> find_id r i = Defined (List.find (\<lambda>key. key_id key = i) (entries r))"
    and find_symbol_spec: "inv r \<Longrightarrow>
      find_symbol r s = map_option key_id (List.find (\<lambda>key. symbol key = s) (entries r))"
    and distinct_symbols: "inv r \<Longrightarrow> distinct (map symbol (entries r))"
    and nonzero_ids: "inv r \<Longrightarrow> 0 \<notin> key_id ` set (entries r)"
begin

lemma find_symbol_None_iff: "inv r \<Longrightarrow> find_symbol r s = None \<longleftrightarrow> s \<notin> symbol ` set (entries r)"
  by (auto simp: find_symbol_spec find_None_iff)

lemma entries_insert:
  assumes "inv r"
  shows "entries (fst (insert_key r key)) =
    (if key_id key = 0 \<or> symbol key \<in> symbol ` set (entries r) then entries r else entries r @ [key])"
proof (cases "key_id key = 0")
  case True
  then show ?thesis by (simp add: insert_no_id)
next
  case False
  then show ?thesis
    using find_symbol_None_iff [OF assms, of "symbol key"] insert_new [OF False, of r]
      insert_known [OF False, of r]
    by (cases "find_symbol r (symbol key)") auto
qed

lemma find_after_insert:
  assumes "inv r" and "key_id key \<noteq> 0" and "symbol key \<notin> symbol ` set (entries r)"
    and "key_id key \<notin> key_id ` set (entries r)"
  shows "find_id (fst (insert_key r key)) (key_id key) = Defined (Some key)"
proof -
  have "List.find (\<lambda>k. key_id k = key_id key) (entries r @ [key]) = Some key"
    using list_find_absent [OF assms(4)] by (simp add: list_find_append)
  then show ?thesis
    using assms by (simp add: find_id_spec inv_insert entries_insert)
qed

end


text \<open>A table whose entries can also be bound to channels; a later binding of a channel wins.\<close>

locale channel_router = identity_table empty insert_key find_id find_symbol entries inv
  for empty :: 'r and insert_key :: "'r \<Rightarrow> instrument_key \<Rightarrow> 'r \<times> instrument_id option"
    and find_id :: "'r \<Rightarrow> instrument_id \<Rightarrow> instrument_key option cxx"
    and find_symbol :: "'r \<Rightarrow> string \<Rightarrow> instrument_id option"
    and entries :: "'r \<Rightarrow> instrument_key list" and inv :: "'r \<Rightarrow> bool" +
  fixes bind :: "'r \<Rightarrow> string \<Rightarrow> instrument_id \<Rightarrow> 'r"
    and route :: "'r \<Rightarrow> string \<Rightarrow> instrument_id option"
  assumes inv_bind: "inv r \<Longrightarrow> inv (bind r c i)"
    and entries_bind: "entries (bind r c i) = entries r"
    and route_bind: "route (bind r c i) c' = (if c' = c then Some i else route r c')"
    and route_insert: "route (fst (insert_key r key)) c = route r c"
begin

lemma bind_all:
  defines "bind_all \<equiv> foldl (\<lambda>r (c, i). bind r c i)"
  assumes "inv r"
  shows "inv (bind_all r ps)" and "entries (bind_all r ps) = entries r"
  using assms(2) unfolding bind_all_def
  by (induction ps arbitrary: r) (auto simp: inv_bind entries_bind)

lemma route_bind_all:
  "route (foldl (\<lambda>r (c, i). bind r c i) r ps) c =
    (case map_of (rev ps) c of Some i \<Rightarrow> Some i | None \<Rightarrow> route r c)"
  by (induction ps arbitrary: r) (auto simp: route_bind map_add_def split: option.splits)

text \<open>
  The use the channels are made for: bind every entry under its own channel, and a notification
  on that channel resolves to the entry, provided the entries' channels are distinct.
\<close>

lemma route_own_channel:
  assumes "inv r" and "distinct (map chan keys)" and "key \<in> set keys"
  shows "route (foldl (\<lambda>r (c, i). bind r c i) r (map (\<lambda>k. (chan k, key_id k)) keys)) (chan key)
    = Some (key_id key)"
proof -
  let ?ps = "map (\<lambda>k. (chan k, key_id k)) keys"
  have "distinct (map fst (rev ?ps))"
    using assms(2) by (simp add: rev_map [symmetric] o_def)
  moreover have "(chan key, key_id key) \<in> set (rev ?ps)" using assms(3) by auto
  ultimately have "map_of (rev ?ps) (chan key) = Some (key_id key)"
    by (rule map_of_is_SomeI)
  then show ?thesis by (simp add: route_bind_all)
qed

end

section \<open>The registry implements the interfaces\<close>

definition registry_inv :: "registry \<Rightarrow> bool" where
  "registry_inv r \<longleftrightarrow> distinct (map symbol (m_keys r)) \<and> 0 \<notin> key_id ` set (m_keys r) \<and>
     (\<forall>s. m_by_symbol r s = map_option key_id (List.find (\<lambda>key. symbol key = s) (m_keys r))) \<and>
     (\<forall>i. find_key r i = Defined (List.find (\<lambda>key. key_id key = i) (m_keys r)))"

lemma emplace_apply: "emplace m k v x = (if x = k \<and> m k = None then Some v else m x)"
  by (auto simp: emplace_def split: option.splits)

lemma emplace_new: "m k = None \<Longrightarrow> emplace m k v = m(k \<mapsto> v)"
  by (simp add: emplace_def)

lemma slot_None_iff:
  assumes "registry_inv r"
  shows "m_slot_by_id r i = None \<longleftrightarrow> i \<notin> key_id ` set (m_keys r)"
proof -
  have f: "find_key r i = Defined (List.find (\<lambda>key. key_id key = i) (m_keys r))"
    using assms by (simp add: registry_inv_def)
  then show ?thesis
    by (cases "List.find (\<lambda>key. key_id key = i) (m_keys r)")
      (auto simp: find_key_def find_None_iff dest: list_find_in split: option.splits if_splits)
qed

lemma registry_inv_empty: "registry_inv empty_registry"
  by (simp add: registry_inv_def empty_registry_def find_key_def)

lemma add_cases:
  assumes "registry_inv r"
  shows "add r key =
    (if key_id key = 0 then (r, None)
     else if symbol key \<in> symbol ` set (m_keys r) then (r, m_by_symbol r (symbol key))
     else (r\<lparr>m_slot_by_id := emplace (m_slot_by_id r) (key_id key) (length (m_keys r)),
             m_by_symbol := (m_by_symbol r)(symbol key \<mapsto> key_id key),
             m_keys := m_keys r @ [key]\<rparr>, Some (key_id key)))"
proof -
  have s: "m_by_symbol r s = None \<longleftrightarrow> s \<notin> symbol ` set (m_keys r)" for s
    using assms by (auto simp: registry_inv_def find_None_iff)
  from this [of "symbol key"] show ?thesis
    by (cases "m_by_symbol r (symbol key)")
      (simp_all add: add_def by_symbol_def emplace_new Let_def)
qed

lemma registry_inv_add:
  assumes inv: "registry_inv r"
  shows "registry_inv (fst (add r key))"
proof (cases "key_id key = 0 \<or> symbol key \<in> symbol ` set (m_keys r)")
  case True
  then show ?thesis using inv by (auto simp: add_cases)
next
  case False
  let ?r = "fst (add r key)"
  have r: "?r = r\<lparr>m_slot_by_id := emplace (m_slot_by_id r) (key_id key) (length (m_keys r)),
             m_by_symbol := (m_by_symbol r)(symbol key \<mapsto> key_id key), m_keys := m_keys r @ [key]\<rparr>"
    using False inv by (simp add: add_cases)
  have old: "distinct (map symbol (m_keys r))" "0 \<notin> key_id ` set (m_keys r)"
    "m_by_symbol r s = map_option key_id (List.find (\<lambda>key. symbol key = s) (m_keys r))"
    "find_key r i = Defined (List.find (\<lambda>key. key_id key = i) (m_keys r))" for s i
    using inv by (simp_all add: registry_inv_def)
  have "m_by_symbol ?r s = map_option key_id (List.find (\<lambda>key. symbol key = s) (m_keys ?r))" for s
    using False list_find_absent [of s symbol "m_keys r"]
    by (auto simp: r old(3) list_find_append split: option.splits)
  moreover have "find_key ?r i = Defined (List.find (\<lambda>key. key_id key = i) (m_keys ?r))" for i
  proof (cases "m_slot_by_id r i")
    case None
    then have "i \<notin> key_id ` set (m_keys r)" using slot_None_iff [OF inv] by blast
    from list_find_absent [OF this] None show ?thesis
      by (simp add: r find_key_def emplace_apply list_find_append)
  next
    case (Some slot)
    with old(4) [of i] have lt: "slot < length (m_keys r)"
      and f: "List.find (\<lambda>key. key_id key = i) (m_keys r) = Some (m_keys r ! slot)"
      by (auto simp: find_key_def split: if_splits)
    from Some lt f show ?thesis
      by (auto simp: r find_key_def emplace_apply list_find_append nth_append)
  qed
  ultimately show ?thesis using old(1,2) False by (auto simp: registry_inv_def r)
qed

lemma registry_bind:
  "m_keys (bind_channel r c i) = m_keys r" "find_key (bind_channel r c i) = find_key r"
  "m_by_symbol (bind_channel r c i) = m_by_symbol r"
  by (simp_all add: bind_channel_def find_key_def fun_eq_iff split: option.split)

lemma registry_inv_bind: "registry_inv r \<Longrightarrow> registry_inv (bind_channel r c i)"
  by (simp add: registry_inv_def registry_bind)

interpretation reg: channel_router empty_registry add find_key by_symbol m_keys registry_inv
  bind_channel by_channel
proof unfold_locales
  show "registry_inv empty_registry" by (rule registry_inv_empty)
  show "m_keys empty_registry = []" by (simp add: empty_registry_def)
  show "registry_inv r \<Longrightarrow> registry_inv (fst (add r key))" for r key by (rule registry_inv_add)
  show "key_id key = 0 \<Longrightarrow> add r key = (r, None)" for key r by (simp add: add_def)
  show "key_id key \<noteq> 0 \<Longrightarrow> by_symbol r (symbol key) = Some i \<Longrightarrow> add r key = (r, Some i)" for key r i
    by (simp add: add_def)
  show "key_id key \<noteq> 0 \<Longrightarrow> by_symbol r (symbol key) = None \<Longrightarrow>
      m_keys (fst (add r key)) = m_keys r @ [key] \<and> snd (add r key) = Some (key_id key)" for key r
    by (simp add: add_def Let_def)
  show "registry_inv r \<Longrightarrow> find_key r i = Defined (List.find (\<lambda>key. key_id key = i) (m_keys r))" for r i
    by (simp add: registry_inv_def)
  show "registry_inv r \<Longrightarrow> by_symbol r s = map_option key_id (List.find (\<lambda>key. symbol key = s) (m_keys r))" for r s
    by (simp add: registry_inv_def by_symbol_def)
  show "registry_inv r \<Longrightarrow> distinct (map symbol (m_keys r))" for r by (simp add: registry_inv_def)
  show "registry_inv r \<Longrightarrow> 0 \<notin> key_id ` set (m_keys r)" for r by (simp add: registry_inv_def)
  show "registry_inv r \<Longrightarrow> registry_inv (bind_channel r c i)" for r c i by (rule registry_inv_bind)
  show "m_keys (bind_channel r c i) = m_keys r" for r c i by (simp add: registry_bind)
  show "by_channel (bind_channel r c i) c' = (if c' = c then Some i else by_channel r c')" for r c i c'
    by (simp add: by_channel_def bind_channel_def)
  show "by_channel (fst (add r key)) c = by_channel r c" for r key c
    by (auto simp: by_channel_def add_def Let_def split: option.splits)
qed

section \<open>Lists of the registry\<close>

lemma ids_loop_eq: "ids_loop k keys ids = ids @ map key_id (filter (\<lambda>key. kind key = k) keys)"
  by (induction keys arbitrary: ids) auto

lemma ids_of_kind_eq: "ids_of_kind r k = map key_id (filter (\<lambda>key. kind key = k) (m_keys r))"
  by (simp add: ids_of_kind_def ids_loop_eq)

definition subscribed :: "instrument_key \<Rightarrow> bool" where
  "subscribed key \<longleftrightarrow> kind key \<in> {Index, Future, Option}"

lemma channel_for_nonempty: "channel_for key interval \<noteq> [] \<longleftrightarrow> subscribed key"
  by (cases "kind key") (auto simp: channel_for_def subscribed_def kTickerChannelPrefix_def kIndexChannelPrefix_def)

lemma channels_of_kind_eq:
  "k \<in> {Index, Future, Option} \<Longrightarrow> channels_of_kind interval k keys channels
    = channels @ map (\<lambda>key. channel_for key interval) (filter (\<lambda>key. kind key = k) keys)"
proof (induction keys arbitrary: channels)
  case (Cons key keys)
  then show ?case
    using channel_for_nonempty [of key interval] by (auto simp: subscribed_def Let_def)
qed simp

text \<open>The subscription order as a specification: one stable block per kind.\<close>

definition subscription_order :: "instrument_key list \<Rightarrow> instrument_key list" where
  "subscription_order keys =
     concat (map (\<lambda>k. filter (\<lambda>key. kind key = k) keys) [Index, Future, Option])"

lemma subscription_channels_eq:
  "subscription_channels r interval =
     map (\<lambda>key. channel_for key interval) (subscription_order (m_keys r))"
  by (simp add: subscription_channels_def subscription_order_def channels_of_kind_eq)

lemma set_subscription_order: "set (subscription_order keys) = {key \<in> set keys. subscribed key}"
  by (auto simp: subscription_order_def subscribed_def)

lemma channel_for_inj:
  assumes "channel_for a interval = channel_for b interval" and "subscribed a" and "subscribed b"
  shows "symbol a = symbol b"
  using assms
  by (cases "kind a"; cases "kind b")
    (auto simp: channel_for_def subscribed_def kTickerChannelPrefix_def kIndexChannelPrefix_def)

lemma distinct_subscription_order: "distinct keys \<Longrightarrow> distinct (subscription_order keys)"
  unfolding subscription_order_def by (rule distinct_concat_map_filter) simp_all

lemma distinct_channels:
  assumes "distinct (map symbol keys)"
  shows "distinct (map (\<lambda>key. channel_for key interval) (subscription_order keys))"
proof -
  have "inj_on (\<lambda>key. channel_for key interval) (set (subscription_order keys))"
  proof (rule inj_onI)
    fix a b assume "a \<in> set (subscription_order keys)" "b \<in> set (subscription_order keys)"
      and eq: "channel_for a interval = channel_for b interval"
    then have ab: "a \<in> set keys" "b \<in> set keys" "subscribed a" "subscribed b"
      by (auto simp: set_subscription_order)
    with eq have "symbol a = symbol b" by (auto dest: channel_for_inj)
    with ab assms show "a = b" by (auto simp: distinct_map dest: inj_onD)
  qed
  moreover have "distinct (subscription_order keys)"
    using assms by (intro distinct_subscription_order) (simp add: distinct_map)
  ultimately show ?thesis by (simp add: distinct_map)
qed

text \<open>Registering a list of keys in order; reachable registries.\<close>

definition add_all :: "registry \<Rightarrow> instrument_key list \<Rightarrow> registry" where
  "add_all r keys = foldl (\<lambda>r key. fst (add r key)) r keys"

fun first_listings :: "string set \<Rightarrow> instrument_key list \<Rightarrow> instrument_key list" where
  "first_listings seen [] = []"
| "first_listings seen (key # keys) =
     (if key_id key = 0 \<or> symbol key \<in> seen then first_listings seen keys
      else key # first_listings (insert (symbol key) seen) keys)"

inductive reachable_registry :: "registry \<Rightarrow> bool" where
  reg_start: "reachable_registry empty_registry"
| reg_add: "reachable_registry r \<Longrightarrow> reachable_registry (fst (add r key))"
| reg_bind: "reachable_registry r \<Longrightarrow> reachable_registry (bind_channel r c i)"

lemma reachable_registry_inv: "reachable_registry r \<Longrightarrow> registry_inv r"
  by (induction rule: reachable_registry.induct) (auto intro: reg.inv_empty reg.inv_insert reg.inv_bind)

lemma add_all_inv: "registry_inv r \<Longrightarrow> registry_inv (add_all r keys)"
  unfolding add_all_def by (induction keys arbitrary: r) (auto intro: reg.inv_insert)

lemma add_all_keys:
  "registry_inv r \<Longrightarrow> m_keys (add_all r keys) = m_keys r @ first_listings (symbol ` set (m_keys r)) keys"
proof (induction keys arbitrary: r)
  case (Cons key keys)
  have "m_keys (add_all (fst (add r key)) keys) = m_keys (fst (add r key))
      @ first_listings (symbol ` set (m_keys (fst (add r key)))) keys"
    by (rule Cons.IH) (rule reg.inv_insert [OF Cons.prems])
  then show ?case
    by (auto simp: add_all_def reg.entries_insert [OF Cons.prems])
qed (simp add: add_all_def)

lemma first_listings_subset: "set (first_listings seen keys) \<subseteq> set keys"
  by (induction seen keys rule: first_listings.induct) auto

lemma first_listings_symbol_iff:
  "s \<in> symbol ` set (first_listings seen keys) \<longleftrightarrow>
     s \<notin> seen \<and> (\<exists>key. key \<in> set keys \<and> key_id key \<noteq> 0 \<and> symbol key = s)"
proof (induction seen keys rule: first_listings.induct)
  case (2 seen key keys)
  show ?case
  proof (cases "key_id key = 0 \<or> symbol key \<in> seen")
    case True
    with 2(1) show ?thesis by auto
  next
    case False
    with 2(2) show ?thesis by (cases "symbol key = s") auto
  qed
qed simp

lemma first_listings_id: "key \<in> set (first_listings seen keys) \<Longrightarrow> key_id key \<noteq> 0"
  by (induction seen keys rule: first_listings.induct) (auto split: if_splits)

section \<open>The subscription as a stable sort\<close>

text \<open>Kinds in the order of subscription; the two that are never subscribed come last.\<close>

fun kind_rank :: "instrument_kind \<Rightarrow> nat" where
  "kind_rank Index = 0"
| "kind_rank Future = 1"
| "kind_rank Option = 2"
| "kind_rank Perpetual = 3"
| "kind_rank Unknown = 4"

lemma kind_rank_inj: "kind_rank a = kind_rank b \<Longrightarrow> a = b"
  by (cases a; cases b) simp_all

instantiation instrument_kind :: linorder
begin

definition less_eq_instrument_kind :: "instrument_kind \<Rightarrow> instrument_kind \<Rightarrow> bool" where
  "less_eq_instrument_kind a b \<longleftrightarrow> kind_rank a \<le> kind_rank b"

definition less_instrument_kind :: "instrument_kind \<Rightarrow> instrument_kind \<Rightarrow> bool" where
  "less_instrument_kind a b \<longleftrightarrow> kind_rank a < kind_rank b"

instance
  by standard (auto simp: less_eq_instrument_kind_def less_instrument_kind_def intro: kind_rank_inj)

end

lemma sorted_subscription_order: "sorted (map kind (subscription_order keys))"
proof -
  have all: "sorted (map kind (filter (\<lambda>key. kind key = k) keys))" for k
    by (induction keys) auto
  then show ?thesis
    by (auto simp: subscription_order_def sorted_append less_eq_instrument_kind_def)
qed

lemma mset_subscription_order: "mset (subscription_order keys) = mset (filter subscribed keys)"
  by (induction keys) (auto simp: subscription_order_def subscribed_def)

lemma subscription_order_sort: "sort_key kind (filter subscribed keys) = subscription_order keys"
proof (rule properties_for_sort_key)
  show "mset (subscription_order keys) = mset (filter subscribed keys)" by (rule mset_subscription_order)
  show "sorted (map kind (subscription_order keys))" by (rule sorted_subscription_order)
  fix key assume "key \<in> set (subscription_order keys)"
  then have "subscribed key" by (simp add: set_subscription_order)
  then show "filter (\<lambda>x. kind key = kind x) (subscription_order keys) =
      filter (\<lambda>x. kind key = kind x) (filter subscribed keys)"
    by (induction keys) (auto simp: subscription_order_def subscribed_def)
qed

end
