(* ===== verification/Codec.thy ===== *)
theory Codec
  imports Model
begin

text \<open>
  \<open>marketdata/TickerCodec.{hpp,cpp}\<close>: a notification payload to a tick.  Boost.JSON is not part
  of the repository: the accessors the codec calls on its objects and values are the fields of
  \<open>json_api\<close>, an argument of every operation.  Integers arrive as 64-bit words, signed or
  unsigned.  Widening milliseconds to nanoseconds multiplies a signed 64-bit count, and a double
  timestamp is converted to \<open>std::int64_t\<close>; both can be undefined, so the results are \<open>cxx\<close>
  values.
\<close>

section \<open>Operations\<close>

record ('obj, 'val) json_api =
  if_contains :: "'obj \<Rightarrow> string \<Rightarrow> 'val option"
  if_double :: "'val \<Rightarrow> double option"
  if_int64 :: "'val \<Rightarrow> 64 word option"
  if_uint64 :: "'val \<Rightarrow> 64 word option"
  if_string :: "'val \<Rightarrow> string option"

definition number_or_nan :: "('obj, 'val) json_api \<Rightarrow> 'obj \<Rightarrow> string \<Rightarrow> double" where
  "number_or_nan J data key =
     (case if_contains J data key of
        None \<Rightarrow> kNoValue
      | Some v \<Rightarrow> (case if_double J v of Some d \<Rightarrow> d
      | None \<Rightarrow> (case if_int64 J v of Some i \<Rightarrow> double_of_int (sint i)
      | None \<Rightarrow> (case if_uint64 J v of Some u \<Rightarrow> double_of_int (uint u)
      | None \<Rightarrow> kNoValue))))"

definition string_or_empty :: "('obj, 'val) json_api \<Rightarrow> 'obj \<Rightarrow> string \<Rightarrow> string" where
  "string_or_empty J data key =
     (case if_contains J data key of
        None \<Rightarrow> []
      | Some v \<Rightarrow> (case if_string J v of None \<Rightarrow> [] | Some s \<Rightarrow> s))"

text \<open>The three branches that read \<open>millis\<close>; \<open>static_cast<std::int64_t>\<close> of an unsigned wraps.\<close>

definition millis_of :: "('obj, 'val) json_api \<Rightarrow> 'val \<Rightarrow> int option cxx" where
  "millis_of J v =
     (case if_int64 J v of Some i \<Rightarrow> Defined (Some (sint i))
      | None \<Rightarrow> (case if_uint64 J v of Some u \<Rightarrow> Defined (Some (sint u))
      | None \<Rightarrow> (case if_double J v of
           Some d \<Rightarrow> bind_cxx (int64_of_double d) (\<lambda>m. Defined (Some m))
         | None \<Rightarrow> Defined None)))"

definition timestamp_ms :: "('obj, 'val) json_api \<Rightarrow> 'obj \<Rightarrow> nanos option cxx" where
  "timestamp_ms J data =
     (case if_contains J data ''timestamp'' of
        None \<Rightarrow> Defined None
      | Some v \<Rightarrow> bind_cxx (millis_of J v) (\<lambda>m. case m of
           None \<Rightarrow> Defined None
         | Some millis \<Rightarrow> bind_cxx (checked_int64 (millis * 1000000)) (\<lambda>n. Defined (Some n))))"

definition decode_priced :: "('obj, 'val) json_api \<Rightarrow> 'obj \<Rightarrow> string \<Rightarrow> instrument_id \<Rightarrow> nanos \<Rightarrow>
    tick option cxx" where
  "decode_priced J data price_key i recv =
     bind_cxx (timestamp_ms J data) (\<lambda>ts. case ts of
       None \<Rightarrow> Defined None
     | Some t \<Rightarrow>
         (let p = number_or_nan J data price_key in
          if is_nan p then Defined None
          else Defined (Some \<lparr>tick_id = i, exchange_ts = t, recv_ts = recv, price = p\<rparr>)))"

definition decode_ticker :: "('obj, 'val) json_api \<Rightarrow> 'obj \<Rightarrow> instrument_id \<Rightarrow> nanos \<Rightarrow> tick option cxx" where
  "decode_ticker J data i recv = decode_priced J data ''last_price'' i recv"

definition decode_index :: "('obj, 'val) json_api \<Rightarrow> 'obj \<Rightarrow> instrument_id \<Rightarrow> nanos \<Rightarrow> tick option cxx" where
  "decode_index J data i recv = decode_priced J data ''price'' i recv"

definition instrument_name :: "('obj, 'val) json_api \<Rightarrow> 'obj \<Rightarrow> string option" where
  "instrument_name J data =
     (let name = string_or_empty J data ''instrument_name'' in if name = [] then None else Some name)"

section \<open>What a payload sends\<close>

text \<open>
  The documentation of \<open>boost::json::value\<close> gives a value exactly one kind, so that at most one of the
  accessors to numbers answers.
\<close>

definition one_kind :: "('obj, 'val) json_api \<Rightarrow> bool" where
  "one_kind J \<longleftrightarrow> (\<forall>v.
     (if_int64 J v \<noteq> None \<longrightarrow> if_uint64 J v = None \<and> if_double J v = None) \<and>
     (if_uint64 J v \<noteq> None \<longrightarrow> if_double J v = None))"

text \<open>
  What the venue sends, without reference to the decoder: the number that a value is, and the
  milliseconds that a value tells.  A count that does not fit the signed type wraps around, and of a
  number with a fraction the whole part counts.
\<close>

inductive sends_number :: "('obj, 'val) json_api \<Rightarrow> 'val \<Rightarrow> double \<Rightarrow> bool" for J v where
  real: "if_double J v = Some d \<Longrightarrow> sends_number J v d"
| signed: "if_int64 J v = Some i \<Longrightarrow> sends_number J v (double_of_int (sint i))"
| unsigned: "if_uint64 J v = Some u \<Longrightarrow> sends_number J v (double_of_int (uint u))"

inductive sends_millis :: "('obj, 'val) json_api \<Rightarrow> 'val \<Rightarrow> int \<Rightarrow> bool" for J v where
  signed: "if_int64 J v = Some i \<Longrightarrow> sends_millis J v (sint i)"
| unsigned: "if_uint64 J v = Some u \<Longrightarrow> uint u < 2 ^ 63 \<Longrightarrow> sends_millis J v (uint u)"
| wrapped: "if_uint64 J v = Some u \<Longrightarrow> 2 ^ 63 \<le> uint u \<Longrightarrow> sends_millis J v (uint u - 2 ^ 64)"
| real: "if_double J v = Some (Finite s m e) \<Longrightarrow> ms = (if s then - \<lfloor>magnitude m e\<rfloor> else \<lfloor>magnitude m e\<rfloor>) \<Longrightarrow>
    is_int64 ms \<Longrightarrow> sends_millis J v ms"

inductive_simps sends_number_iff: "sends_number J v d"
inductive_simps sends_millis_iff: "sends_millis J v ms"

lemma sint_of_uint: "sint (u :: 64 word) = (if uint u < 2 ^ 63 then uint u else uint u - 2 ^ 64)"
proof -
  have u: "0 \<le> uint u" "uint u < 2 ^ 64" using uint_lt2p [of u] by simp_all
  have "(uint u + 2 ^ 63) mod 2 ^ 64 = uint u + 2 ^ 63 - 2 ^ 64" if "2 ^ 63 \<le> uint u"
  proof -
    have "(uint u + 2 ^ 63 - 2 ^ 64) mod 2 ^ 64 = uint u + 2 ^ 63 - 2 ^ 64"
      using u that by (intro mod_pos_pos_trivial) simp_all
    then show ?thesis by (simp only: minus_mod_self2)
  qed
  with u show ?thesis by (simp add: sint_uint signed_take_bit_eq_take_bit_shift take_bit_int_def)
qed

lemma millis_of_iff:
  assumes "one_kind J"
  shows "millis_of J v = Defined (Some ms) \<longleftrightarrow> sends_millis J v ms"
proof (cases "if_int64 J v")
  case (Some i)
  then show ?thesis using assms by (auto simp: one_kind_def millis_of_def sends_millis_iff)
next
  case int: None
  show ?thesis
  proof (cases "if_uint64 J v")
    case (Some u)
    then have "if_double J v = None" using assms by (auto simp: one_kind_def)
    with int Some show ?thesis
      by (cases "uint u < 2 ^ 63") (auto simp: millis_of_def sends_millis_iff sint_of_uint)
  next
    case None
    show ?thesis
    proof (cases "if_double J v")
      case (Some d)
      with int None show ?thesis
        by (cases d) (auto simp: millis_of_def sends_millis_iff trunc_magnitude_floor cxx_simps
            checked_int64_def simp del: trunc_magnitude.simps split: if_splits)
    qed (use int None in \<open>simp add: millis_of_def sends_millis_iff\<close>)
  qed
qed

lemma number_or_nan_iff:
  assumes "one_kind J"
  shows "number_or_nan J data key = p \<and> \<not> is_nan p \<longleftrightarrow>
    (\<exists>w. if_contains J data key = Some w \<and> sends_number J w p \<and> \<not> is_nan p)"
proof (cases "if_contains J data key")
  case (Some w)
  show ?thesis
  proof (cases "if_double J w")
    case (Some d)
    then have "if_int64 J w = None" "if_uint64 J w = None" using assms by (auto simp: one_kind_def)
    with Some \<open>if_contains J data key = Some w\<close> show ?thesis
      by (auto simp: number_or_nan_def sends_number_iff)
  next
    case None
    with Some assms show ?thesis
      by (cases "if_int64 J w"; cases "if_uint64 J w")
        (auto simp: number_or_nan_def sends_number_iff one_kind_def kNoValue_def)
  qed
qed (auto simp: number_or_nan_def kNoValue_def)

text \<open>Where the timestamp is missing or is no number there are no milliseconds; reading them may be
  undefined.\<close>

definition payload_millis :: "('obj, 'val) json_api \<Rightarrow> 'obj \<Rightarrow> int option cxx" where
  "payload_millis J data =
     (case if_contains J data ''timestamp'' of None \<Rightarrow> Defined None | Some v \<Rightarrow> millis_of J v)"

lemma timestamp_ms_eq:
  "timestamp_ms J data = bind_cxx (payload_millis J data) (\<lambda>m. case m of
      None \<Rightarrow> Defined None
    | Some millis \<Rightarrow> bind_cxx (checked_int64 (millis * 1000000)) (\<lambda>n. Defined (Some n)))"
  by (simp add: timestamp_ms_def payload_millis_def split: option.split)

lemma payload_millis_iff:
  "one_kind J \<Longrightarrow> payload_millis J data = Defined (Some ms) \<longleftrightarrow>
    (\<exists>v. if_contains J data ''timestamp'' = Some v \<and> sends_millis J v ms)"
  by (auto simp: payload_millis_def millis_of_iff split: option.split)

lemma decode_priced_Some_iff:
  assumes "one_kind J"
  shows "decode_priced J data key i recv = Defined (Some t) \<longleftrightarrow>
     (\<exists>v ms w p. if_contains J data ''timestamp'' = Some v \<and> sends_millis J v ms \<and> is_int64 (ms * 1000000) \<and>
        if_contains J data key = Some w \<and> sends_number J w p \<and> \<not> is_nan p \<and>
        t = \<lparr>tick_id = i, exchange_ts = ms * 1000000, recv_ts = recv, price = p\<rparr>)"
proof -
  have "decode_priced J data key i recv = Defined (Some t) \<longleftrightarrow>
     (\<exists>ms p. payload_millis J data = Defined (Some ms) \<and> is_int64 (ms * 1000000) \<and>
        (number_or_nan J data key = p \<and> \<not> is_nan p) \<and>
        t = \<lparr>tick_id = i, exchange_ts = ms * 1000000, recv_ts = recv, price = p\<rparr>)"
    by (cases "payload_millis J data")
      (auto simp: decode_priced_def timestamp_ms_eq Let_def cxx_simps checked_int64_def
        split: option.split if_splits)
  then show ?thesis unfolding payload_millis_iff [OF assms] number_or_nan_iff [OF assms] by blast
qed

lemma decode_priced_Undefined_iff:
  "decode_priced J data key i recv = Undefined \<longleftrightarrow>
     payload_millis J data = Undefined \<or>
     (\<exists>millis. payload_millis J data = Defined (Some millis) \<and> \<not> is_int64 (millis * 1000000))"
  by (cases "payload_millis J data")
    (auto simp: decode_priced_def timestamp_ms_eq Let_def cxx_simps checked_int64_def
      split: option.split if_splits)

text \<open>Only the two fields are read.\<close>

lemma decode_priced_cong:
  assumes "if_contains J data ''timestamp'' = if_contains J data' ''timestamp''"
    and "if_contains J data key = if_contains J data' key"
  shows "decode_priced J data key i recv = decode_priced J data' key i recv"
proof -
  have "timestamp_ms J data = timestamp_ms J data'" by (simp add: timestamp_ms_def assms(1))
  moreover have "number_or_nan J data key = number_or_nan J data' key"
    by (simp add: number_or_nan_def assms(2))
  ultimately show ?thesis by (simp only: decode_priced_def)
qed

lemma instrument_name_iff:
  "instrument_name J data = Some name \<longleftrightarrow> name \<noteq> [] \<and>
     (\<exists>v. if_contains J data ''instrument_name'' = Some v \<and> if_string J v = Some name)"
  by (auto simp: instrument_name_def string_or_empty_def Let_def split: option.splits)

section \<open>An instance of the accessors\<close>

text \<open>
  The value kinds that the documentation of \<open>boost::json::value\<close> lists, with their accessors; an
  object has one value per key.  It is used to evaluate the codec on concrete payloads.
\<close>

datatype json_value = JNull | JBool bool | JInt64 "64 word" | JUint64 "64 word" | JDouble double
  | JString string

type_synonym json_object = "(string \<times> json_value) list"

definition sample_json :: "(json_object, json_value) json_api" where
  "sample_json = \<lparr>
     if_contains = (\<lambda>data key. map_of data key),
     if_double = (\<lambda>v. case v of JDouble d \<Rightarrow> Some d | _ \<Rightarrow> None),
     if_int64 = (\<lambda>v. case v of JInt64 i \<Rightarrow> Some i | _ \<Rightarrow> None),
     if_uint64 = (\<lambda>v. case v of JUint64 u \<Rightarrow> Some u | _ \<Rightarrow> None),
     if_string = (\<lambda>v. case v of JString s \<Rightarrow> Some s | _ \<Rightarrow> None)\<rparr>"

lemma sample_json_kinds: "one_kind sample_json"
  by (auto simp: one_kind_def sample_json_def split: json_value.splits)

end
