(* ===== verification/Identity_Properties.thy ===== *)
theory Identity_Properties
  imports Decimals Repository Registry Codec
begin

text \<open>
  The properties of the identity pipeline: numbers, dates, symbols, database rows, the registry and
  the codec, each with a concrete input on which its hypotheses hold.
\<close>

section \<open>Sample data\<close>

lemma char_of_eq: "of_char c = (n :: nat) \<Longrightarrow> char_of n = c"
  by auto

lemma char_of_digits:
  "char_of (48 :: nat) = CHR ''0''" "char_of (49 :: nat) = CHR ''1''" "char_of (50 :: nat) = CHR ''2''"
  "char_of (51 :: nat) = CHR ''3''" "char_of (52 :: nat) = CHR ''4''" "char_of (53 :: nat) = CHR ''5''"
  "char_of (54 :: nat) = CHR ''6''" "char_of (55 :: nat) = CHR ''7''" "char_of (56 :: nat) = CHR ''8''"
  "char_of (57 :: nat) = CHR ''9''"
  by (rule char_of_eq, simp)+

lemma sample_date_ok: "ymd_ok \<lparr>ymd_year = 2025, ymd_month = 6, ymd_day = 27\<rparr>"
  by (simp add: ymd_ok_def last_day_def)

lemma sample_date_nanos:
  "nanos_at_hour \<lparr>ymd_year = 2025, ymd_month = 6, ymd_day = 27\<rparr> kDeribitExpiryHourUtc = 1751011200000000000"
  by (simp add: nanos_at_hour_def kDeribitExpiryHourUtc_def sys_days_def days_before_year_def
      days_before_month_def is_leap_def last_day_def upt_conv_Cons)

lemma sample_expiry_text: "print_expiry 27 6 25 = ''27JUN25''"
  by (simp add: print_expiry_def show_nat.simps kMonths_def char_of_digits)

lemma sample_option_text: "print_option ''BTC'' 27 6 25 100000 Call = ''BTC-27JUN25-100000-C''"
  by (simp add: print_option_def sample_expiry_text show_nat.simps char_of_digits right_text_def)

lemma sample_future_text: "print_future ''BTC'' 27 6 25 = ''BTC-27JUN25''"
  by (simp add: print_future_def sample_expiry_text)

lemma sample_expiry: "parse_expiry ''27JUN25'' = Some 1751011200000000000"
  using parse_print_expiry [of 25 6 27] sample_date_ok
  by (simp add: sample_expiry_text sample_date_nanos)

lemma sample_index: "parse_symbol ''btc_usd'' = Some (default_key\<lparr>symbol := ''btc_usd'',
    base_ccy := to_upper ''btc'', kind := Index\<rparr>)"
  unfolding parse_symbol_iff by (rule symbol_form.index [of "''btc''" "''usd''"]) simp_all

definition sample_row :: instrument_row where
  "sample_row = \<lparr>instrument_id_of = 7, row_symbol = ''btc_usd'', instrument_type = ''currency'',
     option_type = None, row_strike = None, expiration = None\<rparr>"

definition sample_key :: instrument_key where
  "sample_key = default_key\<lparr>symbol := ''btc_usd'', base_ccy := to_upper ''btc'', key_id := 7, kind := Index\<rparr>"

lemma sample_mapped: "to_instrument_key sample_row = Some sample_key"
  by (simp add: to_instrument_key_eq sample_row_def sample_index reconcile_def sample_key_def default_key_def)

text \<open>A row of a future whose expiry column is null.\<close>

definition bare_future :: instrument_row where
  "bare_future = \<lparr>instrument_id_of = 8, row_symbol = ''BTC-27JUN25'', instrument_type = ''future'',
     option_type = None, row_strike = None, expiration = None\<rparr>"

lemma bare_future_mapped: "\<exists>key. to_instrument_key bare_future = Some key"
  using parse_print_future [of "''BTC''" 25 6 27] sample_date_ok
  by (simp add: sample_future_text plain_def to_instrument_key_eq reconcile_def bare_future_def)

definition sample_registry :: registry where
  "sample_registry = fst (add empty_registry sample_key)"

lemma sample_reachable: "reachable_registry sample_registry"
  unfolding sample_registry_def by (rule reg_add [OF reg_start])

lemma sample_registry_keys: "m_keys sample_registry = [sample_key]"
  using reg.entries_insert [OF reg.inv_empty, of sample_key]
  by (simp add: sample_registry_def empty_registry_def sample_key_def)

section \<open>Numbers and text\<close>

text \<open>C33: \<open>split\<close> is the structural split at each separator, joining its parts gives the text back,
  and there is always one part more than separators, however many: the \<open>max_parts\<close> of the comment
  on \<open>split\<close> does not exist.\<close>

theorem split_correct:
  "split str sep = split_ref sep str \<and> join sep (split str sep) = str \<and>
    length (split str sep) = Suc (count_list str sep)"
  by (simp add: split_eq_ref join_split_ref length_split_ref)

section \<open>Dates and expiries\<close>

text \<open>Expiry instants follow the calendar: the epoch is zero, and the same hour of the day after a
  date, across months, years and leap days, is 86400 seconds later.\<close>

theorem instants_follow_calendar:
  assumes "ymd_ok d"
  shows "nanos_at_hour epoch_day 0 = 0 \<and> nanos_at_hour (next_day d) h = nanos_at_hour d h + 86400 * 1000000000"
  using sys_days_next [OF assms] by (simp add: nanos_at_hour_def sys_days_epoch)

theorem instants_follow_calendar_witness:
  "next_day \<lparr>ymd_year = 2028, ymd_month = 2, ymd_day = 28\<rparr> = \<lparr>ymd_year = 2028, ymd_month = 2, ymd_day = 29\<rparr> \<and>
    nanos_at_hour \<lparr>ymd_year = 2028, ymd_month = 2, ymd_day = 29\<rparr> 8 =
    nanos_at_hour \<lparr>ymd_year = 2028, ymd_month = 2, ymd_day = 28\<rparr> 8 + 86400000000000"
proof -
  have n: "next_day \<lparr>ymd_year = 2028, ymd_month = 2, ymd_day = 28\<rparr> = \<lparr>ymd_year = 2028, ymd_month = 2, ymd_day = 29\<rparr>"
    by (simp add: next_day_def last_day_def is_leap_def)
  have "ymd_ok \<lparr>ymd_year = 2028, ymd_month = 2, ymd_day = 28\<rparr>"
    by (simp add: ymd_ok_def last_day_def is_leap_def)
  from instants_follow_calendar [OF this, of 8] n show ?thesis by simp
qed

text \<open>C26: \<open>parse_expiry\<close> accepts exactly one or two day digits, an upper-case month name and two year
  digits that name a valid date, and yields 08:00 UTC on it.\<close>

theorem expiry_grammar:
  "parse_expiry str = Some n \<longleftrightarrow>
    (\<exists>dd m yy. expiry_parts dd m yy \<and> str = dd @ kMonths ! (m - 1) @ yy \<and>
       n = nanos_at_hour (expiry_date dd m yy) kDeribitExpiryHourUtc)"
  by (rule parse_expiry_iff)

text \<open>C27: every parsed expiry lies in 2000 to 2099, at eight hours into its day, and fits the 64-bit
  nanosecond count, so that the conversion never overflows.\<close>

theorem expiry_bounds:
  assumes "parse_expiry str = Some n"
  shows "946684800 * 1000000000 \<le> n \<and> n < 4102444800 * 1000000000 \<and> is_int64 n \<and>
    n mod (86400 * 1000000000) = 8 * 3600 * 1000000000"
  using parse_expiry_bounds [OF assms] by simp

theorem expiry_bounds_witness:
  "parse_expiry ''27JUN25'' = Some 1751011200000000000 \<and> is_int64 1751011200000000000"
  using expiry_bounds [OF sample_expiry] sample_expiry by simp

section \<open>Symbols\<close>

text \<open>C1: \<open>parse_symbol\<close> accepts exactly the four documented forms of an instrument name, and yields
  the identity the form describes.\<close>

theorem parse_symbol_correct: "parse_symbol str = Some key \<longleftrightarrow> symbol_form str key"
  by (rule parse_symbol_iff)

text \<open>C29: a parsed identity is well formed: its name is the text, it has no id yet, only an option
  has a strike, which is positive, an index or perpetual has no expiry, and a future or option has the
  expiry that the second part of its name spells: at eight hours into a day of the years 2000 to 2099.\<close>

theorem parsed_key_wellformed:
  assumes "parse_symbol str = Some key"
  shows "key_ok key \<and> symbol key = str \<and> key_id key = 0 \<and>
    (kind key \<in> {Future, Option} \<longrightarrow>
       parse_expiry (split str dash ! 1) = Some (expiry key) \<and> base_ccy key = split str dash ! 0 \<and>
       946684800 * 1000000000 \<le> expiry key \<and> expiry key < 4102444800 * 1000000000 \<and>
       expiry key mod (86400 * 1000000000) = 8 * 3600 * 1000000000)"
  using parse_symbol_ok [OF assms] dated_parts [OF assms] parse_expiry_bounds by blast

theorem parsed_key_wellformed_witness:
  "\<exists>key. parse_symbol ''BTC-27JUN25-100000-C'' = Some key \<and> key_ok key \<and> base_ccy key = ''BTC'' \<and>
    expiry key mod (86400 * 1000000000) = 8 * 3600 * 1000000000"
proof -
  let ?key = "default_key\<lparr>symbol := ''BTC-27JUN25-100000-C'', base_ccy := ''BTC'', kind := Option,
    expiry := 1751011200000000000, strike := double_of_int 100000, key_right := Call\<rparr>"
  have "parse_symbol ''BTC-27JUN25-100000-C'' = Some ?key"
    using parse_print_option [of "''BTC''" 25 6 27 100000 Call] sample_date_ok
    by (simp add: sample_option_text sample_date_nanos plain_def)
  from parsed_key_wellformed [OF this] this show ?thesis by auto
qed

text \<open>C14: printing the name of an option or of a dated future and parsing it gives the instrument back:
  underlying, date, and for an option the whole strike and the right.\<close>

theorem names_roundtrip:
  fixes a :: string and d m yy k :: nat
  defines "e \<equiv> nanos_at_hour \<lparr>ymd_year = int (2000 + yy), ymd_month = m, ymd_day = d\<rparr> kDeribitExpiryHourUtc"
  assumes "a \<noteq> []" and "plain a" and "yy < 100"
    and "ymd_ok \<lparr>ymd_year = int (2000 + yy), ymd_month = m, ymd_day = d\<rparr>"
    and "0 < k" and "k \<le> 2 ^ 53"
  shows "parse_symbol (print_option a d m yy k r) = Some (default_key\<lparr>symbol := print_option a d m yy k r,
      base_ccy := a, kind := Option, expiry := e, strike := double_of_int (int k), key_right := r\<rparr>) \<and>
    parse_symbol (print_future a d m yy) = Some (default_key\<lparr>symbol := print_future a d m yy,
      base_ccy := a, kind := Future, expiry := e\<rparr>)"
  using parse_print_option [OF assms(2-7), of r] parse_print_future [OF assms(2-5)] unfolding e_def by simp

theorem names_roundtrip_witness:
  "parse_symbol ''BTC-27JUN25-100000-C'' = Some (default_key\<lparr>symbol := ''BTC-27JUN25-100000-C'',
      base_ccy := ''BTC'', kind := Option, expiry := 1751011200000000000,
      strike := double_of_int 100000, key_right := Call\<rparr>) \<and>
    parse_symbol ''BTC-27JUN25'' = Some (default_key\<lparr>symbol := ''BTC-27JUN25'',
      base_ccy := ''BTC'', kind := Future, expiry := 1751011200000000000\<rparr>)"
  using names_roundtrip [of "''BTC''" 25 6 27 100000 Call] sample_date_ok
  by (simp add: sample_option_text sample_future_text sample_date_nanos plain_def)

text \<open>C31: unless it is infinite, the strike of a parsed option is a nearest binary64 number to the
  decimal that the third part of its name spells, whole, with a fraction, or with an exponent: that
  part is such a decimal, and no finite number is closer to its exact value.\<close>

theorem strike_nearest:
  assumes "parse_symbol str = Some key" and "kind key = Option" and "strike key = Finite s m e"
  shows "s = False \<and> (\<exists>n x. decimal_text (split str dash ! 2) n x) \<and>
    (\<forall>n x u m2 e2. decimal_text (split str dash ! 2) n x \<and> double_ok (Finite u m2 e2) \<longrightarrow>
       \<bar>magnitude m e - real n * 10 powi x\<bar> \<le> \<bar>magnitude m2 e2 - real n * 10 powi x\<bar>)"
proof (intro conjI allI impI)
  note part = option_strike_part [OF assms(1,2), unfolded assms(3)]
  show "s = False" using part(3) by simp
  show "\<exists>n x. decimal_text (split str dash ! 2) n x" by (rule parse_finite_text [OF part(1,2)]) blast
  fix n x u m2 e2
  assume a: "decimal_text (split str dash ! 2) n x \<and> double_ok (Finite u m2 e2)"
  with part(1) parse_decimal_text [of "split str dash ! 2" n x]
  have "decimal_value False n x = Finite s m e" by (auto split: if_splits)
  with a show "\<bar>magnitude m e - real n * 10 powi x\<bar> \<le> \<bar>magnitude m2 e2 - real n * 10 powi x\<bar>"
    using decimal_value_nearest by blast
qed

theorem strike_nearest_witness:
  "\<exists>key m e. parse_symbol ''BTC-27JUN25-0.1-C'' = Some key \<and> strike key = Finite False m e \<and>
    \<bar>magnitude m e - 1 / 10\<bar> \<le> \<bar>magnitude 7205759403792795 (-56) - 1 / 10\<bar>"
proof -
  have spelt: "decimal_text ''0.1'' 1 (- 1)"
    using decimal_text.fraction [of "''0''" "''1''" "[]" 0] exponent_text.no_exponent
    by (simp add: is_digit_def digits_val_def digit_val_def)
  have r: "decimal_value False 1 (- 1) = Finite False 7205759403792794 (-56)"
    by (simp add: decimal_value_def round_ratio_def round_exponent_def ratio_exponent_def nat_log2.simps
        scale_def round_half_even_def Let_def)
  have "parse_number from_chars_double ''0.1'' = Some (Finite False 7205759403792794 (-56))"
    using parse_decimal_text [OF spelt] r by simp
  then obtain key where k: "parse_symbol ''BTC-27JUN25-0.1-C'' = Some key" "kind key = Option"
      "strike key = Finite False 7205759403792794 (-56)"
    using parse_symbol_four [of "''BTC''" "''27JUN25''" "''0.1''" "''C''"] sample_expiry
    by (simp add: plain_def Let_def)
  have part: "split ''BTC-27JUN25-0.1-C'' dash ! 2 = ''0.1''" by (simp add: split_eq_ref)
  have "double_ok (Finite False 7205759403792795 (-56))" by simp
  with strike_nearest [OF k] spelt part
  have "\<bar>magnitude 7205759403792794 (-56) - real 1 * 10 powi (- 1)\<bar> \<le>
      \<bar>magnitude 7205759403792795 (-56) - real 1 * 10 powi (- 1)\<bar>" by metis
  with k show ?thesis by (auto simp: power_int_def)
qed

section \<open>Database rows\<close>

text \<open>C5: on a row that has the columns its type asks for, the mapping is the documented one: the symbol
  must be one of the forms, of the kind that the type column says, and the database's strike, right
  and expiry win.  A row that lacks one of those columns has no identity by the documentation
  (\<open>InstrumentRepository.hpp\<close>); the code diverges there and maps it as if the column held what the
  symbol says.\<close>

theorem row_mapping_contract:
  "(has_columns row \<longrightarrow> (to_instrument_key row = Some key \<longleftrightarrow> documented row key)) \<and>
    (\<not> has_columns row \<longrightarrow> \<not> documented row key) \<and>
    (to_instrument_key row = Some key \<longleftrightarrow>
      (\<exists>p. symbol_form (row_symbol row) p \<and> documented (fill_columns p row) key))"
  using to_instrument_key_complete documented_columns to_instrument_key_documented by blast

theorem row_mapping_contract_witness:
  "documented sample_row sample_key \<and> (\<forall>key. \<not> documented bare_future key) \<and>
    (\<exists>key. to_instrument_key bare_future = Some key)"
proof (intro conjI allI)
  have "has_columns sample_row" by (simp add: has_columns_def sample_row_def)
  with row_mapping_contract [of sample_row sample_key] sample_mapped
  show "documented sample_row sample_key" by simp
  show "\<not> documented bare_future key" for key
    using row_mapping_contract [of bare_future key] by (simp add: has_columns_def bare_future_def)
  show "\<exists>key. to_instrument_key bare_future = Some key" by (rule bare_future_mapped)
qed

text \<open>C39: an expiry that the database returns as whole epoch seconds becomes exactly that many
  nanoseconds, for the range up to the year 2116; nothing is lost to the floating-point product.\<close>

theorem epoch_seconds_exact:
  assumes "0 \<le> s" and "s \<le> 4611686018"
  shows "nanos_of_epoch_seconds (double_of_int s) = Defined (s * 1000000000)"
  by (rule nanos_of_whole_seconds [OF assms])

theorem epoch_seconds_exact_witness:
  "nanos_of_epoch_seconds (double_of_int 1751011200) = Defined 1751011200000000000"
  using epoch_seconds_exact [of 1751011200] by simp

text \<open>C13: \<open>load\<close> is all or nothing: it returns rows exactly when the connection, the query and the
  commit succeed and every record of the result converts, and then one row per record, in order.\<close>

theorem load_all_or_nothing:
  "load connect exec_params commit conninfo venue = Defined (Inr rows) \<longleftrightarrow>
    (\<exists>c recs. connect conninfo = Inr c \<and> exec_params c kInstrumentQuery venue = Inr recs \<and>
       commit c = Inr () \<and> list_all2 (\<lambda>rec row. load_record rec = Defined (Inr row)) recs rows)"
  by (auto simp: load_def load_records_iff split: sum.splits)

section \<open>The registry\<close>

text \<open>C10: in every reachable registry symbols are unique, ids are not zero, and both lookups agree
  with the list of entries: by id the first entry with that id, without ever leaving the vector,
  by symbol the id of the entry.\<close>

theorem registry_lookup:
  assumes "reachable_registry r"
  shows "distinct (map symbol (m_keys r)) \<and> 0 \<notin> key_id ` set (m_keys r) \<and>
    find_key r i = Defined (List.find (\<lambda>key. key_id key = i) (m_keys r)) \<and>
    by_symbol r s = map_option key_id (List.find (\<lambda>key. symbol key = s) (m_keys r))"
  using reachable_registry_inv [OF assms] reg.find_symbol_spec [OF reachable_registry_inv [OF assms]]
  by (simp add: registry_inv_def)

theorem registry_lookup_witness:
  "find_key sample_registry 7 = Defined (Some sample_key) \<and> by_symbol sample_registry ''btc_usd'' = Some 7 \<and>
    find_key sample_registry 8 = Defined None"
  using registry_lookup [OF sample_reachable, of 7 "''btc_usd''"] registry_lookup [OF sample_reachable, of 8]
  by (simp add: sample_registry_keys) (simp add: sample_key_def)

text \<open>\<open>add\<close> refuses a key without an id and a symbol it knows, appends any other key, and doing it
  again changes nothing and answers the same.\<close>

lemma register_idempotent:
  assumes "reachable_registry r"
  shows "m_keys (fst (add r key)) =
      (if key_id key = 0 \<or> symbol key \<in> symbol ` set (m_keys r) then m_keys r else m_keys r @ [key]) \<and>
    add (fst (add r key)) key = (fst (add r key), snd (add r key))"
proof -
  have inv: "registry_inv r" by (rule reachable_registry_inv [OF assms])
  have "add (fst (add r key)) key = (fst (add r key), snd (add r key))"
    by (cases "m_by_symbol r (symbol key)") (simp_all add: add_def by_symbol_def emplace_def Let_def)
  with reg.entries_insert [OF inv, of key] show ?thesis by simp
qed

text \<open>C22: the subscription is the stable sort of the subscribed instruments by kind: the index
  channels, then the futures', then the options', each group in the order of registration; and no
  channel is subscribed twice.\<close>

theorem subscription_in_order:
  assumes "reachable_registry r"
  shows "subscription_channels r interval =
      map (\<lambda>key. channel_for key interval) (sort_key kind (filter subscribed (m_keys r))) \<and>
    distinct (subscription_channels r interval)"
proof -
  have "distinct (map symbol (m_keys r))"
    using reachable_registry_inv [OF assms] by (simp add: registry_inv_def)
  then have "distinct (subscription_channels r interval)"
    unfolding subscription_channels_eq by (rule distinct_channels)
  then show ?thesis by (simp add: subscription_channels_eq subscription_order_sort)
qed

theorem subscription_in_order_witness:
  "subscription_channels sample_registry ''100ms'' = [''deribit_price_index.btc_usd''] \<and>
    distinct (subscription_channels sample_registry ''100ms'')"
  using subscription_in_order [OF sample_reachable, of "''100ms''"]
  by (simp add: sample_registry_keys)
    (simp add: sample_key_def channel_for_def kIndexChannelPrefix_def subscribed_def)

section \<open>The codec\<close>



text \<open>C12: either decoder runs into undefined behaviour exactly on a timestamp whose conversion does: a double
  outside the 64-bit range, or milliseconds whose nanoseconds overflow.\<close>

theorem decode_undefined_iff:
  defines "bad J data \<equiv> \<exists>v. if_contains J data ''timestamp'' = Some v \<and>
      (millis_of J v = Undefined \<or> (\<exists>m. millis_of J v = Defined (Some m) \<and> is_int64 (m * 1000000) = False))"
  shows "(decode_ticker J data i recv = Undefined \<longleftrightarrow> bad J data) \<and>
    (decode_index J data i recv = Undefined \<longleftrightarrow> bad J data)"
  unfolding bad_def
  by (auto simp: decode_ticker_def decode_index_def decode_priced_Undefined_iff payload_millis_def
      split: option.splits)

text \<open>C32: a timestamp in whole milliseconds, sent as an integer or as a number with a fraction part of
  zero, becomes exactly that many nanoseconds, for the range from 1677 to 2262.\<close>

theorem timestamp_exact:
  assumes "if_contains J data ''timestamp'' = Some v" and "\<bar>i\<bar> \<le> 9223372036854"
    and "map_option sint (if_int64 J v) = Some i \<or>
      if_int64 J v = None \<and> if_uint64 J v = None \<and> if_double J v = Some (double_of_int i)"
  shows "timestamp_ms J data = Defined (Some (i * 1000000))"
proof -
  have "int64_of_double (double_of_int i) = Defined i"
    using assms(2) by (intro int64_of_double_of_int) simp
  then have "millis_of J v = Defined (Some i)"
    using assms(3) by (auto simp: millis_of_def)
  moreover have "is_int64 (i * 1000000)" using assms(2) unfolding int64_defs abs_le_iff by linarith
  ultimately show ?thesis using assms(1) by (simp add: timestamp_ms_def checked_int64_def)
qed

theorem timestamp_exact_witness:
  "timestamp_ms sample_json [(''timestamp'', JDouble (double_of_int 1751011200123))] =
    Defined (Some 1751011200123000000)"
  using timestamp_exact [of sample_json "[(''timestamp'', JDouble (double_of_int 1751011200123))]"
      "JDouble (double_of_int 1751011200123)" 1751011200123]
  by (simp add: sample_json_def)

section \<open>Corner cases the code admits\<close>

text \<open>An infinite strike passes the guard \<open>*strike > 0.0\<close>.\<close>

lemma parse_inf: "parse_number from_chars_double ''inf'' = Some (Infinite False)"
proof -
  have "length (to_upper (take (length ''infinity'') ''inf'')) \<noteq> length (to_upper ''infinity'')"
    by (simp add: to_upper_def)
  then have "to_upper (take (length ''infinity'') ''inf'') \<noteq> to_upper ''infinity''" by metis
  then have "strip_prefix_ci ''infinity'' ''inf'' = None" by (simp only: strip_prefix_ci_def if_False)
  then show ?thesis by (simp add: parse_number_def from_chars_double_def) (simp add: strip_prefix_ci_def)
qed

lemma infinite_strike_accepted:
  "\<exists>key. parse_symbol ''BTC-27JUN25-inf-C'' = Some key \<and> strike key = Infinite False"
  using parse_symbol_four [of "''BTC''" "''27JUN25''" "''inf''" "''C''"] sample_expiry parse_inf
  by (simp add: plain_def Let_def)

text \<open>A day with a leading zero names the same expiry as the day without.\<close>

lemma leading_zero_day_accepted: "parse_expiry ''04SEP26'' = parse_expiry ''4SEP26''"
  and "parse_expiry ''4SEP26'' \<noteq> None"
proof -
  let ?n = "nanos_at_hour (expiry_date ''4'' 9 ''26'') kDeribitExpiryHourUtc"
  have p: "expiry_parts ''4'' 9 ''26''" "expiry_parts ''04'' 9 ''26''"
    by (simp_all add: expiry_parts_def expiry_date_def is_digit_def digits_val_def digit_val_def
        ymd_ok_def last_day_def)
  have same: "expiry_date ''04'' 9 ''26'' = expiry_date ''4'' 9 ''26''"
    by (simp add: expiry_date_def digits_val_def digit_val_def)
  have "''4SEP26'' = ''4'' @ kMonths ! (9 - 1) @ ''26''" and "''04SEP26'' = ''04'' @ kMonths ! (9 - 1) @ ''26''"
    by (simp_all add: kMonths_def)
  then have "parse_expiry ''4SEP26'' = Some ?n" and "parse_expiry ''04SEP26'' = Some ?n"
    using p same unfolding parse_expiry_iff by metis+
  then show "parse_expiry ''04SEP26'' = parse_expiry ''4SEP26''" and "parse_expiry ''4SEP26'' \<noteq> None"
    by simp_all
qed

text \<open>Two symbols with one id: the second is found by its symbol, but its id finds the first.\<close>

lemma duplicate_id_shadowed:
  fixes other :: instrument_key
  assumes "key_id other = 7" and "symbol other \<noteq> ''btc_usd''"
  shows "by_symbol (fst (add sample_registry other)) (symbol other) = Some 7 \<and>
    find_key (fst (add sample_registry other)) 7 = Defined (Some sample_key)"
proof -
  have inv: "registry_inv sample_registry" by (rule reachable_registry_inv [OF sample_reachable])
  have "m_keys (fst (add sample_registry other)) = [sample_key, other]"
    using reg.entries_insert [OF inv, of other] assms by (simp add: sample_registry_keys sample_key_def)
  then show ?thesis
    using reg.find_id_spec [OF reg.inv_insert [OF inv], of other 7]
      reg.find_symbol_spec [OF reg.inv_insert [OF inv], of other "symbol other"] assms
    by (simp add: sample_key_def)
qed

end
