(* ===== verification/Blocking_Queue.thy ===== *)
theory Blocking_Queue
  imports Prelude
begin

text \<open>
  \<open>queue/BlockingQueue.hpp\<close>, one operation at a time: each definition is the body that runs with
  \<open>m_mutex\<close> held.  Blocking, the condition variable and the interleaving of threads are in
  \<open>Queue_Threads\<close>.  \<open>pop_front\<close> on an empty deque is undefined behaviour, which \<open>push\<close> reaches
  exactly when the capacity is zero.  \<open>drop_oldest_queue\<close> is the interface its clients use.
\<close>

section \<open>Operations\<close>

record 'a bqueue =
  m_items :: "'a list"
  m_capacity :: "64 word"
  m_dropped :: "64 word"
  m_closed :: bool

definition new_queue :: "64 word \<Rightarrow> 'a bqueue" where
  "new_queue capacity = \<lparr>m_items = [], m_capacity = capacity, m_dropped = 0, m_closed = False\<rparr>"

definition pop_front :: "'a list \<Rightarrow> 'a list cxx" where
  "pop_front xs = (case xs of [] \<Rightarrow> Undefined | _ # rest \<Rightarrow> Defined rest)"

definition push :: "'a bqueue \<Rightarrow> 'a \<Rightarrow> ('a bqueue \<times> bool) cxx" where
  "push q item =
     (if m_closed q then Defined (q, False)
      else if unat (m_capacity q) \<le> length (m_items q) then
        bind_cxx (pop_front (m_items q)) (\<lambda>rest.
          Defined (q\<lparr>m_items := rest @ [item], m_dropped := m_dropped q + 1\<rparr>, False))
      else Defined (q\<lparr>m_items := m_items q @ [item]\<rparr>, True))"

text \<open>The predicate of the wait in \<open>pop\<close>, and what follows it.\<close>

definition pop_ready :: "'a bqueue \<Rightarrow> bool" where
  "pop_ready q \<longleftrightarrow> m_items q \<noteq> [] \<or> m_closed q"

definition pop_body :: "'a bqueue \<Rightarrow> 'a bqueue \<times> 'a option" where
  "pop_body q = (case m_items q of [] \<Rightarrow> (q, None) | x # rest \<Rightarrow> (q\<lparr>m_items := rest\<rparr>, Some x))"

definition close :: "'a bqueue \<Rightarrow> 'a bqueue" where
  "close q = q\<lparr>m_closed := True\<rparr>"

definition dropped :: "'a bqueue \<Rightarrow> 64 word" where "dropped q = m_dropped q"
definition queue_size :: "'a bqueue \<Rightarrow> nat" where "queue_size q = length (m_items q)"
definition closed :: "'a bqueue \<Rightarrow> bool" where "closed q = m_closed q"

section \<open>The interface of a queue that drops its oldest item\<close>

fun push_list :: "('q \<Rightarrow> 'a \<Rightarrow> ('q \<times> bool) cxx) \<Rightarrow> 'q \<Rightarrow> 'a list \<Rightarrow> 'q cxx" where
  "push_list p q [] = Defined q"
| "push_list p q (x # xs) = bind_cxx (p q x) (\<lambda>(q', _). push_list p q' xs)"

text \<open>At most \<open>n\<close> pops, until one finds the queue empty.\<close>

fun pop_list :: "('q \<Rightarrow> 'q \<times> 'a option) \<Rightarrow> nat \<Rightarrow> 'q \<Rightarrow> 'q \<times> 'a list" where
  "pop_list p 0 q = (q, [])"
| "pop_list p (Suc n) q =
     (case p q of (q', None) \<Rightarrow> (q', [])
      | (q', Some x) \<Rightarrow> (let (q'', xs) = pop_list p n q' in (q'', x # xs)))"

locale drop_oldest_queue =
  fixes items :: "'q \<Rightarrow> 'a list"
    and cap :: "'q \<Rightarrow> nat"
    and drops :: "'q \<Rightarrow> 64 word"
    and is_closed :: "'q \<Rightarrow> bool"
    and inv :: "'q \<Rightarrow> bool"
    and enq :: "'q \<Rightarrow> 'a \<Rightarrow> ('q \<times> bool) cxx"
    and deq :: "'q \<Rightarrow> 'q \<times> 'a option"
    and shut :: "'q \<Rightarrow> 'q"
  assumes inv_bound: "inv q \<Longrightarrow> length (items q) \<le> cap q \<and> 0 < cap q"
    and enq_closed: "is_closed q \<Longrightarrow> enq q x = Defined (q, False)"
    and enq_room: "inv q \<Longrightarrow> \<not> is_closed q \<Longrightarrow> length (items q) < cap q \<Longrightarrow>
      \<exists>q'. enq q x = Defined (q', True) \<and> inv q' \<and> items q' = items q @ [x] \<and> cap q' = cap q \<and>
        drops q' = drops q \<and> \<not> is_closed q'"
    and enq_full: "inv q \<Longrightarrow> \<not> is_closed q \<Longrightarrow> length (items q) = cap q \<Longrightarrow>
      \<exists>q'. enq q x = Defined (q', False) \<and> inv q' \<and> items q' = tl (items q) @ [x] \<and> cap q' = cap q \<and>
        drops q' = drops q + 1 \<and> \<not> is_closed q'"
    and deq_empty: "items q = [] \<Longrightarrow> deq q = (q, None)"
    and deq_item: "items q = x # xs \<Longrightarrow> \<exists>q'. deq q = (q', Some x) \<and> items q' = xs \<and> cap q' = cap q \<and>
        drops q' = drops q \<and> is_closed q' = is_closed q \<and> (inv q \<longrightarrow> inv q')"
    and shut_spec: "items (shut q) = items q \<and> cap (shut q) = cap q \<and> drops (shut q) = drops q \<and>
        is_closed (shut q) \<and> (inv q \<longrightarrow> inv (shut q))"
begin

lemma enq_open:
  assumes "inv q" and "\<not> is_closed q"
  obtains q' where "enq q x = Defined (q', length (items q) < cap q)" and "inv q'"
    and "items q' = (if length (items q) < cap q then items q else tl (items q)) @ [x]"
    and "cap q' = cap q" and "\<not> is_closed q'"
    and "drops q' = drops q + (if length (items q) < cap q then 0 else 1)"
proof (cases "length (items q) < cap q")
  case True
  then show thesis using enq_room [OF assms, of x] that by auto
next
  case False
  then have "length (items q) = cap q" using inv_bound [OF assms(1)] by simp
  then show thesis using enq_full [OF assms, of x] that by auto
qed

lemma enq_defined:
  assumes "inv q"
  shows "\<exists>q' b. enq q x = Defined (q', b) \<and> inv q'"
proof (cases "is_closed q")
  case True
  with assms show ?thesis by (auto simp: enq_closed)
next
  case False
  with assms show ?thesis by (metis enq_open)
qed

text \<open>
  The newest items survive: after pushing a list, an open queue holds the last \<open>cap\<close> items of what
  it held followed by what was pushed, and everything before them is counted as dropped.
\<close>

lemma push_list_newest:
  assumes "inv q" and "\<not> is_closed q"
  shows "\<exists>q'. push_list enq q xs = Defined q' \<and> inv q' \<and> \<not> is_closed q' \<and> cap q' = cap q \<and>
    items q' = drop (length (items q) + length xs - cap q) (items q @ xs) \<and>
    drops q' = drops q + of_nat (length (items q) + length xs - cap q)"
  using assms
proof (induction xs arbitrary: q)
  case Nil
  then show ?case using inv_bound [of q] by simp
next
  case (Cons x xs)
  obtain q1 where q1: "enq q x = Defined (q1, length (items q) < cap q)" "inv q1"
    "items q1 = (if length (items q) < cap q then items q else tl (items q)) @ [x]"
    "cap q1 = cap q" "\<not> is_closed q1"
    "drops q1 = drops q + (if length (items q) < cap q then 0 else 1)"
    using enq_open [OF Cons.prems, of x] by blast
  obtain q' where q': "push_list enq q1 xs = Defined q'" "inv q'" "\<not> is_closed q'" "cap q' = cap q1"
    "items q' = drop (length (items q1) + length xs - cap q1) (items q1 @ xs)"
    "drops q' = drops q1 + of_nat (length (items q1) + length xs - cap q1)"
    using Cons.IH [OF q1(2,5)] by blast
  note bound = inv_bound [OF Cons.prems(1)]
  show ?case
  proof (cases "length (items q) < cap q")
    case True
    then have "items q1 = items q @ [x]" and "drops q1 = drops q" using q1(3,6) by simp_all
    with q1(1,4) q' show ?thesis by simp
  next
    case False
    with bound have full: "length (items q) = cap q" and "0 < cap q" by simp_all
    then obtain y ys where y: "items q = y # ys" by (cases "items q") auto
    have "items q1 = ys @ [x]" and "drops q1 = drops q + 1" using q1(3,6) False y by simp_all
    moreover have "Suc (length ys) = cap q" using full y by simp
    moreover have "items q' = drop (length (items q) + length (x # xs) - cap q) (items q @ x # xs)"
      using q'(5) calculation y q1(4) by simp
    moreover have "drops q' = drops q + of_nat (length (items q) + length (x # xs) - cap q)"
      using q'(6) calculation(1-3) y q1(4) by simp
    ultimately show ?thesis using q1(1,4) q'(1-4) by simp
  qed
qed

text \<open>Popping returns the items in order, and enough pops empty the queue.\<close>

lemma pop_list_all:
  assumes "length (items q) < n"
  shows "\<exists>q'. pop_list deq n q = (q', items q) \<and> items q' = [] \<and> cap q' = cap q \<and>
    drops q' = drops q \<and> is_closed q' = is_closed q"
  using assms
proof (induction n arbitrary: q)
  case (Suc n)
  show ?case
  proof (cases "items q")
    case Nil
    then show ?thesis by (simp add: deq_empty)
  next
    case (Cons x xs)
    obtain q1 where q1: "deq q = (q1, Some x)" "items q1 = xs" "cap q1 = cap q" "drops q1 = drops q"
      "is_closed q1 = is_closed q"
      using deq_item [OF Cons] by blast
    then show ?thesis using Suc.IH [of q1] Suc.prems Cons by (auto simp: split: prod.splits)
  qed
qed simp

lemma shut_push_list: "is_closed q \<Longrightarrow> push_list enq q xs = Defined q"
  by (induction xs) (auto simp: enq_closed)

end

section \<open>BlockingQueue implements the interface\<close>

definition queue_inv :: "'a bqueue \<Rightarrow> bool" where
  "queue_inv q \<longleftrightarrow> length (m_items q) \<le> unat (m_capacity q) \<and> 0 < unat (m_capacity q)"

definition capacity_of :: "'a bqueue \<Rightarrow> nat" where
  "capacity_of q = unat (m_capacity q)"

lemma push_closed: "m_closed q \<Longrightarrow> push q x = Defined (q, False)"
  by (simp add: push_def)

lemma push_full:
  assumes "queue_inv q" and "\<not> m_closed q" and "length (m_items q) = capacity_of q"
  shows "push q x = Defined (q\<lparr>m_items := tl (m_items q) @ [x], m_dropped := m_dropped q + 1\<rparr>, False)"
  using assms by (cases "m_items q") (auto simp: push_def pop_front_def queue_inv_def capacity_of_def)

lemma push_room:
  assumes "\<not> m_closed q" and "length (m_items q) < capacity_of q"
  shows "push q x = Defined (q\<lparr>m_items := m_items q @ [x]\<rparr>, True)"
  using assms by (simp add: push_def capacity_of_def)

interpretation bq: drop_oldest_queue m_items capacity_of dropped closed queue_inv push pop_body close
proof unfold_locales
  fix q :: "'a bqueue" and x :: 'a and xs :: "'a list"
  show "queue_inv q \<Longrightarrow> length (m_items q) \<le> capacity_of q \<and> 0 < capacity_of q"
    by (simp add: queue_inv_def capacity_of_def)
  show "closed q \<Longrightarrow> push q x = Defined (q, False)"
    by (simp add: closed_def push_closed)
  show "queue_inv q \<Longrightarrow> \<not> closed q \<Longrightarrow> length (m_items q) < capacity_of q \<Longrightarrow>
      \<exists>q'. push q x = Defined (q', True) \<and> queue_inv q' \<and> m_items q' = m_items q @ [x] \<and>
        capacity_of q' = capacity_of q \<and> dropped q' = dropped q \<and> \<not> closed q'"
    by (auto simp: closed_def push_room queue_inv_def capacity_of_def dropped_def)
  show "queue_inv q \<Longrightarrow> \<not> closed q \<Longrightarrow> length (m_items q) = capacity_of q \<Longrightarrow>
      \<exists>q'. push q x = Defined (q', False) \<and> queue_inv q' \<and> m_items q' = tl (m_items q) @ [x] \<and>
        capacity_of q' = capacity_of q \<and> dropped q' = dropped q + 1 \<and> \<not> closed q'"
    by (auto simp: closed_def push_full queue_inv_def capacity_of_def dropped_def)
  show "m_items q = [] \<Longrightarrow> pop_body q = (q, None)"
    by (simp add: pop_body_def)
  show "m_items q = x # xs \<Longrightarrow> \<exists>q'. pop_body q = (q', Some x) \<and> m_items q' = xs \<and>
      capacity_of q' = capacity_of q \<and> dropped q' = dropped q \<and> closed q' = closed q \<and>
      (queue_inv q \<longrightarrow> queue_inv q')"
    by (auto simp: pop_body_def capacity_of_def dropped_def closed_def queue_inv_def)
  show "m_items (close q) = m_items q \<and> capacity_of (close q) = capacity_of q \<and>
      dropped (close q) = dropped q \<and> closed (close q) \<and> (queue_inv q \<longrightarrow> queue_inv (close q))"
    by (simp add: close_def capacity_of_def dropped_def closed_def queue_inv_def)
qed

lemma new_queue_inv: "0 < unat capacity \<Longrightarrow> queue_inv (new_queue capacity)"
  by (simp add: queue_inv_def new_queue_def)

lemma push_capacity_zero:
  "push (new_queue 0) x = Undefined"
  by (simp add: push_def new_queue_def pop_front_def)

end
