(* ===== verification/Transitions.thy ===== *)
theory Transitions
  imports Prelude
begin

text \<open>
  Step relations of the concurrent components: the states reachable from an initial one,
  runs that must end, and four contracts: a property that steps preserve and, resting on it, an
  inductive invariant, a refinement mapping, and a measure that every step decreases.  The queue (\<open>Queue_Threads\<close>, \<open>Queue_Linear\<close>) and the sink thread
  (\<open>Sinks\<close>) interpret them.
\<close>

section \<open>Reachable states and their invariants\<close>

inductive reachable :: "('s \<Rightarrow> bool) \<Rightarrow> ('s \<Rightarrow> 's \<Rightarrow> bool) \<Rightarrow> 's \<Rightarrow> bool"
  for init :: "'s \<Rightarrow> bool" and step :: "'s \<Rightarrow> 's \<Rightarrow> bool" where
  start: "init s \<Longrightarrow> reachable init step s"
| step: "reachable init step s \<Longrightarrow> step s s' \<Longrightarrow> reachable init step s'"

locale step_invariant =
  fixes step :: "'s \<Rightarrow> 's \<Rightarrow> bool"
    and inv :: "'s \<Rightarrow> bool"
  assumes preserved: "inv s \<Longrightarrow> step s s' \<Longrightarrow> inv s'"
begin

lemma run_inv: "step\<^sup>*\<^sup>* s s' \<Longrightarrow> inv s \<Longrightarrow> inv s'"
  by (induction rule: rtranclp_induct) (auto intro: preserved)

end

locale inductive_invariant = step_invariant step inv
  for init :: "'s \<Rightarrow> bool"
    and step :: "'s \<Rightarrow> 's \<Rightarrow> bool"
    and inv :: "'s \<Rightarrow> bool" +
  assumes holds_initially: "init s \<Longrightarrow> inv s"
begin

lemma reachable_inv: "reachable init step s \<Longrightarrow> inv s"
  by (induction rule: reachable.induct) (auto intro: holds_initially preserved)

end

lemma reachable_run: "step\<^sup>*\<^sup>* s s' \<Longrightarrow> reachable init step s \<Longrightarrow> reachable init step s'"
  by (induction rule: rtranclp_induct) (auto intro: reachable.step)

section \<open>Refinement mappings\<close>

text \<open>
  A step of the concrete system, taken where its invariant holds, is a step of the abstract one or
  leaves the abstract state alone; then the abstraction of a reachable state is reachable.
\<close>

locale refinement_mapping = inductive_invariant init step inv
  for init :: "'s \<Rightarrow> bool"
    and step :: "'s \<Rightarrow> 's \<Rightarrow> bool"
    and inv :: "'s \<Rightarrow> bool" +
  fixes ainit :: "'a \<Rightarrow> bool"
    and astep :: "'a \<Rightarrow> 'a \<Rightarrow> bool"
    and abs :: "'s \<Rightarrow> 'a"
  assumes abs_init: "init s \<Longrightarrow> ainit (abs s)"
    and abs_step: "inv s \<Longrightarrow> step s s' \<Longrightarrow> abs s' = abs s \<or> astep (abs s) (abs s')"
begin

lemma reachable_abs: "reachable init step s \<Longrightarrow> reachable ainit astep (abs s)"
proof (induction rule: reachable.induct)
  case (start s)
  then show ?case by (auto intro: reachable.start abs_init)
next
  case (step s s')
  from abs_step [OF reachable_inv [OF step.hyps(1)] step.hyps(2)] step.IH show ?case
    by (auto intro: reachable.step)
qed

lemma run_abs: "step\<^sup>*\<^sup>* s s' \<Longrightarrow> inv s \<Longrightarrow> astep\<^sup>*\<^sup>* (abs s) (abs s')"
proof (induction rule: rtranclp_induct)
  case (step s1 s2)
  then have "inv s1" by (auto intro: run_inv)
  from abs_step [OF this step.hyps(2)] step show ?case by auto
qed simp

end

section \<open>Runs that must end\<close>

definition stuck :: "('s \<Rightarrow> 's \<Rightarrow> bool) \<Rightarrow> 's \<Rightarrow> bool" where
  "stuck step s \<longleftrightarrow> (\<forall>s'. \<not> step s s')"

text \<open>Every run from \<open>s\<close> ends, and where it ends \<open>P\<close> holds.\<close>

definition inevitably :: "('s \<Rightarrow> 's \<Rightarrow> bool) \<Rightarrow> 's \<Rightarrow> ('s \<Rightarrow> bool) \<Rightarrow> bool" where
  "inevitably step s P \<longleftrightarrow> (\<exists>b. \<forall>n s'. (step ^^ n) s s' \<longrightarrow> n \<le> b) \<and>
     (\<forall>s'. step\<^sup>*\<^sup>* s s' \<longrightarrow> stuck step s' \<longrightarrow> P s')"

lemma inevitably_reached:
  assumes "inevitably step s P"
  obtains s' where "step\<^sup>*\<^sup>* s s'" and "stuck step s'" and "P s'"
proof -
  obtain b where b: "\<And>n s'. (step ^^ n) s s' \<Longrightarrow> n \<le> b" using assms by (auto simp: inevitably_def)
  have "\<exists>s'. (step ^^ 0) s s'" by simp
  then obtain n where n: "\<exists>s'. (step ^^ n) s s'" and top: "\<And>m. \<exists>s'. (step ^^ m) s s' \<Longrightarrow> m \<le> n"
    using GreatestI_nat [of "\<lambda>n. \<exists>s'. (step ^^ n) s s'" 0 b]
      Greatest_le_nat [of "\<lambda>n. \<exists>s'. (step ^^ n) s s'" _ b] b by metis
  from n obtain s' where run: "(step ^^ n) s s'" by blast
  have "stuck step s'"
    unfolding stuck_def
  proof (intro allI notI)
    fix s'' assume "step s' s''"
    with run have "(step ^^ Suc n) s s''" by (rule relpowp_Suc_I)
    then have "Suc n \<le> n" by (intro top exI)
    then show False by simp
  qed
  with run that assms show thesis by (auto simp: inevitably_def dest: relpowp_imp_rtranclp)
qed

lemma inevitably_mono: "inevitably step s P \<Longrightarrow> (\<And>s'. P s' \<Longrightarrow> Q s') \<Longrightarrow> inevitably step s Q"
  by (auto simp: inevitably_def)

locale decreasing_steps = step_invariant step inv
  for step :: "'s \<Rightarrow> 's \<Rightarrow> bool"
    and inv :: "'s \<Rightarrow> bool" +
  fixes weight :: "'s \<Rightarrow> nat"
  assumes decreases: "inv s \<Longrightarrow> step s s' \<Longrightarrow> weight s' < weight s"
begin

lemma run_bound: "(step ^^ n) s s' \<Longrightarrow> inv s \<Longrightarrow> inv s' \<and> n + weight s' \<le> weight s"
proof (induction n arbitrary: s')
  case (Suc n)
  then obtain s1 where "(step ^^ n) s s1" and "step s1 s'" by auto
  with Suc preserved [of s1 s'] decreases [of s1 s'] show ?case by fastforce
qed simp

lemma inevitable:
  assumes "inv s" and "\<And>s'. inv s' \<Longrightarrow> stuck step s' \<Longrightarrow> P s'"
  shows "inevitably step s P"
  unfolding inevitably_def
proof (intro conjI allI impI)
  have "\<forall>n s'. (step ^^ n) s s' \<longrightarrow> n \<le> weight s"
    using run_bound assms(1) by (meson add_leD1)
  then show "\<exists>b. \<forall>n s'. (step ^^ n) s s' \<longrightarrow> n \<le> b" ..
next
  fix s' assume "step\<^sup>*\<^sup>* s s'" and "stuck step s'"
  with assms run_inv show "P s'" by blast
qed

end

section \<open>Per-thread sums\<close>

text \<open>Threads are numbered below \<open>N\<close>; a sum over them changes at the thread that moves.\<close>

lemma sum_threads_update:
  fixes f :: "'p \<Rightarrow> nat" and N :: nat
  assumes "t < N"
  shows "(\<Sum>u<N. f ((pc(t := p)) u)) + f (pc t) = (\<Sum>u<N. f (pc u)) + f p"
proof -
  have "(\<Sum>u<N. f (g u)) = f (g t) + (\<Sum>u\<in>{..<N} - {t}. f (g u))" for g :: "nat \<Rightarrow> 'p"
    using assms by (simp add: sum.remove)
  from this [of "pc(t := p)"] this [of pc] show ?thesis by simp
qed

lemma sum_threads_positive:
  fixes f :: "'p \<Rightarrow> nat" and N :: nat
  assumes "0 < (\<Sum>u<N. f (pc u))"
  obtains u where "u < N" and "0 < f (pc u)"
proof -
  have "\<exists>u<N. 0 < f (pc u)"
  proof (rule ccontr)
    assume "\<not> ?thesis"
    then have "(\<Sum>u<N. f (pc u)) = 0" by simp
    with assms show False by simp
  qed
  then show thesis using that by blast
qed

end
