(* ===== verification/Queue_Threads.thy ===== *)
theory Queue_Threads
  imports Blocking_Queue Transitions
begin

text \<open>
  The concurrency of \<open>queue/BlockingQueue.hpp\<close>: any number of threads call \<open>push\<close>, \<open>pop\<close>,
  \<open>close\<close> and the three observers, and a step of the machine is one thread taking the mutex,
  running its critical section (one operation of \<open>Blocking_Queue\<close>) and releasing the mutex,
  signalling the condition variable, or waking up.  \<open>notify_one\<close> wakes any one waiter (or nobody
  when nobody waits), \<open>notify_all\<close> wakes all, and a waiter may wake spuriously.  The ghost fields
  record the accepted items and how each item left the queue.
\<close>

section \<open>State\<close>

datatype stat = Dropped | Size | Closed

datatype 'a outcome = Pushed bool | Popped "'a option" | Shut | Count nat | Flag bool

text \<open>
  Where a thread stands.  \<open>PushLock\<close>, \<open>PopLock\<close>, \<open>CloseLock\<close> and \<open>StatLock\<close> wait for the mutex;
  \<open>PushCrit\<close>, \<open>PopCheck\<close>, \<open>CloseCrit\<close> and \<open>StatCrit\<close> hold it; \<open>PopWait\<close> is blocked in \<open>wait\<close>.
\<close>

datatype 'a pc =
  Idle
| Returned "'a outcome"
| PushLock 'a | PushCrit 'a | PushNotify bool
| PopLock | PopCheck | PopWait
| CloseLock | CloseCrit | CloseNotify
| StatLock stat | StatCrit stat

fun outside :: "'a pc \<Rightarrow> bool" where
  "outside Idle = True"
| "outside (Returned _) = True"
| "outside _ = False"

fun entry :: "'a pc \<Rightarrow> bool" where
  "entry (PushLock _) = True"
| "entry PopLock = True"
| "entry CloseLock = True"
| "entry (StatLock _) = True"
| "entry _ = False"

text \<open>What a thread that waits for the mutex continues with once it has it.\<close>

fun locked :: "'a pc \<Rightarrow> 'a pc option" where
  "locked (PushLock x) = Some (PushCrit x)"
| "locked PopLock = Some PopCheck"
| "locked CloseLock = Some CloseCrit"
| "locked (StatLock k) = Some (StatCrit k)"
| "locked _ = None"

record 'a qstate =
  que :: "'a bqueue"
  owner :: "nat option"
  pcs :: "nat \<Rightarrow> 'a pc"
  crashed :: bool
  accepted :: "'a list"
  removed :: "(bool \<times> 'a) list"

definition initial :: "64 word \<Rightarrow> 'a qstate" where
  "initial capacity = \<lparr>que = new_queue capacity, owner = None, pcs = (\<lambda>_. Idle), crashed = False,
     accepted = [], removed = []\<rparr>"

section \<open>Steps\<close>

definition goto :: "nat \<Rightarrow> 'a pc \<Rightarrow> 'a qstate \<Rightarrow> 'a qstate" where
  "goto t p s = s\<lparr>pcs := (pcs s)(t := p)\<rparr>"

definition release :: "nat \<Rightarrow> 'a pc \<Rightarrow> 'a qstate \<Rightarrow> 'a qstate" where
  "release t p s = (goto t p s)\<lparr>owner := None\<rparr>"

definition acquire :: "nat \<Rightarrow> 'a pc \<Rightarrow> 'a qstate \<Rightarrow> 'a qstate" where
  "acquire t p s = (goto t p s)\<lparr>owner := Some t\<rparr>"

text \<open>The block of \<open>push\<close> under the lock; a closed queue returns without notifying.\<close>

definition push_locked :: "nat \<Rightarrow> 'a \<Rightarrow> 'a qstate \<Rightarrow> 'a qstate" where
  "push_locked t x s =
     (case push (que s) x of
        Undefined \<Rightarrow> s\<lparr>crashed := True\<rparr>
      | Defined (q, r) \<Rightarrow>
          if m_closed (que s) then release t (Returned (Pushed r)) (s\<lparr>que := q\<rparr>)
          else release t (PushNotify r) (s\<lparr>que := q, accepted := accepted s @ [x],
                 removed := removed s @ (if r then [] else [(True, hd (m_items (que s)))])\<rparr>))"

definition pop_locked :: "nat \<Rightarrow> 'a qstate \<Rightarrow> 'a qstate" where
  "pop_locked t s =
     (if pop_ready (que s) then
        (let (q, out) = pop_body (que s) in
         release t (Returned (Popped out)) (s\<lparr>que := q,
           removed := removed s @ (case out of None \<Rightarrow> [] | Some x \<Rightarrow> [(False, x)])\<rparr>))
      else release t PopWait s)"

definition close_locked :: "nat \<Rightarrow> 'a qstate \<Rightarrow> 'a qstate" where
  "close_locked t s = release t CloseNotify (s\<lparr>que := close (que s)\<rparr>)"

fun observe :: "stat \<Rightarrow> 'a bqueue \<Rightarrow> 'a outcome" where
  "observe Dropped q = Count (unat (dropped q))"
| "observe Size q = Count (queue_size q)"
| "observe Closed q = Flag (closed q)"

definition stat_locked :: "nat \<Rightarrow> stat \<Rightarrow> 'a qstate \<Rightarrow> 'a qstate" where
  "stat_locked t k s = release t (Returned (observe k (que s))) s"

definition wake_all :: "(nat \<Rightarrow> 'a pc) \<Rightarrow> nat \<Rightarrow> 'a pc" where
  "wake_all p = (\<lambda>u. case p u of PopWait \<Rightarrow> PopLock | other \<Rightarrow> other)"

text \<open>
  \<open>istep N\<close> is a step of one of the threads below \<open>N\<close> inside its call; \<open>qstep N\<close> adds the steps
  of the environment, a new call and a spurious wake-up.
\<close>

inductive istep :: "nat \<Rightarrow> 'a qstate \<Rightarrow> 'a qstate \<Rightarrow> bool" for N :: nat where
  lock: "t < N \<Longrightarrow> \<not> crashed s \<Longrightarrow> owner s = None \<Longrightarrow> locked (pcs s t) = Some p \<Longrightarrow>
    istep N s (acquire t p s)"
| push_crit: "t < N \<Longrightarrow> \<not> crashed s \<Longrightarrow> pcs s t = PushCrit x \<Longrightarrow> istep N s (push_locked t x s)"
| notify_waiter: "t < N \<Longrightarrow> \<not> crashed s \<Longrightarrow> pcs s t = PushNotify r \<Longrightarrow> u < N \<Longrightarrow> pcs s u = PopWait \<Longrightarrow>
    istep N s (goto u PopLock (goto t (Returned (Pushed r)) s))"
| notify_nobody: "t < N \<Longrightarrow> \<not> crashed s \<Longrightarrow> pcs s t = PushNotify r \<Longrightarrow> (\<And>u. u < N \<Longrightarrow> pcs s u \<noteq> PopWait) \<Longrightarrow>
    istep N s (goto t (Returned (Pushed r)) s)"
| pop_check: "t < N \<Longrightarrow> \<not> crashed s \<Longrightarrow> pcs s t = PopCheck \<Longrightarrow> istep N s (pop_locked t s)"
| close_crit: "t < N \<Longrightarrow> \<not> crashed s \<Longrightarrow> pcs s t = CloseCrit \<Longrightarrow> istep N s (close_locked t s)"
| close_notify: "t < N \<Longrightarrow> \<not> crashed s \<Longrightarrow> pcs s t = CloseNotify \<Longrightarrow>
    istep N s (goto t (Returned Shut) (s\<lparr>pcs := wake_all (pcs s)\<rparr>))"
| stat_crit: "t < N \<Longrightarrow> \<not> crashed s \<Longrightarrow> pcs s t = StatCrit k \<Longrightarrow> istep N s (stat_locked t k s)"

inductive qstep :: "nat \<Rightarrow> 'a qstate \<Rightarrow> 'a qstate \<Rightarrow> bool" for N :: nat where
  internal: "istep N s s' \<Longrightarrow> qstep N s s'"
| call: "t < N \<Longrightarrow> \<not> crashed s \<Longrightarrow> outside (pcs s t) \<Longrightarrow> entry p \<Longrightarrow> qstep N s (goto t p s)"
| spurious: "t < N \<Longrightarrow> \<not> crashed s \<Longrightarrow> pcs s t = PopWait \<Longrightarrow> qstep N s (goto t PopLock s)"

abbreviation queue_run :: "nat \<Rightarrow> 64 word \<Rightarrow> 'a qstate \<Rightarrow> bool" where
  "queue_run N capacity \<equiv> reachable (\<lambda>s. s = initial capacity) (qstep N)"

section \<open>Invariant\<close>

fun holding :: "'a pc \<Rightarrow> bool" where
  "holding (PushCrit _) = True"
| "holding PopCheck = True"
| "holding CloseCrit = True"
| "holding (StatCrit _) = True"
| "holding _ = False"

text \<open>Threads that will look at the queue, or make a waiter look, before they rest.\<close>

fun wakers :: "'a pc \<Rightarrow> nat" where
  "wakers (PushNotify _) = 1"
| "wakers PopLock = 1"
| "wakers PopCheck = 1"
| "wakers _ = 0"

definition mutex :: "'a qstate \<Rightarrow> bool" where
  "mutex s \<longleftrightarrow> (\<forall>t. holding (pcs s t) \<longleftrightarrow> owner s = Some t)"

definition confined :: "nat \<Rightarrow> 'a qstate \<Rightarrow> bool" where
  "confined N s \<longleftrightarrow> (\<forall>t\<ge>N. pcs s t = Idle)"

definition sound_queue :: "64 word \<Rightarrow> 'a qstate \<Rightarrow> bool" where
  "sound_queue c s \<longleftrightarrow> queue_inv (que s) \<and> m_capacity (que s) = c \<and> \<not> crashed s"

definition history :: "'a qstate \<Rightarrow> bool" where
  "history s \<longleftrightarrow> accepted s = map snd (removed s) @ m_items (que s) \<and>
     m_dropped (que s) = of_nat (length (filter fst (removed s)))"

definition wakeful :: "nat \<Rightarrow> 'a qstate \<Rightarrow> bool" where
  "wakeful N s \<longleftrightarrow> (\<not> m_closed (que s) \<longrightarrow> (\<exists>t. pcs s t = PopWait) \<longrightarrow>
     length (m_items (que s)) \<le> (\<Sum>u<N. wakers (pcs s u)))"

definition shutting :: "nat \<Rightarrow> 'a qstate \<Rightarrow> bool" where
  "shutting N s \<longleftrightarrow> (m_closed (que s) \<longrightarrow> (\<exists>t. pcs s t = PopWait) \<longrightarrow> (\<exists>u<N. pcs s u = CloseNotify))"

definition thread_inv :: "nat \<Rightarrow> 64 word \<Rightarrow> 'a qstate \<Rightarrow> bool" where
  "thread_inv N c s \<longleftrightarrow> mutex s \<and> confined N s \<and> sound_queue c s \<and> history s \<and> wakeful N s \<and> shutting N s"

lemmas move_defs = goto_def release_def acquire_def stat_locked_def close_locked_def

lemma locked_holding: "locked p = Some p' \<Longrightarrow> holding p' \<and> \<not> holding p"
  by (cases p) auto

lemma outside_not_holding: "outside p \<Longrightarrow> \<not> holding p"
  by (cases p) auto

lemma entry_not_holding: "entry p \<Longrightarrow> \<not> holding p"
  by (cases p) auto

text \<open>A critical section seen from the thread table: the holder leaves, or the program crashed.\<close>

lemma push_locked_cases:
  obtains "push_locked t x s = s\<lparr>crashed := True\<rparr>" and "push (que s) x = Undefined"
  | p where "owner (push_locked t x s) = None" and "pcs (push_locked t x s) = (pcs s)(t := p)"
      and "p = Returned (Pushed False) \<or> (\<exists>r. p = PushNotify r)"
proof (cases "push (que s) x")
  case Undefined
  then show thesis using that(1) by (simp add: push_locked_def)
next
  case (Defined qr)
  obtain q r where qr: "qr = (q, r)" by (cases qr)
  show thesis
  proof (cases "m_closed (que s)")
    case True
    then have "r = False" using Defined qr by (simp add: push_def)
    with True Defined qr show thesis using that(2) by (simp add: push_locked_def move_defs)
  next
    case False
    with Defined qr show thesis using that(2) by (simp add: push_locked_def move_defs)
  qed
qed

lemma pop_locked_moves:
  "owner (pop_locked t s) = None"
  "pcs (pop_locked t s) = (pcs s)(t := if pop_ready (que s) then Returned (Popped (snd (pop_body (que s)))) else PopWait)"
  "crashed (pop_locked t s) = crashed s"
  by (auto simp: pop_locked_def move_defs split: prod.splits)

lemma wake_all_not_waiting: "wake_all p u \<noteq> PopWait"
  by (simp add: wake_all_def split: pc.splits)

lemma holding_wake_all [simp]: "holding (wake_all p u) = holding (p u)"
  by (simp add: wake_all_def split: pc.splits)

lemma mutex_release:
  assumes "mutex s" and "holding (pcs s t)" and "\<not> holding p"
    and "owner s' = None" and "pcs s' = (pcs s)(t := p)"
  shows "mutex s'"
  using assms by (auto simp: mutex_def)

lemma mutex_goto: "mutex s \<Longrightarrow> \<not> holding (pcs s t) \<Longrightarrow> \<not> holding p \<Longrightarrow> mutex (goto t p s)"
  by (auto simp: mutex_def goto_def)

lemma mutex_istep: "istep N s s' \<Longrightarrow> mutex s \<Longrightarrow> mutex s'"
proof (induction rule: istep.induct)
  case (lock t s p)
  then show ?case using locked_holding [of "pcs s t" p] by (auto simp: mutex_def move_defs)
next
  case (push_crit t s x)
  show ?case
  proof (cases rule: push_locked_cases [where t = t and x = x and s = s])
    case 1
    with push_crit show ?thesis by (simp add: mutex_def)
  next
    case (2 p)
    then show ?thesis using push_crit by (auto intro!: mutex_release [of s t p])
  qed
next
  case (notify_waiter t s r u)
  then have "mutex (goto t (Returned (Pushed r)) s)" by (auto intro!: mutex_goto)
  with notify_waiter show ?case
    by (intro mutex_goto [of "goto t (Returned (Pushed r)) s"]) (auto simp: goto_def)
next
  case (notify_nobody t s r)
  then show ?case by (auto intro!: mutex_goto)
next
  case (pop_check t s)
  then show ?case by (auto intro!: mutex_release [of s t, OF _ _ _ pop_locked_moves(1,2)] split: if_splits)
next
  case (close_crit t s)
  then show ?case by (auto intro!: mutex_release [of s t CloseNotify] simp: move_defs)
next
  case (close_notify t s)
  then have "mutex (s\<lparr>pcs := wake_all (pcs s)\<rparr>)" by (simp add: mutex_def)
  with close_notify show ?case
    by (intro mutex_goto) simp_all
next
  case (stat_crit t s k)
  then show ?case by (auto intro!: mutex_release [of s t "Returned (observe k (que s))"] simp: move_defs)
qed

lemma mutex_qstep: "qstep N s s' \<Longrightarrow> mutex s \<Longrightarrow> mutex s'"
  by (induction rule: qstep.induct)
    (auto intro: mutex_istep intro!: mutex_goto dest: outside_not_holding entry_not_holding)

lemma confined_goto: "confined N s \<Longrightarrow> t < N \<Longrightarrow> confined N (goto t p s)"
  by (auto simp: confined_def goto_def)

lemma confined_istep: "istep N s s' \<Longrightarrow> confined N s \<Longrightarrow> confined N s'"
proof (induction rule: istep.induct)
  case (push_crit t s x)
  then show ?case
    by (cases rule: push_locked_cases [where t = t and x = x and s = s]) (auto simp: confined_def)
qed (auto simp: confined_def move_defs pop_locked_moves wake_all_def)

lemma confined_qstep: "qstep N s s' \<Longrightarrow> confined N s \<Longrightarrow> confined N s'"
  by (induction rule: qstep.induct) (auto intro: confined_istep confined_goto)

section \<open>The queue seen from the steps\<close>

text \<open>With a positive capacity the block of \<open>push\<close> is never undefined, and this is what it does.\<close>

lemma push_locked_open:
  assumes "queue_inv (que s)" and "\<not> m_closed (que s)"
  defines "room \<equiv> length (m_items (que s)) < unat (m_capacity (que s))"
  shows "push_locked t x s = release t (PushNotify room)
    (s\<lparr>que := (que s)\<lparr>m_items := (if room then m_items (que s) else tl (m_items (que s))) @ [x],
                     m_dropped := m_dropped (que s) + (if room then 0 else 1)\<rparr>,
      accepted := accepted s @ [x],
      removed := removed s @ (if room then [] else [(True, hd (m_items (que s)))])\<rparr>)"
proof (cases room)
  case True
  then show ?thesis using assms(2) push_room [of "que s" x]
    by (simp add: push_locked_def capacity_of_def room_def)
next
  case False
  then have "length (m_items (que s)) = capacity_of (que s)"
    using assms(1) by (simp add: room_def queue_inv_def capacity_of_def)
  then show ?thesis using assms(1,2) False push_full [of "que s" x]
    by (simp add: push_locked_def room_def capacity_of_def)
qed

lemma push_locked_closed:
  assumes "m_closed (que s)"
  shows "push_locked t x s = release t (Returned (Pushed False)) s"
  using assms by (simp add: push_locked_def push_closed move_defs)

lemma pop_locked_item:
  assumes "m_items (que s) = x # xs"
  shows "pop_locked t s = release t (Returned (Popped (Some x)))
    (s\<lparr>que := (que s)\<lparr>m_items := xs\<rparr>, removed := removed s @ [(False, x)]\<rparr>)"
  using assms by (simp add: pop_locked_def pop_ready_def pop_body_def)

lemma pop_locked_empty:
  assumes "m_items (que s) = []"
  shows "pop_locked t s = release t (if m_closed (que s) then Returned (Popped None) else PopWait) s"
  using assms by (auto simp: pop_locked_def pop_ready_def pop_body_def move_defs)

lemmas queue_moves = push_locked_open push_locked_closed pop_locked_item pop_locked_empty

text \<open>
  The steps of a sound queue with each critical section replaced by what it does; the invariants
  below are proved by these cases.
\<close>

lemma sound_steps [consumes 2, case_names lock push_closed push_room push_full notify_waiter
    notify_nobody pop_item pop_end pop_wait close_crit close_notify stat_crit]:
  assumes step: "istep N s s'" and sound: "sound_queue c s"
  obtains
    (lock) t p where "t < N" "owner s = None" "locked (pcs s t) = Some p" "s' = acquire t p s"
  | (push_closed) t x where "t < N" "pcs s t = PushCrit x" "m_closed (que s)"
      "s' = release t (Returned (Pushed False)) s"
  | (push_room) t x where "t < N" "pcs s t = PushCrit x" "\<not> m_closed (que s)"
      "length (m_items (que s)) < unat c"
      "s' = release t (PushNotify True)
        (s\<lparr>que := (que s)\<lparr>m_items := m_items (que s) @ [x]\<rparr>, accepted := accepted s @ [x]\<rparr>)"
  | (push_full) t x y ys where "t < N" "pcs s t = PushCrit x" "\<not> m_closed (que s)"
      "length (m_items (que s)) = unat c" "m_items (que s) = y # ys"
      "s' = release t (PushNotify False)
        (s\<lparr>que := (que s)\<lparr>m_items := ys @ [x], m_dropped := m_dropped (que s) + 1\<rparr>,
           accepted := accepted s @ [x], removed := removed s @ [(True, y)]\<rparr>)"
  | (notify_waiter) t r u where "t < N" "pcs s t = PushNotify r" "u < N" "pcs s u = PopWait"
      "s' = goto u PopLock (goto t (Returned (Pushed r)) s)"
  | (notify_nobody) t r where "t < N" "pcs s t = PushNotify r" "\<And>u. u < N \<Longrightarrow> pcs s u \<noteq> PopWait"
      "s' = goto t (Returned (Pushed r)) s"
  | (pop_item) t x xs where "t < N" "pcs s t = PopCheck" "m_items (que s) = x # xs"
      "s' = release t (Returned (Popped (Some x)))
        (s\<lparr>que := (que s)\<lparr>m_items := xs\<rparr>, removed := removed s @ [(False, x)]\<rparr>)"
  | (pop_end) t where "t < N" "pcs s t = PopCheck" "m_items (que s) = []" "m_closed (que s)"
      "s' = release t (Returned (Popped None)) s"
  | (pop_wait) t where "t < N" "pcs s t = PopCheck" "m_items (que s) = []" "\<not> m_closed (que s)"
      "s' = release t PopWait s"
  | (close_crit) t where "t < N" "pcs s t = CloseCrit"
      "s' = release t CloseNotify (s\<lparr>que := (que s)\<lparr>m_closed := True\<rparr>\<rparr>)"
  | (close_notify) t where "t < N" "pcs s t = CloseNotify"
      "s' = goto t (Returned Shut) (s\<lparr>pcs := wake_all (pcs s)\<rparr>)"
  | (stat_crit) t k where "t < N" "pcs s t = StatCrit k"
      "s' = release t (Returned (observe k (que s))) s"
  using step
proof cases
  case (push_crit t x)
  have inv: "queue_inv (que s)" and cap: "m_capacity (que s) = c" using sound by (simp_all add: sound_queue_def)
  show thesis
  proof (cases "m_closed (que s)")
    case True
    with push_crit show thesis using that(2) by (simp add: push_locked_closed)
  next
    case False
    show thesis
    proof (cases "length (m_items (que s)) < unat c")
      case True
      with push_crit False inv cap show thesis using that(3) by (simp add: push_locked_open)
    next
      case full: False
      then have "length (m_items (que s)) = unat c" and "0 < unat c"
        using inv cap by (simp_all add: queue_inv_def)
      then obtain y ys where "m_items (que s) = y # ys" by (cases "m_items (que s)") auto
      with push_crit False inv cap full \<open>length (m_items (que s)) = unat c\<close> show thesis
        using that(4) by (simp add: push_locked_open)
    qed
  qed
next
  case (pop_check t)
  then show thesis
    using that(7-9) by (cases "m_items (que s)"; cases "m_closed (que s)") (simp_all add: queue_moves)
qed (use that in \<open>simp_all add: close_locked_def stat_locked_def close_def\<close>)

lemma sound_istep:
  assumes "istep N s s'" and "sound_queue c s"
  shows "sound_queue c s'"
  using assms
  by (cases rule: sound_steps)
    (use assms(2) in \<open>auto simp: move_defs sound_queue_def queue_inv_def\<close>)

lemma sound_qstep: "qstep N s s' \<Longrightarrow> sound_queue c s \<Longrightarrow> sound_queue c s'"
  by (erule qstep.cases) (simp add: sound_istep, simp_all add: goto_def sound_queue_def)

lemma history_istep:
  assumes "istep N s s'" and "sound_queue c s" and "history s"
  shows "history s'"
  using assms(1,2)
  by (cases rule: sound_steps) (use assms(3) in \<open>auto simp: move_defs history_def\<close>)

lemma history_qstep: "qstep N s s' \<Longrightarrow> sound_queue c s \<Longrightarrow> history s \<Longrightarrow> history s'"
  by (erule qstep.cases) (simp add: history_istep, simp_all add: goto_def history_def)

section \<open>Wake-ups\<close>

text \<open>The count of wakers after one thread moves.\<close>

lemma wakers_update:
  fixes N :: nat
  shows "t < N \<Longrightarrow> (\<Sum>u<N. wakers ((p(t := q)) u)) + wakers (p t) = (\<Sum>u<N. wakers (p u)) + wakers q"
  by (rule sum_threads_update [where f = wakers and pc = p and p = q])

lemma wakeful_closed: "m_closed (que s) \<Longrightarrow> wakeful N s"
  by (simp add: wakeful_def)

text \<open>One thread moves from a place that does not wait: it must carry its duty along.\<close>

lemma wakeful_move:
  assumes "wakeful N s" and "t < N" and "pcs s t \<noteq> PopWait" and "q \<noteq> PopWait"
    and "m_closed (que s') \<or> \<not> m_closed (que s)" and "pcs s' = (pcs s)(t := q)"
    and "length (m_items (que s')) + wakers (pcs s t) \<le> length (m_items (que s)) + wakers q"
  shows "wakeful N s'"
  unfolding wakeful_def
proof (intro impI)
  assume open': "\<not> m_closed (que s')" and wait: "\<exists>u. pcs s' u = PopWait"
  then have "\<exists>u. pcs s u = PopWait" using assms(3,4,6) by (auto split: if_splits)
  then have "length (m_items (que s)) \<le> (\<Sum>u<N. wakers (pcs s u))"
    using assms(1,5) open' by (auto simp: wakeful_def)
  with assms(7) wakers_update [OF assms(2), of "pcs s" q] show
    "length (m_items (que s')) \<le> (\<Sum>u<N. wakers (pcs s' u))"
    by (simp add: assms(6))
qed

text \<open>A waiter that is woken is one waker more.\<close>

lemma wakeful_wake:
  assumes "u < N" and "pcs s u = PopWait"
    and "\<not> m_closed (que s) \<Longrightarrow> length (m_items (que s)) \<le> Suc (\<Sum>v<N. wakers (pcs s v))"
  shows "wakeful N (goto u PopLock s)"
  using assms wakers_update [OF assms(1), of "pcs s" PopLock] by (simp add: wakeful_def goto_def)

lemma wakeful_istep:
  assumes "istep N s s'" and "sound_queue c s" and "confined N s" and wakeful: "wakeful N s"
  shows "wakeful N s'"
  using assms(1,2)
proof (cases rule: sound_steps)
  case (lock t p)
  with wakeful show ?thesis
    by (cases "pcs s t") (auto intro!: wakeful_move [of N s t p] simp: move_defs)
next
  case (push_room t x)
  with wakeful show ?thesis by (auto intro!: wakeful_move [of N s t "PushNotify True"] simp: move_defs)
next
  case (push_full t x y ys)
  with wakeful show ?thesis by (auto intro!: wakeful_move [of N s t "PushNotify False"] simp: move_defs)
next
  case (notify_waiter t r u)
  let ?s = "goto t (Returned (Pushed r)) s"
  have "pcs ?s u = PopWait" using notify_waiter by (auto simp: goto_def)
  moreover have "length (m_items (que ?s)) \<le> Suc (\<Sum>v<N. wakers (pcs ?s v))" if "\<not> m_closed (que ?s)"
    using notify_waiter that wakeful wakers_update [of t N "pcs s" "Returned (Pushed r)"]
    by (auto simp: wakeful_def goto_def)
  ultimately show ?thesis unfolding notify_waiter(5) by (rule wakeful_wake [OF notify_waiter(3)])
next
  case (notify_nobody t r)
  then have "pcs s u \<noteq> PopWait" for u using assms(3) by (cases "u < N") (auto simp: confined_def)
  with notify_nobody show ?thesis by (auto simp: wakeful_def move_defs)
next
  case (pop_item t x xs)
  with wakeful show ?thesis
    by (auto intro!: wakeful_move [of N s t "Returned (Popped (Some x))"] simp: move_defs)
next
  case (close_notify t)
  then show ?thesis by (simp add: wakeful_def goto_def wake_all_not_waiting)
next
  case (stat_crit t k)
  with wakeful show ?thesis
    by (auto intro!: wakeful_move [of N s t "Returned (observe k (que s))"] simp: move_defs)
qed (simp_all add: wakeful_def move_defs)

lemma wakeful_qstep:
  "qstep N s s' \<Longrightarrow> sound_queue c s \<Longrightarrow> confined N s \<Longrightarrow> wakeful N s \<Longrightarrow> wakeful N s'"
proof (induction rule: qstep.induct)
  case (internal s s')
  then show ?case by (auto intro: wakeful_istep)
next
  case (call t s p)
  then have "pcs s t \<noteq> PopWait" and "p \<noteq> PopWait" and "wakers (pcs s t) = 0"
    by (auto elim: outside.elims)
  with call show ?case by (auto intro!: wakeful_move [of N s t p] simp: goto_def)
next
  case (spurious t s)
  then have "length (m_items (que s)) \<le> (\<Sum>v<N. wakers (pcs s v))" if "\<not> m_closed (que s)"
    using that by (auto simp: wakeful_def)
  then show ?case using spurious(1,3) by (intro wakeful_wake) (simp_all add: le_SucI)
qed

text \<open>A waiter of a closed queue has a \<open>notify_all\<close> coming.\<close>

lemma shutting_move:
  assumes "shutting N s" and "pcs s t \<noteq> CloseNotify" and "q \<noteq> PopWait \<or> \<not> m_closed (que s)"
    and "m_closed (que s') \<longleftrightarrow> m_closed (que s)" and "pcs s' = (pcs s)(t := q)"
  shows "shutting N s'"
  unfolding shutting_def
proof (intro impI)
  assume closed: "m_closed (que s')" and "\<exists>u. pcs s' u = PopWait"
  then have "\<exists>u. pcs s u = PopWait" using assms(3-5) by (auto split: if_splits)
  then obtain u where "u < N" and "pcs s u = CloseNotify"
    using assms(1,4) closed by (auto simp: shutting_def)
  with assms(2,5) show "\<exists>u<N. pcs s' u = CloseNotify" by (auto intro!: exI [of _ u])
qed

lemma shutting_istep:
  assumes "istep N s s'" and "sound_queue c s" and shutting: "shutting N s"
  shows "shutting N s'"
  using assms(1,2)
proof (cases rule: sound_steps)
  case (lock t p)
  with shutting show ?thesis
    by (cases "pcs s t") (auto intro!: shutting_move [of N s t p] simp: move_defs)
next
  case (push_closed t x)
  with shutting show ?thesis
    by (auto intro!: shutting_move [of N s t "Returned (Pushed False)"] simp: move_defs)
next
  case (notify_waiter t r u)
  let ?s = "goto t (Returned (Pushed r)) s"
  have first: "shutting N ?s"
    using notify_waiter shutting by (auto intro!: shutting_move [of N s t "Returned (Pushed r)"] simp: goto_def)
  have "pcs ?s u = PopWait" using notify_waiter by (auto simp: goto_def)
  then show ?thesis unfolding notify_waiter(5)
    by (intro shutting_move [OF first, of u PopLock]) (simp_all, simp_all add: goto_def)
next
  case (notify_nobody t r)
  with shutting show ?thesis by (auto intro!: shutting_move [of N s t "Returned (Pushed r)"] simp: goto_def)
next
  case (pop_item t x xs)
  with shutting show ?thesis
    by (auto intro!: shutting_move [of N s t "Returned (Popped (Some x))"] simp: move_defs)
next
  case (pop_end t)
  with shutting show ?thesis
    by (auto intro!: shutting_move [of N s t "Returned (Popped None)"] simp: move_defs)
next
  case (close_crit t)
  then show ?thesis by (auto simp: shutting_def move_defs)
next
  case (close_notify t)
  then show ?thesis by (simp add: shutting_def goto_def wake_all_not_waiting)
next
  case (stat_crit t k)
  with shutting show ?thesis
    by (auto intro!: shutting_move [of N s t "Returned (observe k (que s))"] simp: move_defs)
qed (simp_all add: shutting_def move_defs)

lemma shutting_qstep: "qstep N s s' \<Longrightarrow> sound_queue c s \<Longrightarrow> shutting N s \<Longrightarrow> shutting N s'"
proof (induction rule: qstep.induct)
  case (internal s s')
  then show ?case by (auto intro: shutting_istep)
next
  case (call t s p)
  then have "pcs s t \<noteq> CloseNotify" and "p \<noteq> PopWait" by (auto elim: outside.elims)
  with call show ?case by (auto intro!: shutting_move [of N s t p] simp: goto_def)
next
  case (spurious t s)
  then show ?case by (auto intro!: shutting_move [of N s t PopLock] simp: goto_def)
qed

section \<open>Every reachable state satisfies the invariant\<close>

interpretation queue_threads: inductive_invariant
  "\<lambda>s. s = initial c \<and> 0 < unat c" "qstep N" "thread_inv N c" for N c
proof unfold_locales
  fix s :: "'a qstate"
  assume "s = initial c \<and> 0 < unat c"
  then show "thread_inv N c s"
    by (simp add: thread_inv_def mutex_def confined_def sound_queue_def history_def wakeful_def
        shutting_def initial_def new_queue_inv) (simp add: new_queue_def)
next
  fix s s' :: "'a qstate"
  assume "thread_inv N c s" and "qstep N s s'"
  then show "thread_inv N c s'"
    unfolding thread_inv_def
    by (blast intro: mutex_qstep confined_qstep sound_qstep history_qstep wakeful_qstep shutting_qstep)
qed

lemma queue_run_inv:
  assumes "0 < unat c" and "queue_run N c s"
  shows "thread_inv N c s"
proof -
  from assms have "reachable (\<lambda>s. s = initial c \<and> 0 < unat c) (qstep N) s" by simp
  then show ?thesis by (rule queue_threads.reachable_inv)
qed

section \<open>Mutual exclusion and the end of the queue, for every capacity\<close>

interpretation queue_mutex: inductive_invariant "\<lambda>s. s = initial c" "qstep N" mutex for N c
  by unfold_locales (rule mutex_qstep, assumption+, simp add: mutex_def initial_def)

text \<open>
  What the lock is for.  A call is decided when it goes on to notify, to wait or to return with what
  it saw or did in the queue; \<open>under_lock\<close> says of a step that whoever changes the data or is decided
  has the mutex, is the only thread that moves when the data change, and has released it afterwards.
\<close>

fun decides :: "'a pc \<Rightarrow> 'a pc \<Rightarrow> bool" where
  "decides p (PushNotify _) = True"
| "decides p CloseNotify = True"
| "decides p PopWait = True"
| "decides p (Returned (Pushed r)) = (p \<noteq> PushNotify r)"
| "decides p (Returned Shut) = (p \<noteq> CloseNotify)"
| "decides p (Returned _) = True"
| "decides p _ = False"

definition same_data :: "'a qstate \<Rightarrow> 'a qstate \<Rightarrow> bool" where
  "same_data s s' \<longleftrightarrow> que s' = que s \<and> accepted s' = accepted s \<and> removed s' = removed s \<and>
     crashed s' = crashed s"

definition under_lock :: "'a qstate \<Rightarrow> 'a qstate \<Rightarrow> bool" where
  "under_lock s s' \<longleftrightarrow>
     (same_data s s' \<or> (\<exists>t. owner s = Some t \<and> (\<forall>u. u \<noteq> t \<longrightarrow> pcs s' u = pcs s u))) \<and>
     (\<forall>t. pcs s' t \<noteq> pcs s t \<and> decides (pcs s t) (pcs s' t) \<longrightarrow> owner s = Some t \<and> owner s' = None)"

lemma under_lock_holder:
  assumes "mutex s" and "holding (pcs s t)" and "owner s' = None" and "pcs s' = (pcs s)(t := p)"
  shows "under_lock s s'"
  using assms by (auto simp: under_lock_def mutex_def)

lemma under_lock_move:
  assumes "same_data s s'" and "\<And>u. pcs s' u \<noteq> pcs s u \<Longrightarrow> \<not> decides (pcs s u) (pcs s' u)"
  shows "under_lock s s'"
  using assms by (auto simp: under_lock_def)

lemma locked_decides: "locked p = Some q \<Longrightarrow> \<not> decides r q"
  by (cases p) auto

lemma wake_all_cases: "wake_all p u = p u \<or> p u = PopWait \<and> wake_all p u = PopLock"
  by (simp add: wake_all_def split: pc.splits)

lemma istep_under_lock: "istep N s s' \<Longrightarrow> mutex s \<Longrightarrow> under_lock s s'"
proof (induction rule: istep.induct)
  case (lock t s p)
  have "\<not> decides (pcs s t) p" by (rule locked_decides [OF lock(4)])
  then show ?case by (intro under_lock_move) (simp_all add: same_data_def move_defs split: if_splits)
next
  case (push_crit t s x)
  then have own: "owner s = Some t" using holding.simps(1) unfolding mutex_def by metis
  show ?case
  proof (cases rule: push_locked_cases [where t = t and x = x and s = s])
    case 1
    then show ?thesis using own by (auto simp: under_lock_def)
  next
    case (2 p)
    then show ?thesis using push_crit by (auto intro!: under_lock_holder [of s t _ p])
  qed
next
  case (pop_check t s)
  then show ?case by (auto intro!: under_lock_holder [OF _ _ pop_locked_moves(1,2)])
next
  case (close_crit t s)
  then show ?case by (auto intro!: under_lock_holder [of s t _ CloseNotify] simp: move_defs)
next
  case (stat_crit t s k)
  then show ?case by (auto intro!: under_lock_holder [of s t _ "Returned (observe k (que s))"] simp: move_defs)
next
  case (close_notify t s)
  have "\<not> decides (pcs s u) (wake_all (pcs s) u)" if "wake_all (pcs s) u \<noteq> pcs s u" for u
    using wake_all_cases [of "pcs s" u] that by auto
  with close_notify show ?case by (intro under_lock_move) (auto simp: same_data_def goto_def)
qed (intro under_lock_move; auto simp: same_data_def goto_def split: if_splits)+

lemma qstep_under_lock: "qstep N s s' \<Longrightarrow> mutex s \<Longrightarrow> under_lock s s'"
proof (induction rule: qstep.induct)
  case (call t s p)
  then have "\<not> decides q p" for q by (cases p) auto
  with call show ?case by (intro under_lock_move) (auto simp: same_data_def goto_def split: if_splits)
next
  case (spurious t s)
  then show ?case by (intro under_lock_move) (auto simp: same_data_def goto_def split: if_splits)
qed (rule istep_under_lock)

text \<open>Once a \<open>pop\<close> has returned false the queue is closed and empty, and stays so.\<close>

definition drained :: "'a qstate \<Rightarrow> bool" where
  "drained s \<longleftrightarrow> m_closed (que s) \<and> m_items (que s) = []"

definition ended :: "'a qstate \<Rightarrow> bool" where
  "ended s \<longleftrightarrow> ((\<exists>t. pcs s t = Returned (Popped None)) \<longrightarrow> drained s)"

lemma drained_istep: "istep N s s' \<Longrightarrow> drained s \<Longrightarrow> drained s'"
proof (induction rule: istep.induct)
  case (push_crit t s x)
  then show ?case by (simp add: drained_def push_locked_closed move_defs)
next
  case (pop_check t s)
  then show ?case by (simp add: drained_def pop_locked_empty move_defs)
qed (auto simp: drained_def move_defs close_def)

lemma ended_move:
  assumes "ended s" and "drained s \<Longrightarrow> drained s'"
    and "\<And>t. pcs s' t = Returned (Popped None) \<Longrightarrow> drained s' \<or> pcs s t = Returned (Popped None)"
  shows "ended s'"
  using assms unfolding ended_def by blast

lemma ended_istep: "istep N s s' \<Longrightarrow> ended s \<Longrightarrow> ended s'"
proof (rule ended_move [of s])
  fix u
  assume step: "istep N s s'" and out: "pcs s' u = Returned (Popped None)"
  from step show "drained s' \<or> pcs s u = Returned (Popped None)"
    using out
  proof cases
    case (lock t p)
    then show ?thesis using out by (cases "pcs s t") (auto simp: move_defs split: if_splits)
  next
    case (push_crit t x)
    then show ?thesis using out
      by (cases rule: push_locked_cases [where t = t and x = x and s = s])
        (auto split: if_splits)
  next
    case (pop_check t)
    then show ?thesis using out
      by (cases "m_items (que s)") (auto simp: drained_def queue_moves move_defs split: if_splits)
  next
    case (close_notify t)
    then show ?thesis using out
      by (auto simp: goto_def wake_all_def split: if_splits pc.splits)
  next
    case (stat_crit t k)
    then show ?thesis using out by (cases k) (auto simp: move_defs split: if_splits)
  qed (auto simp: move_defs split: if_splits)
qed (auto intro: drained_istep)

lemma ended_qstep: "qstep N s s' \<Longrightarrow> ended s \<Longrightarrow> ended s'"
proof (induction rule: qstep.induct)
  case (internal s s')
  then show ?case by (auto intro: ended_istep)
next
  case (call t s p)
  then have "p \<noteq> Returned (Popped None)" by auto
  with call show ?case by (auto simp: ended_def drained_def goto_def split: if_splits)
next
  case (spurious t s)
  then show ?case by (auto simp: ended_def drained_def goto_def split: if_splits)
qed

interpretation queue_end: inductive_invariant "\<lambda>s. s = initial c" "qstep N" ended for N c
  by unfold_locales (rule ended_qstep, assumption+, simp add: ended_def initial_def)

end
