(* ===== verification/Queue_Calls.thy ===== *)
theory Queue_Calls
  imports Queue_Threads
begin

text \<open>
  The calls in progress on \<open>queue/BlockingQueue.hpp\<close>: some thread can always move unless every call
  has returned or waits on an open, empty queue; every step decreases a measure, so the calls
  complete; and each thread goes through the positions of its call in program order, which is what
  the clients of the queue follow.
\<close>

section \<open>Progress\<close>

text \<open>A thread inside a call that is not blocked in \<open>wait\<close> can move, or the owner of the mutex can.\<close>

lemma thread_can_move:
  assumes "t < N" and "\<not> crashed s" and "\<not> outside (pcs s t)" and "pcs s t \<noteq> PopWait"
    and "owner s = None \<or> locked (pcs s t) = None"
  shows "\<exists>s'. istep N s s'"
proof (cases "locked (pcs s t)")
  case (Some p)
  with assms show ?thesis by (auto intro: istep.lock)
next
  case None
  show ?thesis
  proof (cases "pcs s t")
    case (PushNotify r)
    show ?thesis
    proof (cases "\<exists>u<N. pcs s u = PopWait")
      case True
      with assms(1,2) PushNotify show ?thesis by (blast intro: istep.notify_waiter)
    next
      case False
      with assms(1,2) PushNotify show ?thesis by (blast intro: istep.notify_nobody)
    qed
  qed (use assms None in \<open>auto intro: istep.intros\<close>)
qed

lemma quiet_wakers: "outside p \<or> p = PopWait \<Longrightarrow> wakers p = 0"
  by (cases p) auto

lemma stuck_quiet:
  assumes "mutex s" and "confined N s" and "\<not> crashed s" and "stuck (istep N) s"
  shows "outside (pcs s t) \<or> pcs s t = PopWait"
proof (cases "owner s")
  case None
  show ?thesis
  proof (cases "t < N")
    case True
    then show ?thesis using thread_can_move [of t N s] assms(3,4) None by (auto simp: stuck_def)
  next
    case False
    then show ?thesis using assms(2) by (simp add: confined_def)
  qed
next
  case (Some u)
  then have hold: "holding (pcs s u)" using assms(1) by (simp add: mutex_def)
  then have "u < N" using assms(2) by (cases "u < N") (auto simp: confined_def)
  moreover have "locked (pcs s u) = None" "\<not> outside (pcs s u)" "pcs s u \<noteq> PopWait"
    using hold by (cases "pcs s u"; simp)+
  ultimately show ?thesis using thread_can_move [of u N s] assms(3,4) by (auto simp: stuck_def)
qed

text \<open>When nothing moves, a thread that still waits waits on an open and empty queue.\<close>

lemma stuck_waiters:
  assumes "thread_inv N c s" and "stuck (istep N) s" and "pcs s t = PopWait"
  shows "m_items (que s) = [] \<and> \<not> m_closed (que s)"
proof -
  have quiet: "outside (pcs s u) \<or> pcs s u = PopWait" for u
    using assms by (intro stuck_quiet [of s N u]) (auto simp: thread_inv_def sound_queue_def)
  then have "wakers (pcs s u) = 0" for u by (rule quiet_wakers)
  then have none: "(\<Sum>u<N. wakers (pcs s u)) = 0" by simp
  have "\<not> m_closed (que s)"
  proof
    assume "m_closed (que s)"
    then obtain u where "pcs s u = CloseNotify"
      using assms(1,3) by (auto simp: thread_inv_def shutting_def)
    with quiet [of u] show False by simp
  qed
  moreover from this have "length (m_items (que s)) = 0"
    using assms(1,3) none by (auto simp: thread_inv_def wakeful_def)
  ultimately show ?thesis by simp
qed

section \<open>Calls complete\<close>

text \<open>
  The steps a thread may still take inside its call.  A \<open>notify_one\<close> may send one waiter through
  \<open>PopLock\<close> and \<open>PopCheck\<close> again, a \<open>notify_all\<close> up to \<open>N\<close> of them.
\<close>

fun steps_left :: "nat \<Rightarrow> 'a pc \<Rightarrow> nat" where
  "steps_left N (PushLock _) = 5"
| "steps_left N (PushCrit _) = 4"
| "steps_left N (PushNotify _) = 3"
| "steps_left N PopLock = 2"
| "steps_left N PopCheck = 1"
| "steps_left N CloseLock = 2 * N + 3"
| "steps_left N CloseCrit = 2 * N + 2"
| "steps_left N CloseNotify = 2 * N + 1"
| "steps_left N (StatLock _) = 2"
| "steps_left N (StatCrit _) = 1"
| "steps_left N _ = 0"

definition work :: "nat \<Rightarrow> 'a qstate \<Rightarrow> nat" where
  "work N s = (if crashed s then 0 else Suc (\<Sum>u<N. steps_left N (pcs s u)))"

lemma work_move:
  assumes "t < N" and "\<not> crashed s" and "pcs s' = (pcs s)(t := q)"
    and "steps_left N q < steps_left N (pcs s t)"
  shows "work N s' < work N s"
  using assms sum_threads_update [OF assms(1), where f = "steps_left N" and pc = "pcs s" and p = q]
  by (simp add: work_def)

lemma locked_steps_left: "locked p = Some q \<Longrightarrow> steps_left N q < steps_left N p"
  by (cases p) auto

lemma steps_left_wake_all: "steps_left N (wake_all p u) \<le> steps_left N (p u) + 2"
  by (simp add: wake_all_def split: pc.splits)

lemma work_wake_one:
  assumes "t < N" and "u < N" and "\<not> crashed s" and "pcs s t = PushNotify r" and "pcs s u = PopWait"
  shows "work N (goto u PopLock (goto t (Returned (Pushed r)) s)) < work N s"
proof -
  let ?q = "Returned (Pushed r)"
  have "((pcs s)(t := ?q)) u = PopWait" using assms(4,5) by auto
  with assms show ?thesis
    using sum_threads_update [of t N "steps_left N" "pcs s" ?q]
      sum_threads_update [of u N "steps_left N" "(pcs s)(t := ?q)" PopLock]
    by (simp add: work_def goto_def)
qed

lemma work_wake_all:
  assumes "t < N" and "\<not> crashed s" and "pcs s t = CloseNotify"
  shows "work N (goto t (Returned Shut) (s\<lparr>pcs := wake_all (pcs s)\<rparr>)) < work N s"
proof -
  have "(\<Sum>u<N. steps_left N (wake_all (pcs s) u)) \<le> (\<Sum>u<N. steps_left N (pcs s u) + 2)"
    by (intro sum_mono steps_left_wake_all)
  then have "(\<Sum>u<N. steps_left N (wake_all (pcs s) u)) \<le> (\<Sum>u<N. steps_left N (pcs s u)) + 2 * N"
    by (simp only: sum.distrib) simp
  moreover have "wake_all (pcs s) t = CloseNotify" using assms(3) by (simp add: wake_all_def)
  ultimately show ?thesis
    using assms sum_threads_update [of t N "steps_left N" "wake_all (pcs s)" "Returned Shut"]
    by (simp add: work_def goto_def)
qed

lemma work_istep: "istep N s s' \<Longrightarrow> work N s' < work N s"
proof (induction rule: istep.induct)
  case (lock t s p)
  then show ?case by (intro work_move [of t N s _ p]) (auto simp: move_defs locked_steps_left)
next
  case (push_crit t s x)
  show ?case
  proof (cases rule: push_locked_cases [where t = t and x = x and s = s])
    case 1
    with push_crit show ?thesis by (simp add: work_def)
  next
    case (2 p)
    with push_crit show ?thesis by (auto intro!: work_move [of t N s _ p])
  qed
next
  case (notify_nobody t s r)
  then show ?case by (intro work_move [of t N s _ "Returned (Pushed r)"]) (auto simp: goto_def)
next
  case (pop_check t s)
  then show ?case by (intro work_move [OF _ _ pop_locked_moves(2)]) auto
next
  case (close_crit t s)
  then show ?case by (intro work_move [of t N s _ CloseNotify]) (auto simp: move_defs)
next
  case (stat_crit t s k)
  then show ?case by (intro work_move [of t N s _ "Returned (observe k (que s))"]) (auto simp: move_defs)
qed (simp_all add: work_wake_one work_wake_all)

interpretation queue_calls: decreasing_steps "istep N" "thread_inv N c" "work N" for N c
  by unfold_locales (auto intro: queue_threads.preserved qstep.internal work_istep)

lemma stuck_calls:
  assumes "thread_inv N c s" and "stuck (istep N) s"
  shows "outside (pcs s t) \<or> pcs s t = PopWait \<and> m_items (que s) = [] \<and> \<not> m_closed (que s)"
  using stuck_quiet [of s N t] stuck_waiters [OF assms, of t] assms
  by (auto simp: thread_inv_def sound_queue_def)

text \<open>From a reachable state the calls in progress run, in any order, until nothing is left to do.\<close>

lemma calls_complete:
  assumes "0 < unat c" and "queue_run N c s"
  shows "inevitably (istep N) s
    (\<lambda>s'. \<forall>t. outside (pcs s' t) \<or> pcs s' t = PopWait \<and> m_items (que s') = [] \<and> \<not> m_closed (que s'))"
  by (rule queue_calls.inevitable [OF queue_run_inv [OF assms]]) (blast dest: stuck_calls)

section \<open>Order\<close>

text \<open>What consumers received, in the order they received it.\<close>

definition received :: "'a qstate \<Rightarrow> 'a list" where
  "received s = map snd (filter (Not \<circ> fst) (removed s))"

lemma subseq_received: "history s \<Longrightarrow> subseq (received s @ m_items (que s)) (accepted s)"
  unfolding history_def received_def
  by (auto intro!: list_emb_append_mono subseq_map)

lemma received_count:
  "history s \<Longrightarrow> length (accepted s) = length (received s) + length (filter fst (removed s)) + length (m_items (que s))"
  using sum_length_filter_compl [of fst "removed s"] by (simp add: history_def received_def comp_def)

text \<open>Nothing is displaced before more items were accepted than the queue holds.\<close>

definition displaced_late :: "64 word \<Rightarrow> 'a qstate \<Rightarrow> bool" where
  "displaced_late c s \<longleftrightarrow> ((\<exists>e\<in>set (removed s). fst e) \<longrightarrow> unat c < length (accepted s))"

lemma displaced_late_istep:
  assumes "istep N s s'" and "sound_queue c s" and "history s" and late: "displaced_late c s"
  shows "displaced_late c s'"
  using assms(1,2)
proof (cases rule: sound_steps)
  case (push_full t x y ys)
  then have "unat c \<le> length (accepted s)" using assms(3) by (simp add: history_def)
  with push_full show ?thesis by (simp add: displaced_late_def move_defs)
qed (use late in \<open>auto simp: displaced_late_def move_defs\<close>)

interpretation queue_room: inductive_invariant "\<lambda>s. s = initial c \<and> 0 < unat c" "qstep N"
  "\<lambda>s. thread_inv N c s \<and> displaced_late c s" for N c
proof unfold_locales
  fix s s' assume inv: "thread_inv N c s \<and> displaced_late c s" and step: "qstep N s s'"
  from step have "displaced_late c s'"
  proof cases
    case internal
    with inv show ?thesis by (auto simp: thread_inv_def intro: displaced_late_istep)
  qed (use inv in \<open>simp_all add: displaced_late_def goto_def\<close>)
  then show "thread_inv N c s' \<and> displaced_late c s'"
    using inv step by (auto intro: queue_threads.preserved)
qed (auto simp: displaced_late_def initial_def intro: queue_threads.holds_initially [unfolded initial_def])

lemma nothing_displaced:
  assumes "0 < unat c" and "queue_run N c s" and "length (accepted s) \<le> unat c"
  shows "filter fst (removed s) = []" and "accepted s = received s @ m_items (que s)"
proof -
  from assms(1,2) have "reachable (\<lambda>s. s = initial c \<and> 0 < unat c) (qstep N) s" by simp
  then have inv: "history s \<and> displaced_late c s"
    using queue_room.reachable_inv by (auto simp: thread_inv_def)
  with assms(3) have none: "\<forall>e\<in>set (removed s). \<not> fst e" by (auto simp: displaced_late_def)
  then show "filter fst (removed s) = []" by simp
  from none have "filter (Not \<circ> fst) (removed s) = removed s" by (simp add: filter_id_conv)
  with inv show "accepted s = received s @ m_items (que s)" by (simp add: history_def received_def)
qed

section \<open>How one thread's position moves\<close>

text \<open>The program order of each call, as the clients of the queue see it.\<close>

fun advances :: "'a pc \<Rightarrow> 'a pc \<Rightarrow> bool" where
  "advances (PushLock x) q = (q = PushCrit x)"
| "advances (PushCrit x) q = (q = Returned (Pushed False) \<or> (\<exists>r. q = PushNotify r))"
| "advances (PushNotify r) q = (q = Returned (Pushed r))"
| "advances PopLock q = (q = PopCheck)"
| "advances PopCheck q = (q = PopWait \<or> (\<exists>out. q = Returned (Popped out)))"
| "advances PopWait q = (q = PopLock)"
| "advances CloseLock q = (q = CloseCrit)"
| "advances CloseCrit q = (q = CloseNotify)"
| "advances CloseNotify q = (q = Returned Shut)"
| "advances (StatLock k) q = (q = StatCrit k)"
| "advances (StatCrit k) q = (\<exists>b. q = Returned (observe k b))"
| "advances _ q = False"

lemma locked_advances: "locked p = Some q \<Longrightarrow> advances p q"
  by (cases p) auto

lemma wake_all_advances: "wake_all p u = p u \<or> advances (p u) (wake_all p u)"
  by (simp add: wake_all_def split: pc.splits)

lemma pcs_istep: "istep N s s' \<Longrightarrow> pcs s' u = pcs s u \<or> advances (pcs s u) (pcs s' u)"
proof (induction rule: istep.induct)
  case (lock t s p)
  then show ?case by (auto simp: move_defs locked_advances)
next
  case (push_crit t s x)
  then show ?case by (cases rule: push_locked_cases [where t = t and x = x and s = s]) auto
next
  case (pop_check t s)
  then show ?case by (auto simp: pop_locked_moves)
next
  case (close_notify t s)
  then show ?case using wake_all_advances [of "pcs s" u] by (auto simp: goto_def)
qed (auto simp: move_defs)

text \<open>An item is received exactly when a \<open>pop\<close> returns it.\<close>

lemma received_istep:
  assumes "istep N s s'" and "sound_queue c s"
  shows "received s' = received s \<and> (\<forall>u x. pcs s' u = Returned (Popped (Some x)) \<longrightarrow> pcs s u = pcs s' u) \<or>
    (\<exists>t<N. \<exists>x. pcs s t = PopCheck \<and> pcs s' = (pcs s)(t := Returned (Popped (Some x))) \<and>
      received s' = received s @ [x] \<and> m_items (que s) = x # m_items (que s'))"
  using assms
proof (cases rule: sound_steps)
  case (lock t p)
  then have "p \<noteq> Returned out" for out by (cases "pcs s t") auto
  with lock show ?thesis by (auto simp: move_defs received_def)
next
  case (close_notify t)
  then show ?thesis by (auto simp: goto_def received_def wake_all_def split: pc.splits)
next
  case (stat_crit t k)
  then show ?thesis by (cases k) (auto simp: move_defs received_def)
qed (auto simp: move_defs received_def)

text \<open>The length of the queue grows only when a \<open>push\<close> leaves its critical section.\<close>

lemma items_istep:
  assumes "istep N s s'" and "sound_queue c s"
  shows "length (m_items (que s')) \<le> length (m_items (que s)) \<or>
    (\<exists>t<N. \<exists>x r. pcs s t = PushCrit x \<and> pcs s' = (pcs s)(t := PushNotify r) \<and>
      length (m_items (que s')) \<le> Suc (length (m_items (que s))))"
  using assms by (cases rule: sound_steps) (auto simp: move_defs)

lemma closed_istep: "istep N s s' \<Longrightarrow> sound_queue c s \<Longrightarrow> m_closed (que s) \<Longrightarrow> m_closed (que s')"
  by (erule (1) sound_steps) (auto simp: move_defs)

text \<open>A thread that is past the critical section of \<open>close\<close> finds the queue closed.\<close>

definition close_seen :: "'a qstate \<Rightarrow> nat \<Rightarrow> bool" where
  "close_seen s t \<longleftrightarrow> (pcs s t = CloseNotify \<or> pcs s t = Returned Shut \<longrightarrow> m_closed (que s))"

lemma close_seen_istep:
  assumes "istep N s s'" and "sound_queue c s" and "close_seen s u"
  shows "close_seen s' u"
  using assms(1,2)
proof (cases rule: sound_steps)
  case (lock t p)
  with assms(3) show ?thesis by (cases "pcs s t") (auto simp: close_seen_def move_defs)
next
  case (close_notify t)
  with assms(3) show ?thesis
    by (auto simp: close_seen_def goto_def wake_all_def split: pc.splits)
next
  case (stat_crit t k)
  with assms(3) show ?thesis by (cases k) (auto simp: close_seen_def move_defs)
qed (use assms(3) in \<open>auto simp: close_seen_def move_defs\<close>)

end
