(* ===== verification/Sinks.thy ===== *)
theory Sinks
  imports Queue_Calls Registry
begin

text \<open>
  The tick sinks: \<open>marketdata/TickSink.hpp\<close>, \<open>ConsoleSink.hpp\<close> and \<open>QueueSink.hpp\<close>.  A
  \<open>QueueSink\<close> is driven by two threads over one \<open>BlockingQueue\<close>: thread 0 is the io thread, which
  calls \<open>start\<close>, \<open>on_tick\<close>, \<open>on_feed_state\<close>, \<open>dropped\<close> and \<open>stop\<close>, and thread 1 is the consumer,
  which runs \<open>consume\<close>.  Its machine moves the queue machine of \<open>Queue_Threads\<close> along, so every
  run of the sink is a run of the queue.  The handler that the consumer calls is one step that returns.
\<close>

section \<open>TickSink and ConsoleSink\<close>

datatype FeedState = Live | Stale

text \<open>The line \<open>ConsoleSink::on_tick\<close> logs: the kind, the symbol and the price.\<close>

definition console_on_tick :: "registry \<Rightarrow> tick \<Rightarrow> (string \<times> string \<times> double) cxx" where
  "console_on_tick r t =
     bind_cxx (find_key r (tick_id t)) (\<lambda>key. Defined
       (case key of
          None \<Rightarrow> (''?'', ''?'', price t)
        | Some k \<Rightarrow> (to_string (kind k), symbol k, price t)))"

definition console_on_feed_state :: "FeedState \<Rightarrow> string" where
  "console_on_feed_state f = ''feed state: '' @ (if f = Live then ''LIVE'' else ''STALE'')"

section \<open>QueueSink\<close>

text \<open>Where the io thread and the consumer thread stand outside the queue.\<close>

datatype io_pc = Ready | Publishing | Asking | Closing | Joining

datatype consumer_pc = NotStarted | Looping | Popping | Handling tick | Finished

record queue_sink =
  m_queue :: "tick qstate"
  joinable :: bool
  m_on_tick :: bool
  m_feed_state :: FeedState
  io :: io_pc
  consumer :: consumer_pc
  terminated :: bool
  taken :: "tick list"
  handled :: "tick list"
  muted :: bool

text \<open>
  \<open>m_on_tick\<close> says whether the stored \<open>std::function\<close> is callable.  The ghosts: \<open>taken\<close> is what
  the loop of \<open>consume\<close> has gone through, \<open>handled\<close> what it called the handler on, and \<open>muted\<close>
  that some \<open>start\<close> was given an empty handler.
\<close>

definition new_sink :: "64 word \<Rightarrow> queue_sink" where
  "new_sink capacity = \<lparr>m_queue = initial capacity, joinable = False, m_on_tick = False,
     m_feed_state = Stale, io = Ready, consumer = NotStarted, terminated = False,
     taken = [], handled = [], muted = False\<rparr>"

definition sink_start :: "bool \<Rightarrow> queue_sink \<Rightarrow> queue_sink" where
  "sink_start callable s =
     (let s1 = s\<lparr>m_on_tick := callable, muted := muted s \<or> \<not> callable\<rparr>
      in if joinable s then s1\<lparr>terminated := True\<rparr>
         else s1\<lparr>joinable := True, consumer := Looping\<rparr>)"

definition sink_on_feed_state :: "FeedState \<Rightarrow> queue_sink \<Rightarrow> queue_sink" where
  "sink_on_feed_state f s = s\<lparr>m_feed_state := f\<rparr>"

definition feed_state :: "queue_sink \<Rightarrow> FeedState" where
  "feed_state s = m_feed_state s"

text \<open>The io thread enters \<open>push\<close>, \<open>dropped\<close> or \<open>close\<close>, and the consumer \<open>pop\<close>.\<close>

definition begin_call :: "nat \<Rightarrow> tick pc \<Rightarrow> queue_sink \<Rightarrow> queue_sink" where
  "begin_call t p s = s\<lparr>m_queue := goto t p (m_queue s)\<rparr>"

definition sink_on_tick :: "tick \<Rightarrow> queue_sink \<Rightarrow> queue_sink" where
  "sink_on_tick x s = (begin_call 0 (PushLock x) s)\<lparr>io := Publishing\<rparr>"

definition sink_dropped :: "queue_sink \<Rightarrow> queue_sink" where
  "sink_dropped s = (begin_call 0 (StatLock Dropped) s)\<lparr>io := Asking\<rparr>"

definition sink_stop :: "queue_sink \<Rightarrow> queue_sink" where
  "sink_stop s = (begin_call 0 CloseLock s)\<lparr>io := Closing\<rparr>"

text \<open>After \<open>close\<close> has returned, \<open>stop\<close> joins a joinable consumer.\<close>

definition sink_join :: "queue_sink \<Rightarrow> queue_sink" where
  "sink_join s = (if joinable s then s\<lparr>io := Joining\<rparr> else s\<lparr>io := Ready\<rparr>)"

definition consume_handle :: "tick \<Rightarrow> queue_sink \<Rightarrow> queue_sink" where
  "consume_handle x s =
     s\<lparr>consumer := Looping, taken := taken s @ [x],
       handled := (if m_on_tick s then handled s @ [x] else handled s)\<rparr>"

definition live :: "queue_sink \<Rightarrow> bool" where
  "live s \<longleftrightarrow> \<not> terminated s \<and> \<not> crashed (m_queue s)"

text \<open>\<open>sstep\<close>: the sink and its two threads at work; \<open>env_step\<close> adds the calls into the sink.\<close>

inductive sstep :: "queue_sink \<Rightarrow> queue_sink \<Rightarrow> bool" where
  in_queue: "live s \<Longrightarrow> istep 2 (m_queue s) q \<Longrightarrow> sstep s (s\<lparr>m_queue := q\<rparr>)"
| pushed: "live s \<Longrightarrow> io s = Publishing \<Longrightarrow> pcs (m_queue s) 0 = Returned (Pushed r) \<Longrightarrow>
    sstep s (s\<lparr>io := Ready\<rparr>)"
| answered: "live s \<Longrightarrow> io s = Asking \<Longrightarrow> pcs (m_queue s) 0 = Returned (Count n) \<Longrightarrow>
    sstep s (s\<lparr>io := Ready\<rparr>)"
| closed_queue: "live s \<Longrightarrow> io s = Closing \<Longrightarrow> pcs (m_queue s) 0 = Returned Shut \<Longrightarrow>
    sstep s (sink_join s)"
| joined: "live s \<Longrightarrow> io s = Joining \<Longrightarrow> consumer s = Finished \<Longrightarrow>
    sstep s (s\<lparr>io := Ready, joinable := False\<rparr>)"
| pop_call: "live s \<Longrightarrow> consumer s = Looping \<Longrightarrow>
    sstep s ((begin_call 1 PopLock s)\<lparr>consumer := Popping\<rparr>)"
| pop_item: "live s \<Longrightarrow> consumer s = Popping \<Longrightarrow> pcs (m_queue s) 1 = Returned (Popped (Some x)) \<Longrightarrow>
    sstep s (s\<lparr>consumer := Handling x\<rparr>)"
| pop_end: "live s \<Longrightarrow> consumer s = Popping \<Longrightarrow> pcs (m_queue s) 1 = Returned (Popped None) \<Longrightarrow>
    sstep s (s\<lparr>consumer := Finished\<rparr>)"
| handle: "live s \<Longrightarrow> consumer s = Handling x \<Longrightarrow> sstep s (consume_handle x s)"

inductive env_step :: "queue_sink \<Rightarrow> queue_sink \<Rightarrow> bool" where
  machine: "sstep s s' \<Longrightarrow> env_step s s'"
| start: "live s \<Longrightarrow> io s = Ready \<Longrightarrow> env_step s (sink_start callable s)"
| on_tick: "live s \<Longrightarrow> io s = Ready \<Longrightarrow> env_step s (sink_on_tick x s)"
| on_feed_state: "live s \<Longrightarrow> io s = Ready \<Longrightarrow> env_step s (sink_on_feed_state f s)"
| ask_dropped: "live s \<Longrightarrow> io s = Ready \<Longrightarrow> env_step s (sink_dropped s)"
| stop: "live s \<Longrightarrow> io s = Ready \<Longrightarrow> env_step s (sink_stop s)"
| spurious_wake: "live s \<Longrightarrow> pcs (m_queue s) 1 = PopWait \<Longrightarrow> env_step s (begin_call 1 PopLock s)"

abbreviation sink_run :: "64 word \<Rightarrow> queue_sink \<Rightarrow> bool" where
  "sink_run c \<equiv> reachable (\<lambda>s. s = new_sink c) env_step"

lemmas sink_defs = sink_start_def sink_on_feed_state_def begin_call_def sink_on_tick_def
  sink_dropped_def sink_stop_def sink_join_def consume_handle_def

section \<open>Invariant of the sink\<close>

text \<open>Where each thread stands in the queue, given where it stands in the sink.\<close>

fun io_role :: "io_pc \<Rightarrow> tick pc \<Rightarrow> bool" where
  "io_role Publishing p = (case p of PushLock _ \<Rightarrow> True | PushCrit _ \<Rightarrow> True | PushNotify _ \<Rightarrow> True
     | Returned (Pushed _) \<Rightarrow> True | _ \<Rightarrow> False)"
| "io_role Asking p = (case p of StatLock k \<Rightarrow> k = Dropped | StatCrit k \<Rightarrow> k = Dropped
     | Returned (Count _) \<Rightarrow> True | _ \<Rightarrow> False)"
| "io_role Closing p = (case p of CloseLock \<Rightarrow> True | CloseCrit \<Rightarrow> True | CloseNotify \<Rightarrow> True
     | Returned Shut \<Rightarrow> True | _ \<Rightarrow> False)"
| "io_role _ p = outside p"

fun consumer_role :: "consumer_pc \<Rightarrow> tick pc \<Rightarrow> bool" where
  "consumer_role Popping p = (case p of PopLock \<Rightarrow> True | PopCheck \<Rightarrow> True | PopWait \<Rightarrow> True
     | Returned (Popped _) \<Rightarrow> True | _ \<Rightarrow> False)"
| "consumer_role Finished p = (p = Returned (Popped None))"
| "consumer_role _ p = outside p"

fun in_flight :: "consumer_pc \<Rightarrow> tick pc \<Rightarrow> tick list" where
  "in_flight (Handling x) _ = [x]"
| "in_flight Popping (Returned (Popped (Some x))) = [x]"
| "in_flight _ _ = []"

definition roles :: "queue_sink \<Rightarrow> bool" where
  "roles s \<longleftrightarrow> io_role (io s) (pcs (m_queue s) 0) \<and> consumer_role (consumer s) (pcs (m_queue s) 1)"

definition ledger :: "queue_sink \<Rightarrow> bool" where
  "ledger s \<longleftrightarrow> received (m_queue s) = taken s @ in_flight (consumer s) (pcs (m_queue s) 1) \<and>
     (\<not> muted s \<longrightarrow> handled s = taken s \<and> (consumer s \<noteq> NotStarted \<longrightarrow> m_on_tick s))"

definition lifecycle :: "queue_sink \<Rightarrow> bool" where
  "lifecycle s \<longleftrightarrow> (joinable s \<longrightarrow> consumer s \<noteq> NotStarted) \<and>
     (\<not> joinable s \<longrightarrow> consumer s = NotStarted \<or> consumer s = Finished) \<and>
     (io s = Joining \<longrightarrow> joinable s \<and> m_closed (que (m_queue s))) \<and>
     (io s = Closing \<longrightarrow> close_seen (m_queue s) 0)"

definition sink_inv :: "64 word \<Rightarrow> queue_sink \<Rightarrow> bool" where
  "sink_inv c s \<longleftrightarrow> thread_inv 2 c (m_queue s) \<and> ended (m_queue s) \<and> roles s \<and> ledger s \<and> lifecycle s"

lemmas sink_inv_defs = sink_inv_def roles_def ledger_def lifecycle_def

lemma io_role_advances: "io_role i p \<Longrightarrow> advances p q \<Longrightarrow> io_role i q"
  by (cases i; cases p) (auto split: outcome.splits)

lemma consumer_role_advances: "consumer_role k p \<Longrightarrow> advances p q \<Longrightarrow> consumer_role k q"
  by (cases k; cases p) (auto split: outcome.splits)

lemma in_flight_not_returned:
  "consumer_role k p \<Longrightarrow> (\<And>x. p \<noteq> Returned (Popped (Some x))) \<Longrightarrow> consumer_role k q \<Longrightarrow>
    (\<And>x. q \<noteq> Returned (Popped (Some x))) \<Longrightarrow> in_flight k p = in_flight k q"
  by (cases "(k, p)" rule: in_flight.cases; cases "(k, q)" rule: in_flight.cases) auto

lemma io_role_not_popping: "io_role i p \<Longrightarrow> p \<noteq> PopCheck \<and> p \<noteq> PopWait"
  by (cases i) auto

text \<open>A step of the queue under the sink.\<close>

lemma roles_in_queue: "istep 2 (m_queue s) q \<Longrightarrow> roles s \<Longrightarrow> roles (s\<lparr>m_queue := q\<rparr>)"
  using pcs_istep [of 2 "m_queue s" q 0] pcs_istep [of 2 "m_queue s" q 1]
  by (auto simp: roles_def intro: io_role_advances consumer_role_advances)

lemma ledger_in_queue:
  assumes step: "istep 2 (m_queue s) q" and sound: "sound_queue c (m_queue s)"
    and "roles s" and "ledger s"
  shows "ledger (s\<lparr>m_queue := q\<rparr>)"
proof -
  let ?p = "pcs (m_queue s) 1" and ?q = "pcs q 1"
  have role: "consumer_role (consumer s) ?p" using assms(3) by (simp add: roles_def)
  have role': "consumer_role (consumer s) ?q"
    using roles_in_queue [OF step assms(3)] by (simp add: roles_def)
  from received_istep [OF step sound]
  have "received q = taken s @ in_flight (consumer s) ?q"
  proof (elim disjE conjE exE)
    assume same: "received q = received (m_queue s)"
      and kept: "\<forall>u x. pcs q u = Returned (Popped (Some x)) \<longrightarrow> pcs (m_queue s) u = pcs q u"
    have "in_flight (consumer s) ?p = in_flight (consumer s) ?q"
    proof (cases "?p = ?q")
      case False
      then have "?q \<noteq> Returned (Popped (Some x))" for x using kept by metis
      moreover have "?p \<noteq> Returned (Popped (Some x))" for x
        using pcs_istep [OF step, of 1] False by auto
      ultimately show ?thesis using role role' by (intro in_flight_not_returned) auto
    qed simp
    with same assms(4) show ?thesis by (simp add: ledger_def)
  next
    fix t x
    assume t: "t < 2" "pcs (m_queue s) t = PopCheck" "pcs q = (pcs (m_queue s))(t := Returned (Popped (Some x)))"
      and grown: "received q = received (m_queue s) @ [x]"
    have "t = 1"
      using t(1,2) assms(3) io_role_not_popping [of "io s" "pcs (m_queue s) 0"]
      by (cases "t = 0") (auto simp: roles_def)
    then have "consumer s = Popping" using role t(2) by (cases "consumer s") auto
    with t \<open>t = 1\<close> grown assms(4) show ?thesis by (simp add: ledger_def)
  qed
  with assms(4) show ?thesis by (simp add: ledger_def)
qed

lemma lifecycle_in_queue:
  assumes "istep 2 (m_queue s) q" and "sound_queue c (m_queue s)" and "lifecycle s"
  shows "lifecycle (s\<lparr>m_queue := q\<rparr>)"
  using assms closed_istep [OF assms(1,2)] close_seen_istep [OF assms(1,2), of 0]
  by (auto simp: lifecycle_def)

lemma sink_inv_in_queue:
  assumes "sink_inv c s" and "istep 2 (m_queue s) q"
  shows "sink_inv c (s\<lparr>m_queue := q\<rparr>)"
proof -
  have q: "qstep 2 (m_queue s) q" using assms(2) by (rule qstep.internal)
  have sound: "sound_queue c (m_queue s)" using assms(1) by (simp add: sink_inv_def thread_inv_def)
  from assms(1) q have "thread_inv 2 c q" "ended q"
    by (auto simp: sink_inv_def intro: queue_threads.preserved ended_qstep)
  with assms sound roles_in_queue ledger_in_queue lifecycle_in_queue show ?thesis
    by (simp add: sink_inv_def)
qed

text \<open>A call into the queue is a step of the queue.\<close>

lemma begin_call_queue:
  assumes "sink_inv c s" and "t < 2" and "outside (pcs (m_queue s) t)" and "entry p"
  shows "thread_inv 2 c (goto t p (m_queue s)) \<and> ended (goto t p (m_queue s))"
proof -
  have "\<not> crashed (m_queue s)" using assms(1) by (simp add: sink_inv_def thread_inv_def sound_queue_def)
  with assms(2-4) have "qstep 2 (m_queue s) (goto t p (m_queue s))" by (blast intro: qstep.call)
  with assms(1) show ?thesis
    by (auto simp: sink_inv_def intro: queue_threads.preserved ended_qstep)
qed

lemma received_goto [simp]: "received (goto t p s) = received s"
  by (simp add: received_def goto_def)

text \<open>The sink's own fields at each step, the queue standing still or taking a call.\<close>

lemma sink_inv_io_call:
  assumes "sink_inv c s" and "io s = Ready" and "entry p" and "io_role i p" and "i \<noteq> Ready" and "i \<noteq> Joining"
  shows "sink_inv c ((begin_call 0 p s)\<lparr>io := i\<rparr>)"
proof -
  have "outside (pcs (m_queue s) 0)" using assms(1,2) by (simp add: sink_inv_def roles_def)
  then have "thread_inv 2 c (goto 0 p (m_queue s)) \<and> ended (goto 0 p (m_queue s))"
    using assms(1,3) by (intro begin_call_queue) simp_all
  moreover have "p \<noteq> CloseNotify" and "p \<noteq> Returned Shut" using assms(3) by auto
  ultimately show ?thesis
    using assms by (simp add: sink_inv_defs begin_call_def close_seen_def)
      (simp add: goto_def)
qed

lemma sink_inv_pop_call:
  assumes "sink_inv c s" and "consumer s = Looping"
  shows "sink_inv c ((begin_call 1 PopLock s)\<lparr>consumer := Popping\<rparr>)"
proof -
  have "outside (pcs (m_queue s) 1)" using assms by (simp add: sink_inv_def roles_def)
  then have "thread_inv 2 c (goto 1 PopLock (m_queue s)) \<and> ended (goto 1 PopLock (m_queue s))"
    using assms(1) by (intro begin_call_queue) simp_all
  then show ?thesis
    using assms by (simp add: sink_inv_defs begin_call_def close_seen_def)
      (simp add: goto_def)
qed

lemma sink_inv_start:
  assumes "sink_inv c s" and "io s = Ready"
  shows "sink_inv c (sink_start callable s)"
proof (cases "joinable s")
  case True
  with assms show ?thesis
    by (auto simp: sink_inv_defs sink_start_def)
next
  case False
  with assms(1) have "consumer s = NotStarted \<or> consumer s = Finished"
    by (simp add: sink_inv_def lifecycle_def)
  with False assms show ?thesis
    by (auto simp: sink_inv_defs sink_start_def)
qed

lemma sink_inv_sstep: "sstep s s' \<Longrightarrow> sink_inv c s \<Longrightarrow> sink_inv c s'"
proof (induction rule: sstep.induct)
  case (in_queue s q)
  then show ?case using sink_inv_in_queue by blast
next
  case (pop_call s)
  then show ?case using sink_inv_pop_call by blast
next
  case (closed_queue s)
  then show ?case by (cases "joinable s") (simp_all add: sink_inv_defs sink_join_def close_seen_def)
next
  case (handle s x)
  then show ?case by (cases "muted s") (simp_all add: sink_inv_defs consume_handle_def)
qed (simp_all add: sink_inv_defs)

lemma sink_inv_env_step: "env_step s s' \<Longrightarrow> sink_inv c s \<Longrightarrow> sink_inv c s'"
proof (induction rule: env_step.induct)
  case (machine s s')
  then show ?case using sink_inv_sstep by blast
next
  case (start s callable)
  then show ?case using sink_inv_start by blast
next
  case (on_tick s x)
  then show ?case unfolding sink_on_tick_def by (intro sink_inv_io_call) simp_all
next
  case (on_feed_state s f)
  then show ?case by (simp add: sink_inv_defs sink_on_feed_state_def)
next
  case (ask_dropped s)
  then show ?case unfolding sink_dropped_def by (intro sink_inv_io_call) simp_all
next
  case (stop s)
  then show ?case unfolding sink_stop_def by (intro sink_inv_io_call) simp_all
next
  case (spurious_wake s)
  then have "qstep 2 (m_queue s) (goto 1 PopLock (m_queue s))"
    by (intro qstep.spurious) (simp_all add: live_def)
  then have "thread_inv 2 c (goto 1 PopLock (m_queue s)) \<and> ended (goto 1 PopLock (m_queue s))"
    using spurious_wake by (auto simp: sink_inv_def intro: queue_threads.preserved ended_qstep)
  moreover have "consumer s = Popping"
    using spurious_wake by (cases "consumer s") (auto simp: sink_inv_def roles_def)
  ultimately show ?case
    using spurious_wake
    by (simp add: sink_inv_defs begin_call_def close_seen_def)
      (simp add: goto_def)
qed

interpretation sink: inductive_invariant
  "\<lambda>s. s = new_sink c \<and> 0 < unat c" env_step "sink_inv c" for c
proof unfold_locales
  fix s assume s: "s = new_sink c \<and> 0 < unat c"
  then have "thread_inv 2 c (initial c)" by (intro queue_threads.holds_initially) simp
  with s show "sink_inv c s"
    by (simp add: sink_inv_defs new_sink_def ended_def)
      (simp add: initial_def received_def)
qed (rule sink_inv_env_step)

lemma sink_run_inv:
  assumes "0 < unat c" and "sink_run c s"
  shows "sink_inv c s"
proof -
  from assms have "reachable (\<lambda>s. s = new_sink c \<and> 0 < unat c) env_step s" by simp
  then show ?thesis by (rule sink.reachable_inv)
qed

text \<open>
  When the consumer has left its loop the queue is closed and empty: every accepted tick was taken
  by the loop, in order, or counted as dropped.
\<close>

lemma consumer_finished:
  assumes "sink_inv c s" and "consumer s = Finished"
  shows "m_closed (que (m_queue s))" and "m_items (que (m_queue s)) = []"
    and "subseq (taken s) (accepted (m_queue s))"
    and "length (accepted (m_queue s)) = length (taken s) + length (filter fst (removed (m_queue s)))"
    and "m_dropped (que (m_queue s)) = of_nat (length (filter fst (removed (m_queue s))))"
proof -
  have p: "pcs (m_queue s) 1 = Returned (Popped None)" and hist: "history (m_queue s)"
    and led: "ledger s"
    using assms by (simp_all add: sink_inv_def roles_def thread_inv_def)
  with assms have dr: "drained (m_queue s)" by (auto simp: sink_inv_def ended_def)
  then show "m_closed (que (m_queue s))" and items: "m_items (que (m_queue s)) = []"
    by (simp_all add: drained_def)
  have "received (m_queue s) = taken s" using led assms(2) by (simp add: ledger_def)
  with subseq_received [OF hist] received_count [OF hist] items
  show "subseq (taken s) (accepted (m_queue s))"
    and "length (accepted (m_queue s)) = length (taken s) + length (filter fst (removed (m_queue s)))"
    by simp_all
  show "m_dropped (que (m_queue s)) = of_nat (length (filter fst (removed (m_queue s))))"
    using hist by (simp add: history_def)
qed

section \<open>Stopping returns\<close>

text \<open>
  A measure of what the two threads still do without a new call: the steps inside the queue, ten
  for each item the consumer will take, and the consumer's and the io thread's own steps.
\<close>

fun pending_push :: "tick pc \<Rightarrow> nat" where
  "pending_push (PushLock _) = 10"
| "pending_push (PushCrit _) = 10"
| "pending_push _ = 0"

fun io_left :: "io_pc \<Rightarrow> nat" where
  "io_left Ready = 0"
| "io_left Closing = 2"
| "io_left _ = 1"

fun consumer_left :: "consumer_pc \<Rightarrow> tick pc \<Rightarrow> nat" where
  "consumer_left NotStarted _ = 0"
| "consumer_left Finished _ = 0"
| "consumer_left Looping _ = 4"
| "consumer_left (Handling _) _ = 5"
| "consumer_left Popping (Returned (Popped (Some _))) = 6"
| "consumer_left Popping _ = 1"

definition sink_work :: "queue_sink \<Rightarrow> nat" where
  "sink_work s = work 2 (m_queue s) + 10 * length (m_items (que (m_queue s))) +
     pending_push (pcs (m_queue s) 0) + io_left (io s) + consumer_left (consumer s) (pcs (m_queue s) 1)"

lemma pending_push_advances: "advances p q \<Longrightarrow> pending_push q \<le> pending_push p"
  by (cases p) auto

lemma pending_push_istep: "istep N s s' \<Longrightarrow> pending_push (pcs s' u) \<le> pending_push (pcs s u)"
  using pcs_istep [of N s s' u] pending_push_advances by fastforce

lemma consumer_left_item:
  "consumer_left k (Returned (Popped (Some x))) \<le> consumer_left k p + 5"
  by (cases "(k, p)" rule: consumer_left.cases) auto

lemma consumer_left_mono:
  "(\<And>x. q \<noteq> Returned (Popped (Some x))) \<Longrightarrow> consumer_left k q \<le> consumer_left k p"
  by (cases "(k, p)" rule: consumer_left.cases; cases "(k, q)" rule: consumer_left.cases) auto

text \<open>Inside the queue: a \<open>push\<close> pays for its item, and an item that a \<open>pop\<close> returns pays for the
  rest of the consumer's round.\<close>

definition queued_work :: "queue_sink \<Rightarrow> nat" where
  "queued_work s = 10 * length (m_items (que (m_queue s))) + pending_push (pcs (m_queue s) 0)"

lemma queued_work_in_queue:
  assumes "roles s" and sound: "sound_queue c (m_queue s)" and step: "istep 2 (m_queue s) q"
  shows "queued_work (s\<lparr>m_queue := q\<rparr>) \<le> queued_work s"
  using items_istep [OF step sound]
proof (elim disjE exE conjE)
  fix t x r
  assume t: "t < 2" "pcs (m_queue s) t = PushCrit x" "pcs q = (pcs (m_queue s))(t := PushNotify r)"
    and len: "length (m_items (que q)) \<le> Suc (length (m_items (que (m_queue s))))"
  have "t \<noteq> 1" using t(2) assms(1) by (cases "consumer s") (auto simp: roles_def)
  with t(1) have "t = 0" by simp
  with t len show ?thesis by (simp add: queued_work_def)
qed (use pending_push_istep [OF step, of 0] in \<open>simp add: queued_work_def\<close>)

lemma consumer_left_in_queue:
  assumes sound: "sound_queue c (m_queue s)" and step: "istep 2 (m_queue s) q"
  defines "left \<equiv> \<lambda>p. consumer_left (consumer s) p"
  shows "left (pcs q 1) \<le> left (pcs (m_queue s) 1) \<or>
    left (pcs q 1) \<le> left (pcs (m_queue s) 1) + 5 \<and> queued_work (s\<lparr>m_queue := q\<rparr>) + 10 \<le> queued_work s"
  using received_istep [OF step sound]
proof (elim disjE exE conjE)
  assume same: "\<forall>u x. pcs q u = Returned (Popped (Some x)) \<longrightarrow> pcs (m_queue s) u = pcs q u"
  have "left (pcs q 1) \<le> left (pcs (m_queue s) 1)"
  proof (cases "pcs q 1 = pcs (m_queue s) 1")
    case False
    with same have "pcs q 1 \<noteq> Returned (Popped (Some x))" for x by metis
    then show ?thesis unfolding left_def by (rule consumer_left_mono)
  qed simp
  then show ?thesis ..
next
  fix t x
  assume t: "pcs q = (pcs (m_queue s))(t := Returned (Popped (Some x)))"
    and items: "m_items (que (m_queue s)) = x # m_items (que q)"
  have "left (pcs q 1) \<le> left (pcs (m_queue s) 1) + 5" using t consumer_left_item by (simp add: left_def)
  with items pending_push_istep [OF step, of 0] show ?thesis by (simp add: queued_work_def)
qed

lemma sink_work_in_queue:
  assumes "roles s" and sound: "sound_queue c (m_queue s)" and step: "istep 2 (m_queue s) q"
  shows "sink_work (s\<lparr>m_queue := q\<rparr>) < sink_work s"
  using work_istep [OF step] queued_work_in_queue [OF assms] consumer_left_in_queue [OF sound step]
  by (auto simp: sink_work_def queued_work_def)

lemma work_goto:
  assumes "t < N" and "\<not> crashed s"
  shows "work N (goto t p s) + steps_left N (pcs s t) = work N s + steps_left N p"
  using assms sum_threads_update [OF assms(1), where f = "steps_left N" and pc = "pcs s" and p = p]
  by (simp add: work_def goto_def)

lemma sink_work_sstep:
  "sstep s s' \<Longrightarrow> sink_inv c s \<Longrightarrow> sink_work s' < sink_work s"
proof (induction rule: sstep.induct)
  case (in_queue s q)
  then show ?case
    by (intro sink_work_in_queue) (auto simp: sink_inv_def thread_inv_def)
next
  case (closed_queue s)
  then show ?case by (simp add: sink_work_def sink_join_def)
next
  case (pop_call s)
  then have "outside (pcs (m_queue s) 1)" and "\<not> crashed (m_queue s)"
    by (simp_all add: sink_inv_def roles_def live_def)
  then have "work 2 (goto 1 PopLock (m_queue s)) \<le> work 2 (m_queue s) + 2"
    using work_goto [of 1 2 "m_queue s" PopLock] by simp
  with pop_call show ?case
    by (simp add: sink_work_def begin_call_def) (simp add: goto_def)
qed (simp_all add: sink_work_def consume_handle_def)

text \<open>Nothing moves: every call of the io thread has returned, and only a \<open>pop\<close> on an open, empty
  queue may still wait.\<close>

lemma stuck_sink_queue:
  assumes "sink_inv c s" and "live s" and stuck: "stuck sstep s"
  shows "outside (pcs (m_queue s) t) \<or>
    pcs (m_queue s) t = PopWait \<and> m_items (que (m_queue s)) = [] \<and> \<not> m_closed (que (m_queue s))"
proof -
  have inv: "thread_inv 2 c (m_queue s)" using assms(1) by (simp add: sink_inv_def)
  have "stuck (istep 2) (m_queue s)"
    using stuck sstep.in_queue [OF assms(2)] unfolding stuck_def by blast
  with inv show ?thesis
    using stuck_quiet [of "m_queue s" 2 t] stuck_waiters [OF inv, of t]
    by (auto simp: thread_inv_def sound_queue_def)
qed

lemma stuck_consumer:
  assumes inv: "sink_inv c s" and "live s" and stuck: "stuck sstep s"
  shows "consumer s = NotStarted \<or> consumer s = Finished \<or>
    consumer s = Popping \<and> m_items (que (m_queue s)) = [] \<and> \<not> m_closed (que (m_queue s))"
proof -
  have no: "\<not> sstep s s'" for s' using stuck by (simp add: stuck_def)
  show ?thesis
  proof (cases "consumer s")
    case Popping
    have "pcs (m_queue s) 1 \<noteq> Returned (Popped out)" for out
      using no sstep.pop_item [OF assms(2) Popping] sstep.pop_end [OF assms(2) Popping] by (cases out) auto
    with Popping inv stuck_sink_queue [OF assms, of 1] show ?thesis
      by (cases "pcs (m_queue s) 1") (auto simp: sink_inv_def roles_def split: outcome.splits)
  qed (use no sstep.pop_call [OF assms(2)] sstep.handle [OF assms(2)] in blast)+
qed

lemma stuck_io:
  assumes inv: "sink_inv c s" and "live s" and stuck: "stuck sstep s"
  shows "io s = Ready"
proof -
  have no: "\<not> sstep s s'" for s' using stuck by (simp add: stuck_def)
  have role: "io_role (io s) (pcs (m_queue s) 0)" using inv by (simp add: sink_inv_def roles_def)
  note calls = sstep.pushed [OF assms(2)] sstep.answered [OF assms(2)] sstep.closed_queue [OF assms(2)]
  show ?thesis
  proof (cases "io s")
    case Joining
    with inv have "consumer s \<noteq> NotStarted" and "m_closed (que (m_queue s))"
      by (simp_all add: sink_inv_def lifecycle_def)
    with stuck_consumer [OF assms] no sstep.joined [OF assms(2) Joining] show ?thesis by blast
  qed (use role stuck_sink_queue [OF assms, of 0] no calls in
      \<open>cases "pcs (m_queue s) 0"; auto split: outcome.splits\<close>)+
qed

text \<open>What \<open>stop\<close> has achieved so far: while it runs, or once it has returned.\<close>

definition stopping :: "queue_sink \<Rightarrow> bool" where
  "stopping s \<longleftrightarrow> live s \<and> (io s = Closing \<or> io s = Joining \<or>
     io s = Ready \<and> \<not> joinable s \<and> m_closed (que (m_queue s)))"

lemma stopping_sstep:
  assumes step: "sstep s s'" and inv: "sink_inv c s" and stopping: "stopping s"
  shows "stopping s'"
proof -
  have "sink_inv c s'" by (rule sink_inv_sstep [OF step inv])
  then have ok: "\<not> crashed (m_queue s')" by (simp add: sink_inv_def thread_inv_def sound_queue_def)
  have sound: "sound_queue c (m_queue s)" using inv by (simp add: sink_inv_def thread_inv_def)
  from step show "stopping s'"
  proof cases
    case (in_queue q)
    then show ?thesis using stopping ok closed_istep [OF in_queue(3) sound] by (auto simp: stopping_def live_def)
  next
    case closed_queue
    then have "m_closed (que (m_queue s))"
      using inv by (simp add: sink_inv_def lifecycle_def close_seen_def)
    with closed_queue stopping show ?thesis by (simp add: stopping_def live_def sink_join_def)
  next
    case joined
    with stopping inv show ?thesis by (simp add: stopping_def live_def sink_inv_def lifecycle_def)
  next
    case pop_call
    with stopping show ?thesis by (simp add: stopping_def live_def begin_call_def goto_def)
  next
    case (handle x)
    with stopping show ?thesis by (simp add: stopping_def live_def consume_handle_def)
  qed (use stopping in \<open>auto simp: stopping_def live_def\<close>)
qed

interpretation sink_stop: decreasing_steps sstep "\<lambda>s. sink_inv c s \<and> stopping s" sink_work for c
  by unfold_locales (auto intro: sink_inv_sstep stopping_sstep sink_work_sstep)

lemma stop_run:
  assumes "sink_inv c s" and "stopping s"
  shows "inevitably sstep s (\<lambda>s'. io s' = Ready \<and> \<not> joinable s' \<and> m_closed (que (m_queue s')) \<and>
    (consumer s' = NotStarted \<or> consumer s' = Finished))"
proof (rule sink_stop.inevitable [of c])
  fix s' assume s': "sink_inv c s' \<and> stopping s'" and stuck: "stuck sstep s'"
  then have "io s' = Ready" using stuck_io by (auto simp: stopping_def)
  with s' show "io s' = Ready \<and> \<not> joinable s' \<and> m_closed (que (m_queue s')) \<and>
    (consumer s' = NotStarted \<or> consumer s' = Finished)"
    by (auto simp: stopping_def sink_inv_def lifecycle_def)
qed (use assms in simp)

section \<open>ConsoleSink resolves ids through the registry\<close>

lemma console_on_tick_eq:
  assumes "registry_inv r"
  shows "console_on_tick r t = Defined
    (case List.find (\<lambda>k. key_id k = tick_id t) (m_keys r) of
       None \<Rightarrow> (''?'', ''?'', price t)
     | Some k \<Rightarrow> (to_string (kind k), symbol k, price t))"
  using assms by (simp add: console_on_tick_def registry_inv_def split: option.split)

section \<open>The sink drives the queue by the queue's own steps\<close>

text \<open>A step of the sink leaves the queue alone or is one step of the queue machine.\<close>

lemma call_qstep:
  "sink_inv c s \<Longrightarrow> t < 2 \<Longrightarrow> outside (pcs (m_queue s) t) \<Longrightarrow> entry p \<Longrightarrow>
    qstep 2 (m_queue s) (goto t p (m_queue s))"
  by (intro qstep.call) (simp_all add: sink_inv_def thread_inv_def sound_queue_def)

lemma sstep_qstep:
  assumes "sstep s s'" and "sink_inv c s"
  shows "m_queue s' = m_queue s \<or> qstep 2 (m_queue s) (m_queue s')"
  using assms(1)
proof cases
  case (in_queue q)
  then show ?thesis by (simp add: qstep.internal)
next
  case pop_call
  then have "outside (pcs (m_queue s) 1)" using assms(2) by (simp add: sink_inv_def roles_def)
  with pop_call show ?thesis using call_qstep [OF assms(2), of 1 PopLock] by (simp add: begin_call_def)
qed (simp_all add: sink_join_def consume_handle_def)

lemma env_step_qstep:
  assumes "env_step s s'" and "sink_inv c s"
  shows "m_queue s' = m_queue s \<or> qstep 2 (m_queue s) (m_queue s')"
proof -
  have io: "qstep 2 (m_queue s) (goto 0 p (m_queue s))" if "io s = Ready" and "entry p" for p
    using call_qstep [OF assms(2), of 0 p] assms(2) that by (simp add: sink_inv_def roles_def)
  from assms(1) show ?thesis
  proof cases
    case machine
    then show ?thesis using sstep_qstep assms(2) by blast
  next
    case (spurious_wake)
    then show ?thesis by (simp add: begin_call_def live_def qstep.spurious)
  qed (use io in \<open>simp_all add: sink_defs Let_def\<close>)
qed

interpretation sink_queue: refinement_mapping
  "\<lambda>s. s = new_sink c \<and> 0 < unat c" env_step "sink_inv c" "\<lambda>q. q = initial c" "qstep 2" m_queue for c
  by unfold_locales (simp add: new_sink_def, rule env_step_qstep)

lemma sink_run_queue_run:
  assumes "0 < unat c" and "sink_run c s"
  shows "queue_run 2 c (m_queue s)"
proof -
  from assms have "reachable (\<lambda>s. s = new_sink c \<and> 0 < unat c) env_step s" by simp
  then show ?thesis by (rule sink_queue.reachable_abs)
qed

lemma finished_within_capacity:
  assumes "0 < unat c" and "sink_run c s" and "consumer s = Finished"
    and "length (accepted (m_queue s)) \<le> unat c"
  shows "taken s = accepted (m_queue s)"
proof -
  have inv: "sink_inv c s" by (rule sink_run_inv [OF assms(1,2)])
  have "received (m_queue s) = taken s" using inv assms(3) by (simp add: sink_inv_def ledger_def)
  then show ?thesis
    using nothing_displaced(2) [OF assms(1) sink_run_queue_run [OF assms(1,2)] assms(4)]
      consumer_finished(2) [OF inv assms(3)] by simp
qed

section \<open>The sink catches up\<close>

text \<open>
  Left alone, a started sink comes to rest with an empty queue: every tick it accepted was handled or
  counted as dropped.
\<close>

definition consuming :: "queue_sink \<Rightarrow> bool" where
  "consuming s \<longleftrightarrow> live s \<and> consumer s \<noteq> NotStarted"

lemma consuming_sstep:
  assumes "sstep s s'" and "sink_inv c s" and "consuming s"
  shows "consuming s'"
proof -
  have "sink_inv c s'" by (rule sink_inv_sstep [OF assms(1,2)])
  then have "\<not> crashed (m_queue s')" by (simp add: sink_inv_def thread_inv_def sound_queue_def)
  with assms(1,3) show "consuming s'"
    by (auto elim!: sstep.cases simp: consuming_def live_def sink_join_def begin_call_def consume_handle_def split: if_splits)
qed

interpretation sink_rest: decreasing_steps sstep "\<lambda>s. sink_inv c s \<and> consuming s" sink_work for c
  by unfold_locales (auto intro: sink_inv_sstep consuming_sstep sink_work_sstep)

text \<open>At rest the consumer has nothing in hand, so what it went through is what it received.\<close>

lemma at_rest:
  assumes inv: "sink_inv c s" and "consuming s" and stuck: "stuck sstep s"
  shows "io s = Ready" and "m_items (que (m_queue s)) = []" and "taken s = received (m_queue s)"
proof -
  have alive: "live s" using assms(2) by (simp add: consuming_def)
  show "io s = Ready" by (rule stuck_io [OF inv alive stuck])
  have cons: "consumer s = Finished \<or> consumer s = Popping \<and> m_items (que (m_queue s)) = []"
    using stuck_consumer [OF inv alive stuck] assms(2) by (auto simp: consuming_def)
  then show "m_items (que (m_queue s)) = []" using consumer_finished(2) [OF inv] by blast
  have "pcs (m_queue s) 1 \<noteq> Returned (Popped (Some x))" if "consumer s = Popping" for x
    using stuck sstep.pop_item [OF alive that] by (auto simp: stuck_def)
  with cons have "in_flight (consumer s) (pcs (m_queue s) 1) = []"
    by (cases "(consumer s, pcs (m_queue s) 1)" rule: in_flight.cases) auto
  then show "taken s = received (m_queue s)" using inv by (simp add: sink_inv_def ledger_def)
qed

lemma at_rest_ledger:
  assumes "sink_inv c s" and "consuming s" and "stuck sstep s"
  shows "subseq (taken s) (accepted (m_queue s)) \<and>
    dropped (que (m_queue s)) = of_nat (length (accepted (m_queue s)) - length (taken s)) \<and>
    (muted s \<or> handled s = taken s)"
proof -
  note rest = at_rest [OF assms]
  have hist: "history (m_queue s)" and led: "ledger s"
    using assms(1) by (simp_all add: sink_inv_def thread_inv_def)
  have "m_dropped (que (m_queue s)) = of_nat (length (filter fst (removed (m_queue s))))"
    using hist by (simp add: history_def)
  with rest(2,3) subseq_received [OF hist] received_count [OF hist] led show ?thesis
    by (auto simp: dropped_def ledger_def)
qed


lemma catch_up:
  assumes "sink_inv c s" and "consuming s"
  shows "inevitably sstep s (\<lambda>s'. io s' = Ready \<and> m_items (que (m_queue s')) = [] \<and>
    subseq (taken s') (accepted (m_queue s')) \<and>
    dropped (que (m_queue s')) = of_nat (length (accepted (m_queue s')) - length (taken s')) \<and>
    (muted s' \<or> handled s' = taken s'))"
  by (rule sink_rest.inevitable [of c]) (use assms in simp, use at_rest at_rest_ledger in blast)

end
