(* ===== verification/Queue_Linear.thy ===== *)
theory Queue_Linear
  imports Queue_Calls
begin

text \<open>
  What \<open>BlockingQueue\<close> promises to its callers, and that the threads of \<open>Queue_Threads\<close> keep it.
  The promise is a sequential queue of bounded length, \<open>serve\<close>, that drops its oldest items.  A run
  of the machine is recorded as a trace of calls, of effects (the critical section of the call) and
  of returns; the effects of every trace are a run of the sequential queue, and every thread's
  calls, effects and returns alternate, so that each call takes effect between its start and its
  end.
\<close>

section \<open>The sequential queue\<close>

record 'a bounded =
  contents :: "'a list"
  displaced :: nat
  finished :: bool

datatype 'a operation = Offer 'a | Take | Shutdown | Inspect stat

definition fresh :: "'a bounded" where
  "fresh = \<lparr>contents = [], displaced = 0, finished = False\<rparr>"

text \<open>
  An open queue keeps the newest \<open>cap\<close> items.  \<open>Take\<close> has no result while the queue is open and
  empty: the caller waits.
\<close>

fun inspected :: "stat \<Rightarrow> 'a bounded \<Rightarrow> 'a outcome" where
  "inspected Dropped b = Count (displaced b mod 2 ^ 64)"
| "inspected Size b = Count (length (contents b))"
| "inspected Closed b = Flag (finished b)"

fun serve :: "nat \<Rightarrow> 'a operation \<Rightarrow> 'a bounded \<Rightarrow> ('a bounded \<times> 'a outcome) option" where
  "serve cap (Offer x) b =
     (if finished b then Some (b, Pushed False)
      else let excess = Suc (length (contents b)) - cap in
        Some (b\<lparr>contents := drop excess (contents b @ [x]), displaced := displaced b + excess\<rparr>,
              Pushed (excess = 0)))"
| "serve cap Take b =
     (case contents b of
        x # rest \<Rightarrow> Some (b\<lparr>contents := rest\<rparr>, Popped (Some x))
      | [] \<Rightarrow> if finished b then Some (b, Popped None) else None)"
| "serve cap Shutdown b = Some (b\<lparr>finished := True\<rparr>, Shut)"
| "serve cap (Inspect k) b = Some (b, inspected k b)"

section \<open>Traces\<close>

datatype 'a event =
  Invoke nat "'a operation"
| Effect nat "'a operation" "'a outcome"
| Return nat "'a outcome"

fun thread_of :: "'a event \<Rightarrow> nat" where
  "thread_of (Invoke t _) = t"
| "thread_of (Effect t _ _) = t"
| "thread_of (Return t _) = t"

text \<open>The effects of a trace, run on the sequential queue: every outcome must be the one it gives.\<close>

fun replay :: "nat \<Rightarrow> 'a event list \<Rightarrow> 'a bounded \<Rightarrow> 'a bounded option" where
  "replay cap [] b = Some b"
| "replay cap (Effect t op out # es) b =
     (case serve cap op b of
        None \<Rightarrow> None
      | Some (b', out') \<Rightarrow> if out = out' then replay cap es b' else None)"
| "replay cap (Invoke t op # es) b = replay cap es b"
| "replay cap (Return t out # es) b = replay cap es b"

text \<open>One thread's part of a trace: call, effect, return, in turn, of one operation and outcome.\<close>

datatype 'a stage = Free | Asked "'a operation" | Answered "'a outcome"

fun follow :: "'a stage \<Rightarrow> 'a event \<Rightarrow> 'a stage option" where
  "follow Free (Invoke _ op) = Some (Asked op)"
| "follow (Asked op) (Effect _ op' out) = (if op = op' then Some (Answered out) else None)"
| "follow (Answered out) (Return _ out') = (if out = out' then Some Free else None)"
| "follow _ _ = None"

fun conversation :: "nat \<Rightarrow> 'a event list \<Rightarrow> 'a stage \<Rightarrow> 'a stage option" where
  "conversation t [] st = Some st"
| "conversation t (e # es) st =
     (if thread_of e = t then (case follow st e of None \<Rightarrow> None | Some st' \<Rightarrow> conversation t es st')
      else conversation t es st)"

section \<open>The trace of a run\<close>

text \<open>What a thread does when it moves from \<open>p\<close> to \<open>q\<close>, as its caller sees it.\<close>

fun request :: "'a pc \<Rightarrow> 'a operation option" where
  "request (PushLock x) = Some (Offer x)"
| "request PopLock = Some Take"
| "request CloseLock = Some Shutdown"
| "request (StatLock k) = Some (Inspect k)"
| "request _ = None"

fun critical :: "'a pc \<Rightarrow> 'a operation option" where
  "critical (PushCrit x) = Some (Offer x)"
| "critical PopCheck = Some Take"
| "critical CloseCrit = Some Shutdown"
| "critical (StatCrit k) = Some (Inspect k)"
| "critical _ = None"

fun notifying :: "'a pc \<Rightarrow> 'a outcome option" where
  "notifying (PushNotify r) = Some (Pushed r)"
| "notifying CloseNotify = Some Shut"
| "notifying _ = None"

definition move_events :: "nat \<Rightarrow> 'a pc \<Rightarrow> 'a pc \<Rightarrow> 'a event list" where
  "move_events t p q =
     (if outside p then (case request q of Some op \<Rightarrow> [Invoke t op] | None \<Rightarrow> [])
      else case critical p of
        Some op \<Rightarrow>
          (case q of
             Returned out \<Rightarrow> [Effect t op out, Return t out]
           | _ \<Rightarrow> (case notifying q of Some out \<Rightarrow> [Effect t op out] | None \<Rightarrow> []))
      | None \<Rightarrow> (case q of Returned out \<Rightarrow> [Return t out] | _ \<Rightarrow> []))"

definition step_events :: "nat \<Rightarrow> 'a qstate \<Rightarrow> 'a qstate \<Rightarrow> 'a event list" where
  "step_events N s s' = concat (map (\<lambda>t. move_events t (pcs s t) (pcs s' t)) [0..<N])"

definition traced_step :: "nat \<Rightarrow> 'a event list \<times> 'a qstate \<Rightarrow> 'a event list \<times> 'a qstate \<Rightarrow> bool" where
  "traced_step N p p' \<longleftrightarrow> qstep N (snd p) (snd p') \<and> fst p' = fst p @ step_events N (snd p) (snd p')"

abbreviation traced_run :: "nat \<Rightarrow> 64 word \<Rightarrow> 'a event list \<times> 'a qstate \<Rightarrow> bool" where
  "traced_run N capacity \<equiv> reachable (\<lambda>p. p = ([], initial capacity)) (traced_step N)"

text \<open>Every run of the machine has its trace.\<close>

lemma traced_run_of:
  assumes "queue_run N c s"
  obtains es where "traced_run N c (es, s)"
proof -
  from assms have "\<exists>es. traced_run N c (es, s)"
  proof (induction rule: reachable.induct)
    case (start s)
    then show ?case by (auto intro: reachable.start)
  next
    case (step s s')
    then obtain es where "traced_run N c (es, s)" by blast
    moreover have "traced_step N (es, s) (es @ step_events N s s', s')"
      using step.hyps(2) by (simp add: traced_step_def)
    ultimately show ?case by (blast intro: reachable.step)
  qed
  with that show thesis by blast
qed

section \<open>Conversations\<close>

fun stage_of :: "'a pc \<Rightarrow> 'a stage" where
  "stage_of Idle = Free"
| "stage_of (Returned _) = Free"
| "stage_of (PushLock x) = Asked (Offer x)"
| "stage_of (PushCrit x) = Asked (Offer x)"
| "stage_of (PushNotify r) = Answered (Pushed r)"
| "stage_of PopLock = Asked Take"
| "stage_of PopCheck = Asked Take"
| "stage_of PopWait = Asked Take"
| "stage_of CloseLock = Asked Shutdown"
| "stage_of CloseCrit = Asked Shutdown"
| "stage_of CloseNotify = Answered Shut"
| "stage_of (StatLock k) = Asked (Inspect k)"
| "stage_of (StatCrit k) = Asked (Inspect k)"

lemma move_events_thread: "e \<in> set (move_events t p q) \<Longrightarrow> thread_of e = t"
  by (auto simp: move_events_def split: if_splits option.splits pc.splits)

lemma move_events_same [simp]: "move_events t p p = []"
  by (cases p) (auto simp: move_events_def)

lemma move_events_woken [simp]: "move_events t PopWait PopLock = []"
  by (simp add: move_events_def)

lemma move_events_notified [simp]:
  "move_events t (PushNotify r) (Returned out) = [Return t out]"
  "move_events t CloseNotify (Returned out) = [Return t out]"
  by (simp_all add: move_events_def)

lemma conversation_append:
  "conversation t (es @ fs) st = Option.bind (conversation t es st) (conversation t fs)"
  by (induction es arbitrary: st) (auto split: option.split)

lemma conversation_others: "(\<And>e. e \<in> set es \<Longrightarrow> thread_of e \<noteq> t) \<Longrightarrow> conversation t es st = Some st"
  by (induction es) auto

lemma conversation_step_events:
  "t < N \<Longrightarrow> conversation t (step_events N s s') st =
    conversation t (move_events t (pcs s t) (pcs s' t)) st"
  unfolding step_events_def
proof (induction N arbitrary: st)
  case (Suc N)
  show ?case
  proof (cases "t = N")
    case True
    have "conversation t (concat (map (\<lambda>t. move_events t (pcs s t) (pcs s' t)) [0..<N])) st = Some st"
      using True by (intro conversation_others) (auto dest: move_events_thread)
    with True show ?thesis by (simp add: conversation_append)
  next
    case False
    then have "conversation t (move_events N (pcs s N) (pcs s' N)) st' = Some st'" for st'
      by (intro conversation_others) (auto dest: move_events_thread)
    then have last: "conversation t (move_events N (pcs s N) (pcs s' N)) = Some" by (rule ext)
    from False Suc show ?thesis by (simp add: conversation_append last)
  qed
qed simp

text \<open>How a thread's position may change in a step of the machine.\<close>

definition moves :: "'a pc \<Rightarrow> 'a pc \<Rightarrow> bool" where
  "moves p q \<longleftrightarrow> q = p \<or> advances p q \<or> outside p \<and> entry q"

lemma qstep_moves: "qstep N s s' \<Longrightarrow> moves (pcs s u) (pcs s' u)"
proof (induction rule: qstep.induct)
  case (internal s s')
  then show ?case using pcs_istep [of N s s' u] by (auto simp: moves_def)
qed (auto simp: moves_def goto_def)

lemma outside_no_advance: "outside p \<Longrightarrow> \<not> advances p q"
  by (cases p) auto

lemma moves_conversation:
  assumes "moves p q"
  shows "conversation t (move_events t p q) (stage_of p) = Some (stage_of q)"
proof (cases "q = p")
  case moved: False
  show ?thesis
  proof (cases "outside p")
    case True
    with assms moved have "entry q" by (auto simp: moves_def outside_no_advance)
    moreover have "stage_of p = Free" using True by (cases p) auto
    ultimately show ?thesis using True by (cases q) (auto simp: move_events_def)
  next
    case False
    with assms moved have "advances p q" by (simp add: moves_def)
    then show ?thesis using False by (cases p) (auto simp: move_events_def)
  qed
qed simp

section \<open>Effects\<close>

definition spec_of :: "'a qstate \<Rightarrow> 'a bounded" where
  "spec_of s = \<lparr>contents = m_items (que s), displaced = length (filter fst (removed s)),
     finished = m_closed (que s)\<rparr>"

lemma replay_append: "replay cap (es @ fs) b = Option.bind (replay cap es b) (replay cap fs)"
proof (induction cap es b rule: replay.induct)
  case (2 cap t op out es b)
  then show ?case by (auto split: option.splits)
qed auto

lemma step_events_single:
  assumes "t < N" and "\<And>u. u < N \<Longrightarrow> u \<noteq> t \<Longrightarrow> move_events u (pcs s u) (pcs s' u) = []"
  shows "step_events N s s' = move_events t (pcs s t) (pcs s' t)"
  using assms unfolding step_events_def
proof (induction N)
  case (Suc N)
  show ?case
  proof (cases "t = N")
    case True
    with Suc.prems(2) have "concat (map (\<lambda>t. move_events t (pcs s t) (pcs s' t)) [0..<N]) = []" by auto
    with True show ?thesis by simp
  next
    case False
    with Suc show ?thesis by simp
  qed
qed simp

lemma step_events_move:
  "t < N \<Longrightarrow> pcs s' = (pcs s)(t := q) \<Longrightarrow> step_events N s s' = move_events t (pcs s t) q"
  by (subst step_events_single [of t]) auto

lemma serve_inspect:
  assumes "history s"
  shows "inspected k (spec_of s) = observe k (que s)"
  using assms by (cases k)
    (simp_all add: spec_of_def history_def dropped_def queue_size_def closed_def unat_of_nat)

text \<open>A step's events, run on the sequential queue, lead to the state after the step.\<close>

lemma replay_istep:
  assumes "istep N s s'" and "sound_queue c s" and hist: "history s"
  shows "replay (unat c) (step_events N s s') (spec_of s) = Some (spec_of s')"
  using assms(1,2)
proof (cases rule: sound_steps)
  case (lock t p)
  then show ?thesis
    by (cases "pcs s t") (auto simp: step_events_move [of t] move_events_def spec_of_def move_defs)
next
  case (notify_waiter t r u)
  then have "step_events N s s' = [Return t (Pushed r)]"
    by (subst step_events_single [of t]) (auto simp: goto_def)
  with notify_waiter show ?thesis by (simp add: spec_of_def goto_def)
next
  case (close_notify t)
  have "move_events u (pcs s u) (wake_all (pcs s) u) = []" for u
    by (cases "pcs s u") (simp_all add: wake_all_def)
  then have "step_events N s s' = [Return t Shut]"
    using close_notify by (subst step_events_single [of t]) (simp_all add: goto_def wake_all_def)
  with close_notify show ?thesis by (simp add: spec_of_def goto_def)
next
  case (stat_crit t k)
  then have "step_events N s s' =
      [Effect t (Inspect k) (observe k (que s)), Return t (observe k (que s))]"
    by (simp add: step_events_move [of t] move_defs) (simp add: move_events_def)
  with stat_crit hist show ?thesis by (simp add: serve_inspect) (simp add: spec_of_def move_defs)
qed (simp_all add: step_events_move move_defs move_events_def spec_of_def Let_def)

lemma replay_call: "replay cap (move_events t p q) b = Some b" if "outside p"
  using that by (auto simp: move_events_def split: option.split)

lemma replay_qstep:
  assumes "qstep N s s'" and "sound_queue c s" and "history s"
  shows "replay (unat c) (step_events N s s') (spec_of s) = Some (spec_of s')"
  using assms
proof cases
  case internal
  then show ?thesis using replay_istep assms(2,3) by blast
next
  case (call t p)
  then have "step_events N s s' = move_events t (pcs s t) p"
    by (simp add: step_events_move [of t] goto_def)
  with call show ?thesis by (simp add: replay_call) (simp add: spec_of_def goto_def)
next
  case (spurious t)
  then have "step_events N s s' = []"
    by (simp add: step_events_move [of t] goto_def)
  with spurious show ?thesis by (simp add: spec_of_def goto_def)
qed

section \<open>Every trace is linearizable\<close>

definition linear :: "nat \<Rightarrow> 64 word \<Rightarrow> 'a event list \<times> 'a qstate \<Rightarrow> bool" where
  "linear N c p \<longleftrightarrow> thread_inv N c (snd p) \<and>
     replay (unat c) (fst p) fresh = Some (spec_of (snd p)) \<and>
     (\<forall>t<N. conversation t (fst p) Free = Some (stage_of (pcs (snd p) t)))"

interpretation queue_traces: inductive_invariant
  "\<lambda>p. p = ([], initial c) \<and> 0 < unat c" "traced_step N" "linear N c" for N c
proof unfold_locales
  fix p :: "'a event list \<times> 'a qstate"
  assume p: "p = ([], initial c) \<and> 0 < unat c"
  then have "thread_inv N c (initial c)" by (intro queue_threads.holds_initially) simp
  with p show "linear N c p"
    by (simp add: linear_def fresh_def spec_of_def) (simp add: initial_def new_queue_def)
next
  fix p p' :: "'a event list \<times> 'a qstate"
  assume lin: "linear N c p" and step: "traced_step N p p'"
  obtain es s where p: "p = (es, s)" by (cases p)
  obtain s' where p': "p' = (es @ step_events N s s', s')" and q: "qstep N s s'"
    using step p by (cases p') (auto simp: traced_step_def)
  have inv: "thread_inv N c s" using lin p by (simp add: linear_def)
  then have sound: "sound_queue c s" and hist: "history s" by (simp_all add: thread_inv_def)
  have "thread_inv N c s'" using queue_threads.preserved [OF inv q] .
  moreover have "replay (unat c) (es @ step_events N s s') fresh = Some (spec_of s')"
    using lin p by (simp add: linear_def replay_append replay_qstep [OF q sound hist])
  moreover have "conversation t (es @ step_events N s s') Free = Some (stage_of (pcs s' t))" if "t < N" for t
    using lin p that moves_conversation [OF qstep_moves [OF q, of t], of t]
    by (simp add: linear_def conversation_append conversation_step_events)
  ultimately show "linear N c p'" by (simp add: p' linear_def)
qed

lemma traced_run_linear:
  assumes "0 < unat c" and "traced_run N c p"
  shows "linear N c p"
proof -
  from assms have "reachable (\<lambda>p. p = ([], initial c) \<and> 0 < unat c) (traced_step N) p" by simp
  then show ?thesis by (rule queue_traces.reachable_inv)
qed

text \<open>A trace is one of a run of the machine.\<close>

interpretation queue_trace_run: refinement_mapping
  "\<lambda>p. p = ([], initial c) \<and> 0 < unat c" "traced_step N" "linear N c" "\<lambda>s. s = initial c" "qstep N" snd
  for N c
  by unfold_locales (auto simp: traced_step_def)

end
