(* ===== verification/Sink_Trace.thy ===== *)
theory Sink_Trace
  imports Sinks Queue_Linear
begin

text \<open>
  What \<open>marketdata/QueueSink.hpp\<close> asks of its queue.  A run of the sink is recorded with the calls
  made on the sink and with the trace of its queue (\<open>Queue_Linear\<close>): the trace is one of the queue
  machine, the io thread's operations in it are those that the calls stand for, in the order of the
  calls, the consumer only ever takes, and what its \<open>pop\<close>s returned is what its loop has gone
  through, with at most one tick in hand.
\<close>

section \<open>Recorded runs\<close>

text \<open>The calls into a \<open>QueueSink\<close>; a step of its two threads is \<open>Internal\<close>.\<close>

datatype sink_call = Internal | Start_call bool | Tick_call tick | State_call FeedState | Dropped_call | Stop_call

inductive sink_step :: "sink_call \<Rightarrow> queue_sink \<Rightarrow> queue_sink \<Rightarrow> bool" where
  working: "sstep s s' \<Longrightarrow> sink_step Internal s s'"
| spurious: "live s \<Longrightarrow> pcs (m_queue s) 1 = PopWait \<Longrightarrow> sink_step Internal s (begin_call 1 PopLock s)"
| start: "live s \<Longrightarrow> io s = Ready \<Longrightarrow> sink_step (Start_call callable) s (sink_start callable s)"
| on_tick: "live s \<Longrightarrow> io s = Ready \<Longrightarrow> sink_step (Tick_call x) s (sink_on_tick x s)"
| on_feed_state: "live s \<Longrightarrow> io s = Ready \<Longrightarrow> sink_step (State_call f) s (sink_on_feed_state f s)"
| ask_dropped: "live s \<Longrightarrow> io s = Ready \<Longrightarrow> sink_step Dropped_call s (sink_dropped s)"
| stop: "live s \<Longrightarrow> io s = Ready \<Longrightarrow> sink_step Stop_call s (sink_stop s)"

lemma env_step_iff: "env_step s s' \<longleftrightarrow> (\<exists>l. sink_step l s s')"
  by (auto elim!: env_step.cases sink_step.cases intro: env_step.intros sink_step.intros)

text \<open>The operation of the queue that a call stands for.\<close>

fun asks :: "sink_call \<Rightarrow> tick operation list" where
  "asks (Tick_call x) = [Offer x]"
| "asks Dropped_call = [Inspect Dropped]"
| "asks Stop_call = [Shutdown]"
| "asks _ = []"

inductive sink_trace :: "64 word \<Rightarrow> sink_call list \<Rightarrow> tick event list \<Rightarrow> queue_sink \<Rightarrow> bool"
  for c :: "64 word" where
  nothing: "sink_trace c [] [] (new_sink c)"
| record_step: "sink_trace c ls es s \<Longrightarrow> sink_step l s s' \<Longrightarrow>
    sink_trace c (ls @ [l]) (es @ step_events 2 (m_queue s) (m_queue s')) s'"

text \<open>Every run of the sink can be recorded.\<close>

lemma sink_trace_of:
  assumes "sink_run c s"
  obtains ls es where "sink_trace c ls es s"
proof -
  from assms have "\<exists>ls es. sink_trace c ls es s"
  proof (induction rule: reachable.induct)
    case (start s)
    then show ?case by (auto intro: sink_trace.nothing)
  next
    case (step s s')
    then show ?case unfolding env_step_iff by (blast intro: sink_trace.record_step)
  qed
  with that show thesis by blast
qed

lemma sink_trace_run: "sink_trace c ls es s \<Longrightarrow> sink_run c s"
proof (induction rule: sink_trace.induct)
  case nothing
  then show ?case by (simp add: reachable.start)
next
  case (record_step ls es s l s')
  then show ?case unfolding env_step_iff [symmetric] by (metis env_step_iff reachable.step)
qed

section \<open>Operations called and ticks returned\<close>

fun requests :: "nat \<Rightarrow> 'a event list \<Rightarrow> 'a operation list" where
  "requests t [] = []"
| "requests t (Invoke u op # es) = (if u = t then op # requests t es else requests t es)"
| "requests t (_ # es) = requests t es"

fun popped :: "'a event list \<Rightarrow> 'a list" where
  "popped [] = []"
| "popped (Effect t op (Popped (Some x)) # es) = x # popped es"
| "popped (_ # es) = popped es"

lemma requests_append [simp]: "requests t (es @ fs) = requests t es @ requests t fs"
  by (induction t es rule: requests.induct) simp_all

lemma popped_append [simp]: "popped (es @ fs) = popped es @ popped fs"
  by (induction es rule: popped.induct) simp_all

lemma requests_advances: "advances p q \<Longrightarrow> requests t (move_events u p q) = []"
  by (cases p) (auto simp: move_events_def split: pc.split option.split)

lemma requests_istep:
  assumes "istep N s s'"
  shows "requests t (step_events N s s') = []"
proof -
  have "requests t (move_events u (pcs s u) (pcs s' u)) = []" for u
    using pcs_istep [OF assms, of u] requests_advances by (metis move_events_same requests.simps(1))
  then have "requests t (concat (map (\<lambda>u. move_events u (pcs s u) (pcs s' u)) us)) = []" for us
    by (induction us) simp_all
  then show ?thesis by (simp add: step_events_def)
qed

lemma popped_istep:
  assumes "istep N s s'" and "sound_queue c s"
  shows "received s' = received s @ popped (step_events N s s')"
  using assms
proof (cases rule: sound_steps)
  case (lock t p)
  then show ?thesis
    by (cases "pcs s t") (auto simp: step_events_move [of t] move_events_def received_def move_defs)
next
  case (notify_waiter t r u)
  then have "step_events N s s' = [Return t (Pushed r)]"
    by (subst step_events_single [of t]) (auto simp: goto_def)
  with notify_waiter show ?thesis by simp
next
  case (close_notify t)
  have "move_events u (pcs s u) (wake_all (pcs s) u) = []" for u
    by (cases "pcs s u") (simp_all add: wake_all_def)
  then have "step_events N s s' = [Return t Shut]"
    using close_notify by (subst step_events_single [of t]) (simp_all add: goto_def wake_all_def)
  with close_notify show ?thesis by (simp add: received_def goto_def)
next
  case (stat_crit t k)
  then show ?thesis
    by (cases k) (simp_all add: step_events_move [of t] move_defs move_events_def received_def)
qed (simp_all add: step_events_move move_defs move_events_def received_def)

lemma step_events_same: "m = m' \<Longrightarrow> step_events N m m' = []"
  by (simp add: step_events_def concat_eq_Nil_conv)

lemma step_events_begin:
  "t < 2 \<Longrightarrow> step_events 2 (m_queue s) (goto t p (m_queue s)) = move_events t (pcs (m_queue s) t) p"
  by (rule step_events_move) (simp_all add: goto_def)

text \<open>What one step adds to the trace.\<close>

lemma sink_step_events:
  assumes step: "sink_step l s s'" and inv: "sink_inv c s"
  defines "es \<equiv> step_events 2 (m_queue s) (m_queue s')"
  shows "requests 0 es = asks l" and "set (requests 1 es) \<subseteq> {Take}"
    and "received (m_queue s') = received (m_queue s) @ popped es"
proof -
  have sound: "sound_queue c (m_queue s)" using inv by (simp add: sink_inv_def thread_inv_def)
  have out: "io s = Ready \<Longrightarrow> outside (pcs (m_queue s) 0)" "consumer s = Looping \<Longrightarrow> outside (pcs (m_queue s) 1)"
    using inv by (auto simp: sink_inv_def roles_def)
  have "requests 0 es = asks l \<and> set (requests 1 es) \<subseteq> {Take} \<and>
    received (m_queue s') = received (m_queue s) @ popped es"
    using step
  proof cases
    case working
    from working(2) show ?thesis
    proof cases
      case (in_queue q)
      then show ?thesis
        using requests_istep [of 2 "m_queue s" q] popped_istep [OF _ sound, of 2 q] working by (simp add: es_def)
    next
      case pop_call
      then have "es = [Invoke 1 Take]"
        using out(2) by (simp add: es_def begin_call_def step_events_begin move_events_def)
      with pop_call working show ?thesis by (simp add: begin_call_def)
    qed (use working in \<open>simp_all add: es_def step_events_same sink_join_def consume_handle_def\<close>)
  next
    case spurious
    then show ?thesis by (simp add: es_def begin_call_def step_events_begin)
  next
    case (start callable)
    then show ?thesis by (simp add: es_def sink_start_def Let_def step_events_same)
  next
    case (on_tick x)
    then show ?thesis using out(1)
      by (simp add: es_def sink_on_tick_def begin_call_def step_events_begin move_events_def)
  next
    case (on_feed_state f)
    then show ?thesis by (simp add: es_def sink_on_feed_state_def step_events_same)
  next
    case ask_dropped
    then show ?thesis using out(1)
      by (simp add: es_def sink_dropped_def begin_call_def step_events_begin move_events_def)
  next
    case stop
    then show ?thesis using out(1)
      by (simp add: es_def sink_stop_def begin_call_def step_events_begin move_events_def)
  qed
  then show "requests 0 es = asks l" and "set (requests 1 es) \<subseteq> {Take}"
    and "received (m_queue s') = received (m_queue s) @ popped es" by simp_all
qed

section \<open>The calls and the trace agree\<close>

lemma sink_trace_agrees:
  assumes "0 < unat c" and "sink_trace c ls es s"
  shows "traced_run 2 c (es, m_queue s) \<and> requests 0 es = concat (map asks ls) \<and>
    set (requests 1 es) \<subseteq> {Take} \<and> popped es = received (m_queue s)"
  using assms(2)
proof (induction rule: sink_trace.induct)
  case nothing
  have "received (initial c :: tick qstate) = []" by (simp add: received_def initial_def)
  then show ?case by (simp add: new_sink_def reachable.start)
next
  case (record_step ls es s l s')
  have inv: "sink_inv c s" by (rule sink_run_inv [OF assms(1) sink_trace_run [OF record_step.hyps(1)]])
  have env: "env_step s s'" using record_step.hyps(2) env_step_iff by blast
  note adds = sink_step_events [OF record_step.hyps(2) inv]
  have "traced_run 2 c (es @ step_events 2 (m_queue s) (m_queue s'), m_queue s')"
  proof (cases "m_queue s' = m_queue s")
    case True
    with record_step.IH show ?thesis by (simp add: step_events_same)
  next
    case False
    then have "traced_step 2 (es, m_queue s) (es @ step_events 2 (m_queue s) (m_queue s'), m_queue s')"
      using env_step_qstep [OF env inv] by (simp add: traced_step_def)
    with record_step.IH show ?thesis by (blast intro: reachable.step)
  qed
  with record_step.IH adds show ?case by simp
qed

end
