(* ===== verification/Queue_Progress.thy ===== *)
theory Queue_Progress
  imports Queue_Calls
begin

text \<open>
  How long a call on \<open>queue/BlockingQueue.hpp\<close> can be held up: the mutex is held for one step at a
  time, so \<open>push\<close>, \<open>close\<close> and the observers can return after three steps of their own and, before
  those, one of the thread that has the mutex.  Only \<open>pop\<close> waits for the state of the queue.
\<close>

section \<open>Own steps and those of others\<close>

text \<open>A thread inside a call moves at each step of its own; at a step of another one it stays.\<close>

definition own_step :: "nat \<Rightarrow> nat \<Rightarrow> 'a qstate \<Rightarrow> 'a qstate \<Rightarrow> bool" where
  "own_step N t s s' \<longleftrightarrow> istep N s s' \<and> pcs s' t \<noteq> pcs s t"

definition other_step :: "nat \<Rightarrow> nat \<Rightarrow> 'a qstate \<Rightarrow> 'a qstate \<Rightarrow> bool" where
  "other_step N t s s' \<longleftrightarrow> istep N s s' \<and> pcs s' t = pcs s t"

definition own_steps :: "nat \<Rightarrow> nat \<Rightarrow> nat \<Rightarrow> 'a qstate \<Rightarrow> ('a qstate \<Rightarrow> bool) \<Rightarrow> bool" where
  "own_steps N t k s P \<longleftrightarrow> (\<exists>n\<le>k. \<exists>s'. (own_step N t ^^ n) s s' \<and> P s')"

lemma own_here: "P s \<Longrightarrow> own_steps N t k s P"
  by (auto simp: own_steps_def intro!: exI [of _ 0] exI [of _ s])

lemma hasten:
  assumes "own_step N t s s'" and "own_steps N t k s' P"
  shows "own_steps N t (Suc k) s P"
proof -
  from assms(2) obtain n s'' where "n \<le> k" and "(own_step N t ^^ n) s' s''" and "P s''"
    by (auto simp: own_steps_def)
  with assms(1) show ?thesis
    unfolding own_steps_def by (meson Suc_le_mono relpowp_Suc_I2)
qed

lemma own_mono: "own_steps N t k s P \<Longrightarrow> k \<le> m \<Longrightarrow> own_steps N t m s P"
  by (auto simp: own_steps_def intro: le_trans)

lemma own_run: "(own_step N t ^^ n) s s' \<Longrightarrow> (istep N)\<^sup>*\<^sup>* s s'"
proof (induction n arbitrary: s')
  case (Suc n)
  then obtain s1 where "(istep N)\<^sup>*\<^sup>* s s1" and "istep N s1 s'" by (auto simp: own_step_def)
  then show ?case by (rule rtranclp.rtrancl_into_rtrancl)
qed simp

section \<open>The calls that do not wait for the state of the queue\<close>

fun prompt :: "'a pc \<Rightarrow> bool" where
  "prompt Idle = False"
| "prompt (Returned _) = False"
| "prompt PopLock = False"
| "prompt PopCheck = False"
| "prompt PopWait = False"
| "prompt _ = True"

fun returned :: "'a pc \<Rightarrow> bool" where
  "returned (Returned _) = True"
| "returned _ = False"

lemma push_notify_step:
  assumes "t < N" and "\<not> crashed s" and "pcs s t = PushNotify r"
  shows "\<exists>s'. istep N s s' \<and> pcs s' t = Returned (Pushed r)"
proof (cases "\<exists>u<N. pcs s u = PopWait")
  case True
  then obtain u where u: "u < N" "pcs s u = PopWait" by blast
  then have "t \<noteq> u" using assms(3) by auto
  with istep.notify_waiter [OF assms u] show ?thesis by (auto simp: goto_def)
next
  case False
  with istep.notify_nobody [OF assms] show ?thesis by (auto simp: goto_def)
qed

lemma notify_returns:
  assumes "t < N" and "\<not> crashed s" and "\<not> outside (pcs s t)"
    and "\<not> holding (pcs s t)" and "\<not> entry (pcs s t)" and "prompt (pcs s t)"
  shows "own_steps N t 1 s (\<lambda>s'. returned (pcs s' t))"
proof -
  have "\<exists>s'. istep N s s' \<and> returned (pcs s' t)"
  proof (cases "pcs s t")
    case (PushNotify r)
    from push_notify_step [OF assms(1,2) this] show ?thesis by auto
  next
    case CloseNotify
    with istep.close_notify [OF assms(1,2) this] show ?thesis by (auto simp: goto_def)
  qed (use assms(3-6) in simp_all)
  then obtain s' where "istep N s s'" and ret: "returned (pcs s' t)" by blast
  moreover have "\<not> returned (pcs s t)" using assms(6) by (cases "pcs s t") auto
  ultimately have "own_step N t s s'" by (auto simp: own_step_def)
  then show ?thesis using hasten [of N t s s' 0] own_here [of "\<lambda>s'. returned (pcs s' t)", OF ret] by simp
qed

text \<open>A critical section is one step, after which its thread has returned, waits or notifies.\<close>

lemma critical_step:
  assumes "t < N" and "sound_queue c s" and "holding (pcs s t)"
  obtains s' q where "istep N s s'" and "owner s' = None" and "pcs s' = (pcs s)(t := q)"
    and "prompt (pcs s t) \<Longrightarrow> returned q \<or> q = CloseNotify \<or> (\<exists>r. q = PushNotify r)"
proof -
  have ok: "\<not> crashed s" and inv: "queue_inv (que s)" using assms(2) by (simp_all add: sound_queue_def)
  show thesis
  proof (cases "pcs s t")
    case (PushCrit x)
    have "push (que s) x \<noteq> Undefined" using bq.enq_defined [OF inv, of x] by auto
    then show thesis
      using istep.push_crit [OF assms(1) ok PushCrit] that
      by (cases rule: push_locked_cases [where t = t and x = x and s = s]) fastforce+
  next
    case PopCheck
    show thesis
      by (rule that [OF istep.pop_check [OF assms(1) ok PopCheck] pop_locked_moves(1,2)])
        (simp add: PopCheck)
  next
    case CloseCrit
    show thesis
      by (rule that [OF istep.close_crit [OF assms(1) ok CloseCrit], of CloseNotify])
        (simp_all add: move_defs)
  next
    case (StatCrit k)
    show thesis
      by (rule that [OF istep.stat_crit [OF assms(1) ok StatCrit], of "Returned (observe k (que s))"])
        (simp_all add: move_defs)
  qed (use assms(3) in simp_all)
qed

lemma critical_returns:
  assumes "t < N" and "thread_inv N c s" and "holding (pcs s t)" and "prompt (pcs s t)"
  shows "own_steps N t 2 s (\<lambda>s'. returned (pcs s' t))"
proof -
  have "sound_queue c s" using assms(2) by (simp add: thread_inv_def)
  from critical_step [OF assms(1) this assms(3)] obtain s' q where
    step: "istep N s s'" and moved: "pcs s' = (pcs s)(t := q)"
    and q: "returned q \<or> q = CloseNotify \<or> (\<exists>r. q = PushNotify r)"
    using assms(4) by metis
  have "thread_inv N c s'" using queue_threads.preserved [OF assms(2) qstep.internal [OF step]] .
  then have ok: "\<not> crashed s'" by (simp add: thread_inv_def sound_queue_def)
  have "own_steps N t 1 s' (\<lambda>s'. returned (pcs s' t))"
  proof (cases "returned q")
    case True
    then show ?thesis using moved by (intro own_here) simp
  next
    case False
    with q moved show ?thesis by (intro notify_returns [OF assms(1) ok]) auto
  qed
  moreover have "q \<noteq> pcs s t" using q assms(3) by (cases "pcs s t") auto
  then have "own_step N t s s'" using step moved by (simp add: own_step_def)
  ultimately show ?thesis using hasten [of N t s s' 1] by (simp add: numeral_2_eq_2)
qed

lemma lock_returns:
  assumes "t < N" and "thread_inv N c s" and "owner s = None" and "entry (pcs s t)" and "prompt (pcs s t)"
  shows "own_steps N t 3 s (\<lambda>s'. returned (pcs s' t))"
proof -
  have ok: "\<not> crashed s" using assms(2) by (simp add: thread_inv_def sound_queue_def)
  obtain p where p: "locked (pcs s t) = Some p" and "holding p" and "prompt p"
    using assms(4,5) by (cases "pcs s t") auto
  have step: "istep N s (acquire t p s)" by (rule istep.lock [OF assms(1) ok assms(3) p])
  have "thread_inv N c (acquire t p s)"
    using queue_threads.preserved [OF assms(2) qstep.internal [OF step]] .
  then have "own_steps N t 2 (acquire t p s) (\<lambda>s'. returned (pcs s' t))"
    using \<open>holding p\<close> \<open>prompt p\<close> by (intro critical_returns [OF assms(1)]) (simp_all add: move_defs)
  moreover have "p \<noteq> pcs s t" using locked_holding [OF p] by auto
  then have "own_step N t s (acquire t p s)" using step by (simp add: own_step_def move_defs)
  ultimately show ?thesis using hasten [of N t s _ 2] by (simp add: eval_nat_numeral)
qed

lemma other_owner:
  assumes "thread_inv N c s" and "entry (pcs s t)" and "owner s = Some u"
  shows "holding (pcs s u)" and "u < N" and "u \<noteq> t"
proof -
  show hold: "holding (pcs s u)" using assms(1,3) by (simp add: thread_inv_def mutex_def)
  then show "u < N" using assms(1) by (cases "u < N") (auto simp: thread_inv_def confined_def)
  show "u \<noteq> t" using hold assms(2) entry_not_holding by auto
qed

lemma prompt_not_outside: "prompt p \<Longrightarrow> \<not> outside p"
  by (cases p) auto

text \<open>Whoever has the mutex gives it up in one step, without touching the other threads.\<close>

lemma prompt_returns:
  assumes "t < N" and "thread_inv N c s" and "prompt (pcs s t)"
  obtains s1 where "s1 = s \<or> other_step N t s s1 \<and> (\<exists>u<N. u \<noteq> t \<and> owner s = Some u)"
    and "own_steps N t 3 s1 (\<lambda>s'. returned (pcs s' t))"
proof -
  have ok: "\<not> crashed s" and sound: "sound_queue c s"
    using assms(2) by (simp_all add: thread_inv_def sound_queue_def)
  consider "holding (pcs s t)" | "entry (pcs s t)" | "\<not> holding (pcs s t)" and "\<not> entry (pcs s t)" by blast
  then show thesis
  proof cases
    case 1
    from critical_returns [OF assms(1,2) 1 assms(3)] show thesis by (intro that [of s] own_mono [of _ _ 2 _ _ 3]) simp_all
  next
    case 2
    show thesis
    proof (cases "owner s")
      case None
      from lock_returns [OF assms(1,2) None 2 assms(3)] show thesis by (intro that [of s]) simp_all
    next
      case (Some u)
      note u = other_owner [OF assms(2) 2 Some]
      from critical_step [OF u(2) sound u(1)] obtain s' q where
        step: "istep N s s'" and free: "owner s' = None" and moved: "pcs s' = (pcs s)(u := q)"
        by metis
      have "thread_inv N c s'" using queue_threads.preserved [OF assms(2) qstep.internal [OF step]] .
      moreover have same: "pcs s' t = pcs s t" using moved u(3) by simp
      ultimately have "own_steps N t 3 s' (\<lambda>s'. returned (pcs s' t))"
        using 2 assms(3) by (intro lock_returns [OF assms(1) _ free]) simp_all
      then show thesis using step same u Some by (intro that [of s']) (auto simp: other_step_def)
    qed
  next
    case 3
    from notify_returns [OF assms(1) ok prompt_not_outside [OF assms(3)] 3 assms(3)]
    show thesis by (intro that [of s] own_mono [of _ _ 1 _ _ 3]) simp_all
  qed
qed

text \<open>In every run such a call is held up by nothing but another thread that has the mutex.\<close>

lemma prompt_advances: "prompt p \<Longrightarrow> advances p q \<Longrightarrow> prompt q \<or> returned q"
  by (cases p) auto

lemma returned_istep: "istep N s s' \<Longrightarrow> returned (pcs s t) \<Longrightarrow> pcs s' t = pcs s t"
  using pcs_istep [of N s s' t] by (cases "pcs s t") auto

lemma prompt_run:
  "(istep N)\<^sup>*\<^sup>* s s' \<Longrightarrow> prompt (pcs s t) \<Longrightarrow> prompt (pcs s' t) \<or> returned (pcs s' t)"
proof (induction rule: rtranclp_induct)
  case (step s1 s2)
  then show ?case using pcs_istep [of N s1 s2 t] prompt_advances returned_istep by metis
qed simp

lemma prompt_moves:
  assumes "t < N" and "thread_inv N c s" and "prompt (pcs s t)"
  shows "(\<exists>s'. istep N s s' \<and> pcs s' t \<noteq> pcs s t) \<or> (\<exists>u<N. u \<noteq> t \<and> owner s = Some u)"
proof -
  have ok: "\<not> crashed s" and sound: "sound_queue c s"
    using assms(2) by (simp_all add: thread_inv_def sound_queue_def)
  consider "holding (pcs s t)" | "entry (pcs s t)" | "\<not> holding (pcs s t)" "\<not> entry (pcs s t)" by blast
  then show ?thesis
  proof cases
    case 1
    from critical_step [OF assms(1) sound 1] assms(3) obtain s' q where
      "istep N s s'" "pcs s' = (pcs s)(t := q)" "returned q \<or> q = CloseNotify \<or> (\<exists>r. q = PushNotify r)"
      by metis
    moreover from this(3) 1 have "q \<noteq> pcs s t" by (cases "pcs s t") auto
    ultimately show ?thesis by auto
  next
    case 2
    then obtain p where p: "locked (pcs s t) = Some p" by (cases "pcs s t") auto
    show ?thesis
    proof (cases "owner s")
      case None
      moreover have "p \<noteq> pcs s t" using locked_holding [OF p] by auto
      ultimately show ?thesis using istep.lock [OF assms(1) ok None p] by (auto simp: move_defs)
    next
      case (Some u)
      with other_owner [OF assms(2) 2 Some] show ?thesis by blast
    qed
  next
    case 3
    from notify_returns [OF assms(1) ok prompt_not_outside [OF assms(3)] 3 assms(3)]
    obtain n s' where "n \<le> 1" "(own_step N t ^^ n) s s'" "returned (pcs s' t)" by (auto simp: own_steps_def)
    moreover have "\<not> returned (pcs s t)" using assms(3) by (cases "pcs s t") auto
    ultimately show ?thesis by (cases n) (auto simp: own_step_def)
  qed
qed

text \<open>The outcome is one of the call that was made.\<close>

fun pushing :: "'a pc \<Rightarrow> bool" where
  "pushing (PushLock _) = True"
| "pushing (PushCrit _) = True"
| "pushing (PushNotify _) = True"
| "pushing (Returned (Pushed _)) = True"
| "pushing _ = False"

lemma pushing_advances: "pushing p \<Longrightarrow> advances p q \<Longrightarrow> pushing q"
  by (cases p) auto

lemma pushing_run: "(istep N)\<^sup>*\<^sup>* s s' \<Longrightarrow> pushing (pcs s t) \<Longrightarrow> pushing (pcs s' t)"
proof (induction rule: rtranclp_induct)
  case (step s1 s2)
  then show ?case using pcs_istep [of N s1 s2 t] pushing_advances by metis
qed simp

text \<open>The call returns: a step of the thread that has the mutex, if another one has, and three own steps.\<close>

lemma call_returns:
  assumes "t < N" and "thread_inv N c s" and "prompt (pcs s t)"
  obtains k m s' where "k \<le> 1" and "m \<le> 3" and "((other_step N t ^^ k) OO (own_step N t ^^ m)) s s'"
    and "k = 1 \<Longrightarrow> \<exists>u<N. u \<noteq> t \<and> owner s = Some u" and "(istep N)\<^sup>*\<^sup>* s s'" and "returned (pcs s' t)"
    and "pushing (pcs s t) \<Longrightarrow> \<exists>r. pcs s' t = Returned (Pushed r)"
proof -
  obtain s1 where s1: "s1 = s \<or> other_step N t s s1 \<and> (\<exists>u<N. u \<noteq> t \<and> owner s = Some u)"
    and own: "own_steps N t 3 s1 (\<lambda>s'. returned (pcs s' t))"
    by (rule prompt_returns [OF assms])
  from own obtain m s' where m: "m \<le> 3" "(own_step N t ^^ m) s1 s'" "returned (pcs s' t)"
    by (auto simp: own_steps_def)
  have "(istep N)\<^sup>*\<^sup>* s s1" using s1 by (auto simp: other_step_def)
  with own_run [OF m(2)] have run: "(istep N)\<^sup>*\<^sup>* s s'" by simp
  have out: "\<exists>r. pcs s' t = Returned (Pushed r)" if "pushing (pcs s t)"
    using pushing_run [OF run that] m(3) by (cases "pcs s' t" rule: pushing.cases) auto
  show thesis
  proof (cases "s1 = s")
    case True
    with m show thesis by (intro that [of 0 m s'] run out) auto
  next
    case False
    with s1 have "other_step N t s s1" and "\<exists>u<N. u \<noteq> t \<and> owner s = Some u" by auto
    with m show thesis by (intro that [of 1 m s'] run out) auto
  qed
qed

end
