(* ===== verification/Tick_Feed.thy ===== *)
theory Tick_Feed
  imports Sinks Queue_Progress
begin

text \<open>
  The interface \<open>marketdata/TickSink.hpp\<close> and what both sinks keep of it.  Whoever drives a sink
  calls \<open>on_tick\<close> and \<open>on_feed_state\<close>, one at a time; the locale states what such a call does to
  what the sink has taken and to the feed's state it shows, and the client's lemmas follow for
  every list of calls.  \<open>ConsoleSink\<close> keeps it with the lines it logs, \<open>QueueSink\<close> with the ticks
  its queue accepted, whatever its consumer does meanwhile.  A sink may refuse ticks: a \<open>QueueSink\<close>
  that was stopped does.
\<close>

section \<open>The interface\<close>

datatype feed_event = Price tick | Health FeedState

fun ticks_of :: "feed_event list \<Rightarrow> tick list" where
  "ticks_of [] = []"
| "ticks_of (Price x # es) = x # ticks_of es"
| "ticks_of (Health _ # es) = ticks_of es"

fun last_health :: "FeedState \<Rightarrow> feed_event list \<Rightarrow> FeedState" where
  "last_health f [] = f"
| "last_health f (Price _ # es) = last_health f es"
| "last_health f (Health g # es) = last_health g es"

inductive feed :: "(feed_event \<Rightarrow> 's \<Rightarrow> 's \<Rightarrow> bool) \<Rightarrow> feed_event list \<Rightarrow> 's \<Rightarrow> 's \<Rightarrow> bool"
  for deliver :: "feed_event \<Rightarrow> 's \<Rightarrow> 's \<Rightarrow> bool" where
  finish: "feed deliver [] s s"
| event: "deliver e s s1 \<Longrightarrow> feed deliver es s1 s' \<Longrightarrow> feed deliver (e # es) s s'"

inductive_simps feed_simps: "feed deliver [] s s'" "feed deliver (e # es) s s'"

locale tick_sink =
  fixes ok :: "'s \<Rightarrow> bool"
    and deliver :: "feed_event \<Rightarrow> 's \<Rightarrow> 's \<Rightarrow> bool"
    and admits :: "'s \<Rightarrow> bool"
    and seen :: "'s \<Rightarrow> 'e list"
    and entry_of :: "tick \<Rightarrow> 'e"
    and health :: "'s \<Rightarrow> FeedState"
  assumes on_tick: "ok s \<Longrightarrow> deliver (Price x) s s' \<Longrightarrow>
      ok s' \<and> admits s' = admits s \<and> seen s' = seen s @ (if admits s then [entry_of x] else []) \<and>
      health s' = health s"
    and on_feed_state: "ok s \<Longrightarrow> deliver (Health f) s s' \<Longrightarrow>
      ok s' \<and> admits s' = admits s \<and> seen s' = seen s \<and> health s' = f"
    and returns: "ok s \<Longrightarrow> \<exists>s'. deliver e s s'"
begin

lemma deliver_ok: "ok s \<Longrightarrow> deliver e s s' \<Longrightarrow> ok s'"
  using on_tick on_feed_state by (cases e) blast+

lemma feed_seen:
  "feed deliver es s s' \<Longrightarrow> ok s \<Longrightarrow>
    ok s' \<and> admits s' = admits s \<and>
    seen s' = seen s @ (if admits s then map entry_of (ticks_of es) else []) \<and>
    health s' = last_health (health s) es"
proof (induction rule: feed.induct)
  case (event e s s1 es s')
  have "ok s1" using deliver_ok event by blast
  with event show ?case
  proof (cases e)
    case (Price x)
    with event on_tick [of s x s1] \<open>ok s1\<close> show ?thesis by simp
  next
    case (Health f)
    with event on_feed_state [of s f s1] \<open>ok s1\<close> show ?thesis by simp
  qed
qed simp

lemma feed_returns: "ok s \<Longrightarrow> \<exists>s'. feed deliver es s s'"
proof (induction es arbitrary: s)
  case (Cons e es)
  obtain s1 where "deliver e s s1" using returns [OF Cons.prems] by blast
  with Cons.IH [OF deliver_ok [OF Cons.prems this]] show ?case by (auto simp: feed_simps)
qed (blast intro: feed.finish)

end

section \<open>ConsoleSink\<close>

text \<open>The lines the sink logs, a price at debug level and the feed's state at info level.\<close>

datatype console_line = Debug_line "string \<times> string \<times> double" | Info_line string

fun console_deliver ::
    "registry \<Rightarrow> feed_event \<Rightarrow> console_line list \<Rightarrow> console_line list \<Rightarrow> bool" where
  "console_deliver r (Price x) ls ls' =
     (case console_on_tick r x of
        Undefined \<Rightarrow> False
      | Defined l \<Rightarrow> ls' = ls @ [Debug_line l])"
| "console_deliver r (Health f) ls ls' = (ls' = ls @ [Info_line (console_on_feed_state f)])"

fun price_lines :: "console_line list \<Rightarrow> (string \<times> string \<times> double) list" where
  "price_lines [] = []"
| "price_lines (Debug_line l # ls) = l # price_lines ls"
| "price_lines (Info_line _ # ls) = price_lines ls"

fun shown_health :: "FeedState \<Rightarrow> console_line list \<Rightarrow> FeedState" where
  "shown_health f [] = f"
| "shown_health f (Debug_line _ # ls) = shown_health f ls"
| "shown_health f (Info_line l # ls) = shown_health (if l = console_on_feed_state Live then Live else Stale) ls"

definition price_line :: "registry \<Rightarrow> tick \<Rightarrow> string \<times> string \<times> double" where
  "price_line r x =
     (case List.find (\<lambda>k. key_id k = tick_id x) (m_keys r) of
        None \<Rightarrow> (''?'', ''?'', price x)
      | Some k \<Rightarrow> (to_string (kind k), symbol k, price x))"

lemma price_lines_append [simp]: "price_lines (ls @ ms) = price_lines ls @ price_lines ms"
  by (induction ls rule: price_lines.induct) auto

lemma shown_health_append [simp]: "shown_health f (ls @ ms) = shown_health (shown_health f ls) ms"
  by (induction f ls rule: shown_health.induct) auto

lemma feed_state_line_inject [simp]: "console_on_feed_state f = console_on_feed_state g \<longleftrightarrow> f = g"
  by (cases f; cases g) (simp_all add: console_on_feed_state_def)

lemma console_on_tick_line: "registry_inv r \<Longrightarrow> console_on_tick r x = Defined (price_line r x)"
  by (simp add: console_on_tick_eq price_line_def)

interpretation console: tick_sink
  "\<lambda>_. registry_inv r" "console_deliver r" "\<lambda>_. True" price_lines "price_line r" "shown_health f" for r f
proof unfold_locales
  fix ls e
  show "registry_inv r \<Longrightarrow> \<exists>ls'. console_deliver r e ls ls'"
    by (cases e) (simp_all add: console_on_tick_line)
next
  fix ls ls' g
  show "registry_inv r \<Longrightarrow> console_deliver r (Health g) ls ls' \<Longrightarrow>
      registry_inv r \<and> True = True \<and> price_lines ls' = price_lines ls \<and> shown_health f ls' = g"
    by (cases g) simp_all
qed (simp add: console_on_tick_line)

section \<open>QueueSink\<close>

text \<open>
  Between and during the calls of the io thread the consumer runs, and its wait may end spuriously.
  A call is over when the io thread is back.
\<close>

inductive background :: "queue_sink \<Rightarrow> queue_sink \<Rightarrow> bool" where
  working: "sstep s s' \<Longrightarrow> background s s'"
| spurious: "live s \<Longrightarrow> pcs (m_queue s) 1 = PopWait \<Longrightarrow> background s (begin_call 1 PopLock s)"

fun queue_call :: "feed_event \<Rightarrow> queue_sink \<Rightarrow> queue_sink" where
  "queue_call (Price x) s = sink_on_tick x s"
| "queue_call (Health f) s = sink_on_feed_state f s"

fun queue_deliver :: "feed_event \<Rightarrow> queue_sink \<Rightarrow> queue_sink \<Rightarrow> bool" where
  "queue_deliver (Price x) s s' \<longleftrightarrow>
     live s \<and> io s = Ready \<and> background\<^sup>*\<^sup>* (sink_on_tick x s) s' \<and> io s' = Ready"
| "queue_deliver (Health f) s s' \<longleftrightarrow>
     live s \<and> io s = Ready \<and> background\<^sup>*\<^sup>* (sink_on_feed_state f s) s' \<and> io s' = Ready"

text \<open>The io thread may publish: the sink is up, and no call of it is in progress.\<close>

definition publishable :: "64 word \<Rightarrow> queue_sink \<Rightarrow> bool" where
  "publishable c s \<longleftrightarrow> sink_inv c s \<and> live s \<and> io s = Ready"

lemma background_env: "background s s' \<Longrightarrow> env_step s s'"
proof (induction rule: background.induct)
  case (working s s')
  then show ?case by (rule env_step.machine)
next
  case (spurious s)
  then show ?case by (rule env_step.spurious_wake)
qed

text \<open>What one step does to the accepted items of the queue and to its being closed.\<close>

lemma accepted_istep:
  assumes "istep N s s'" and "sound_queue c s"
  shows "accepted s' = accepted s \<and>
      (\<not> m_closed (que s) \<longrightarrow> (\<forall>t x. pcs s t = PushCrit x \<longrightarrow> pcs s' t = pcs s t)) \<or>
    \<not> m_closed (que s) \<and> (\<exists>t<N. \<exists>x r. pcs s t = PushCrit x \<and> pcs s' = (pcs s)(t := PushNotify r) \<and>
      accepted s' = accepted s @ [x])"
  using assms
proof (cases rule: sound_steps)
  case (close_notify t)
  then show ?thesis by (auto simp: goto_def wake_all_def)
qed (auto simp: move_defs)

lemma open_istep:
  assumes "istep N s s'" and "sound_queue c s" and "\<And>t. t < N \<Longrightarrow> pcs s t \<noteq> CloseCrit"
  shows "m_closed (que s') = m_closed (que s)"
  using assms(1,2) by (cases rule: sound_steps) (use assms(3) in \<open>auto simp: move_defs\<close>)

text \<open>
  Where a call stands: the tick in \<open>xs\<close> is still to be pushed onto what was accepted before, \<open>A\<close>,
  or has been, unless the queue is closed.  For \<open>on_feed_state\<close> there is none, and \<open>xs\<close> is empty.
\<close>

fun before_push :: "tick pc \<Rightarrow> tick \<Rightarrow> bool" where
  "before_push (PushLock y) x = (y = x)"
| "before_push (PushCrit y) x = (y = x)"
| "before_push _ x = False"

fun after_push :: "tick pc \<Rightarrow> bool" where
  "after_push (PushLock _) = False"
| "after_push (PushCrit _) = False"
| "after_push _ = True"

definition publishing ::
    "64 word \<Rightarrow> bool \<Rightarrow> FeedState \<Rightarrow> tick list \<Rightarrow> tick list \<Rightarrow> queue_sink \<Rightarrow> bool" where
  "publishing c b f A xs s \<longleftrightarrow> sink_inv c s \<and> live s \<and> m_closed (que (m_queue s)) = b \<and> m_feed_state s = f \<and>
     (io s = Publishing \<and> (\<exists>x. xs = [x] \<and> before_push (pcs (m_queue s) 0) x) \<and> accepted (m_queue s) = A \<or>
      (io s = Publishing \<or> io s = Ready) \<and> after_push (pcs (m_queue s) 0) \<and>
        accepted (m_queue s) = A @ (if b then [] else xs))"

lemma after_push_outside: "outside p \<Longrightarrow> after_push p"
  by (cases p) auto

lemma after_push_advances: "after_push p \<Longrightarrow> advances p q \<Longrightarrow> after_push q"
  by (cases p) auto

lemma consumer_not_pushing: "consumer_role k p \<Longrightarrow> p \<noteq> PushCrit x \<and> p \<noteq> CloseCrit"
  by (cases k) auto

lemma publishing_in_queue:
  assumes pub: "publishing c b f A xs s" and step: "istep 2 (m_queue s) q"
  shows "publishing c b f A xs (s\<lparr>m_queue := q\<rparr>)"
proof -
  let ?m = "m_queue s"
  have inv: "sink_inv c s" and closed: "m_closed (que ?m) = b" and pio: "io s = Publishing \<or> io s = Ready"
    using pub by (auto simp: publishing_def)
  then have sound: "sound_queue c ?m" and roles: "roles s" by (simp_all add: sink_inv_def thread_inv_def)
  have inv': "sink_inv c (s\<lparr>m_queue := q\<rparr>)" by (rule sink_inv_in_queue [OF inv step])
  then have ok: "\<not> crashed q" by (simp add: sink_inv_def thread_inv_def sound_queue_def)
  have one: "pcs ?m 1 \<noteq> PushCrit y \<and> pcs ?m 1 \<noteq> CloseCrit" for y
    using roles by (auto simp: roles_def dest: consumer_not_pushing)
  have zero: "pcs ?m 0 \<noteq> CloseCrit" using roles pio by (auto simp: roles_def)
  have "pcs ?m t \<noteq> CloseCrit" if "t < 2" for t using that one zero by (cases "t = 0") (auto simp: less_2_cases_iff)
  then have closed': "m_closed (que q) = b" using open_istep [OF step sound] closed by simp
  have moved: "pcs q 0 = pcs ?m 0 \<or> advances (pcs ?m 0) (pcs q 0)" by (rule pcs_istep [OF step])
  from accepted_istep [OF step sound]
  have "(\<exists>x. xs = [x] \<and> before_push (pcs q 0) x) \<and> io s = Publishing \<and> accepted q = A \<or>
      after_push (pcs q 0) \<and> accepted q = A @ (if b then [] else xs)"
  proof (elim disjE exE conjE)
    assume same: "accepted q = accepted ?m"
      and kept: "\<not> m_closed (que ?m) \<longrightarrow> (\<forall>t x. pcs ?m t = PushCrit x \<longrightarrow> pcs q t = pcs ?m t)"
    have "before_push (pcs ?m 0) x \<Longrightarrow> before_push (pcs q 0) x \<or> b \<and> after_push (pcs q 0)" for x
      using moved kept closed by (cases "pcs ?m 0") auto
    moreover have "after_push (pcs ?m 0) \<Longrightarrow> after_push (pcs q 0)"
      using moved after_push_advances by metis
    ultimately show ?thesis using same pub by (auto simp: publishing_def)
  next
    fix t y r
    assume t: "t < 2" "pcs ?m t = PushCrit y" "pcs q = (pcs ?m)(t := PushNotify r)"
      and grown: "accepted q = accepted ?m @ [y]" and up: "\<not> m_closed (que ?m)"
    then have "t = 0" using one by (auto simp: less_2_cases_iff)
    moreover have "\<not> b" using up closed by simp
    ultimately show ?thesis using t grown pub by (auto simp: publishing_def)
  qed
  with pub inv' ok closed' show ?thesis by (auto simp: publishing_def live_def)
qed

lemma publishing_background:
  assumes "background s s'" and pub: "publishing c b f A xs s"
  shows "publishing c b f A xs s'"
proof -
  have inv: "sink_inv c s'"
    using assms by (auto intro: sink_inv_env_step background_env simp: publishing_def)
  from assms(1) show ?thesis
  proof cases
    case working
    then show ?thesis
    proof cases
      case (in_queue q)
      then show ?thesis using publishing_in_queue [OF pub] by simp
    qed (use pub inv in \<open>auto simp: publishing_def live_def begin_call_def consume_handle_def goto_def\<close>)
  next
    case spurious
    with pub inv show ?thesis by (auto simp: publishing_def live_def begin_call_def goto_def)
  qed
qed

lemma publishing_run: "background\<^sup>*\<^sup>* s s' \<Longrightarrow> publishing c b f A xs s \<Longrightarrow> publishing c b f A xs s'"
  by (induction rule: rtranclp_induct) (auto intro: publishing_background)

lemma on_tick_publishing:
  assumes "publishable c s"
  shows "publishing c (m_closed (que (m_queue s))) (m_feed_state s) (accepted (m_queue s)) [x] (sink_on_tick x s)"
proof -
  have "env_step s (sink_on_tick x s)"
    using assms by (intro env_step.on_tick) (simp_all add: publishable_def)
  then have "sink_inv c (sink_on_tick x s)"
    using assms sink_inv_env_step by (auto simp: publishable_def)
  with assms show ?thesis
    by (simp add: publishing_def publishable_def sink_on_tick_def begin_call_def live_def) (simp add: goto_def)
qed

lemma on_feed_state_publishing:
  assumes "publishable c s"
  shows "publishing c (m_closed (que (m_queue s))) f (accepted (m_queue s)) [] (sink_on_feed_state f s)"
proof -
  have "env_step s (sink_on_feed_state f s)"
    using assms by (intro env_step.on_feed_state) (simp_all add: publishable_def)
  then have "sink_inv c (sink_on_feed_state f s)"
    using assms sink_inv_env_step by (auto simp: publishable_def)
  moreover have "outside (pcs (m_queue s) 0)" using assms by (auto simp: publishable_def sink_inv_def roles_def)
  ultimately show ?thesis
    using assms by (simp add: publishing_def publishable_def sink_on_feed_state_def live_def after_push_outside)
qed

lemma publishing_over:
  "publishing c b f A xs s \<Longrightarrow> io s = Ready \<Longrightarrow>
    publishable c s \<and> m_closed (que (m_queue s)) = b \<and> accepted (m_queue s) = A @ (if b then [] else xs) \<and>
    m_feed_state s = f"
  by (auto simp: publishing_def publishable_def)

text \<open>The call returns: the queue's own steps, then the return of \<open>on_tick\<close>.\<close>

lemma in_queue_run:
  assumes "(istep 2)\<^sup>*\<^sup>* (m_queue s) q" and "sink_inv c s" and "live s"
  shows "background\<^sup>*\<^sup>* s (s\<lparr>m_queue := q\<rparr>)"
  using assms(1)
proof (induction rule: rtranclp_induct)
  case (step q1 q2)
  have "sound_queue c (m_queue s)" using assms(2) by (simp add: sink_inv_def thread_inv_def)
  with step.hyps(1) have "sound_queue c q1"
    by (induction rule: rtranclp_induct) (auto intro: sound_istep)
  then have "live (s\<lparr>m_queue := q1\<rparr>)" using assms(3) by (simp add: live_def sound_queue_def)
  with step.hyps(2) have "sstep (s\<lparr>m_queue := q1\<rparr>) (s\<lparr>m_queue := q1\<rparr>\<lparr>m_queue := q2\<rparr>)"
    by (intro sstep.in_queue) simp_all
  then have "background (s\<lparr>m_queue := q1\<rparr>) (s\<lparr>m_queue := q2\<rparr>)" by (simp add: background.working)
  with step.IH show ?case by simp
qed simp

lemma on_tick_returns:
  assumes "publishable c s"
  obtains s' where "background\<^sup>*\<^sup>* (sink_on_tick x s) s'" and "io s' = Ready"
proof -
  let ?s = "sink_on_tick x s"
  have pub: "publishing c (m_closed (que (m_queue s))) (m_feed_state s) (accepted (m_queue s)) [x] ?s"
    by (rule on_tick_publishing [OF assms])
  have p: "pcs (m_queue ?s) 0 = PushLock x" by (simp add: sink_on_tick_def begin_call_def goto_def)
  have inv: "thread_inv 2 c (m_queue ?s)" using pub by (simp add: publishing_def sink_inv_def)
  have "(0 :: nat) < 2" and "prompt (pcs (m_queue ?s) 0)" and "pushing (pcs (m_queue ?s) 0)" using p by simp_all
  then obtain q r where run: "(istep 2)\<^sup>*\<^sup>* (m_queue ?s) q" and ret: "pcs q 0 = Returned (Pushed r)"
    by (metis call_returns [OF _ inv])
  let ?t = "?s\<lparr>m_queue := q\<rparr>"
  have bg: "background\<^sup>*\<^sup>* ?s ?t"
    using pub run by (intro in_queue_run [where c = c]) (simp_all add: publishing_def)
  have "publishing c (m_closed (que (m_queue s))) (m_feed_state s) (accepted (m_queue s)) [x] ?t" by (rule publishing_run [OF bg pub])
  then have "sstep ?t (?t\<lparr>io := Ready\<rparr>)"
    using ret by (intro sstep.pushed [where r = r]) (simp_all add: publishing_def sink_on_tick_def begin_call_def)
  then have "background ?t (?t\<lparr>io := Ready\<rparr>)" by (rule background.working)
  with bg have "background\<^sup>*\<^sup>* ?s (?t\<lparr>io := Ready\<rparr>)" by (rule rtranclp.rtrancl_into_rtrancl)
  then show thesis by (rule that) simp
qed

text \<open>
  And it returns in every run: from wherever the two threads have got to, and however often the wait
  of the consumer ended spuriously on the way, they can only take so many steps without a new call,
  and when they can take none the io thread is back.
\<close>

interpretation queue_call_ends: decreasing_steps sstep "publishing c b f A xs" sink_work for c b f A xs
proof unfold_locales
  fix s s' assume pub: "publishing c b f A xs s" and step: "sstep s s'"
  show "publishing c b f A xs s'" by (rule publishing_background [OF background.working [OF step] pub])
  have "sink_inv c s" using pub by (simp add: publishing_def)
  then show "sink_work s' < sink_work s" by (rule sink_work_sstep [OF step])
qed

lemma publishing_returns:
  assumes "publishing c b f A xs s"
  shows "inevitably sstep s (\<lambda>s'. io s' = Ready \<and> live s' \<and> feed_state s' = f \<and>
    accepted (m_queue s') = A @ (if b then [] else xs))"
proof (rule queue_call_ends.inevitable [OF assms])
  fix s' assume pub: "publishing c b f A xs s'" and stuck: "stuck sstep s'"
  then have "io s' = Ready" by (intro stuck_io [of c]) (simp_all add: publishing_def)
  with publishing_over [OF pub] show "io s' = Ready \<and> live s' \<and> feed_state s' = f \<and>
    accepted (m_queue s') = A @ (if b then [] else xs)"
    by (simp add: publishable_def feed_state_def)
qed

lemma queue_call_returns:
  assumes "publishable c s" and "background\<^sup>*\<^sup>* (queue_call e s) s1"
  shows "inevitably sstep s1 (\<lambda>s'. io s' = Ready \<and> live s' \<and> feed_state s' = last_health (feed_state s) [e] \<and>
    accepted (m_queue s') = accepted (m_queue s) @ (if m_closed (que (m_queue s)) then [] else ticks_of [e]))"
proof (cases e)
  case (Price x)
  with assms(2) have "background\<^sup>*\<^sup>* (sink_on_tick x s) s1" by simp
  from publishing_returns [OF publishing_run [OF this on_tick_publishing [OF assms(1)]]] show ?thesis
    unfolding Price by (rule inevitably_mono) (simp_all add: feed_state_def)
next
  case (Health f)
  with assms(2) have "background\<^sup>*\<^sup>* (sink_on_feed_state f s) s1" by simp
  from publishing_returns [OF publishing_run [OF this on_feed_state_publishing [OF assms(1)]]] show ?thesis
    unfolding Health by (rule inevitably_mono) simp_all
qed

interpretation queue_feed: tick_sink
  "publishable c" queue_deliver "\<lambda>s. \<not> m_closed (que (m_queue s))" "\<lambda>s. accepted (m_queue s)" "\<lambda>x. x" m_feed_state for c
proof unfold_locales
  fix s s' x
  assume ok: "publishable c s" and "queue_deliver (Price x) s s'"
  then have run: "background\<^sup>*\<^sup>* (sink_on_tick x s) s'" and io: "io s' = Ready" by simp_all
  from publishing_over [OF publishing_run [OF run on_tick_publishing [OF ok]] io]
  show "publishable c s' \<and> (\<not> m_closed (que (m_queue s'))) = (\<not> m_closed (que (m_queue s))) \<and>
      accepted (m_queue s') = accepted (m_queue s) @ (if \<not> m_closed (que (m_queue s)) then [x] else []) \<and>
      m_feed_state s' = m_feed_state s" by simp
next
  fix s s' f
  assume ok: "publishable c s" and "queue_deliver (Health f) s s'"
  then have run: "background\<^sup>*\<^sup>* (sink_on_feed_state f s) s'" and io: "io s' = Ready" by simp_all
  from publishing_over [OF publishing_run [OF run on_feed_state_publishing [OF ok]] io]
  show "publishable c s' \<and> (\<not> m_closed (que (m_queue s'))) = (\<not> m_closed (que (m_queue s))) \<and>
      accepted (m_queue s') = accepted (m_queue s) \<and> m_feed_state s' = f" by simp
next
  fix s e
  assume ok: "publishable c s"
  then have "live s" and "io s = Ready" by (simp_all add: publishable_def)
  show "\<exists>s'. queue_deliver e s s'"
  proof (cases e)
    case (Price x)
    with on_tick_returns [OF ok, of x] \<open>live s\<close> \<open>io s = Ready\<close> show ?thesis by auto
  next
    case (Health f)
    have "io (sink_on_feed_state f s) = Ready" using \<open>io s = Ready\<close> by (simp add: sink_on_feed_state_def)
    with Health \<open>live s\<close> \<open>io s = Ready\<close> show ?thesis by auto
  qed
qed

text \<open>The call after a list of calls.\<close>

lemma ticks_of_append [simp]: "ticks_of (es @ fs) = ticks_of es @ ticks_of fs"
  by (induction es rule: ticks_of.induct) simp_all

lemma last_health_append [simp]: "last_health f (es @ fs) = last_health (last_health f es) fs"
  by (induction f es rule: last_health.induct) simp_all

lemma next_call_returns:
  assumes ok: "publishable c s" and "feed queue_deliver es s s1" and "background\<^sup>*\<^sup>* (queue_call e s1) s2"
  shows "inevitably sstep s2 (\<lambda>s'. io s' = Ready \<and> live s' \<and>
    feed_state s' = last_health (feed_state s) (es @ [e]) \<and>
    accepted (m_queue s') = accepted (m_queue s) @ (if m_closed (que (m_queue s)) then [] else ticks_of (es @ [e])))"
proof -
  from queue_feed.feed_seen [OF assms(2) ok]
  have s1: "publishable c s1" "m_closed (que (m_queue s1)) = m_closed (que (m_queue s))"
    "accepted (m_queue s1) = accepted (m_queue s) @ (if m_closed (que (m_queue s)) then [] else ticks_of es)"
    "feed_state s1 = last_health (feed_state s) es"
    by (auto simp: feed_state_def)
  from queue_call_returns [OF s1(1) assms(3)] show ?thesis
    by (rule inevitably_mono) (auto simp: s1)
qed

end
