(* ===== verification/Feed_Visibility.thy ===== *)
theory Feed_Visibility
  imports Tick_Feed
begin

text \<open>
  What \<open>QueueSink::feed_state\<close> may return on another thread.  \<open>m_feed_state\<close> is an atomic that is
  stored and loaded with \<open>memory_order_relaxed\<close>, so a load returns some store of its modification
  order, at or after the newest one its thread knows of.  A thread learns of stores by its own
  accesses, by locking the mutex of the queue after another thread released it, and by the start and
  the join of the consumer thread.
\<close>

section \<open>The sink with the history of its atomic\<close>

text \<open>
  \<open>stores\<close> is the modification order, from the initial value on; \<open>knows\<close> the newest store each thread
  knows of; \<open>handed_on\<close> the newest one known to a thread that released the mutex.  The ghosts: for
  each accepted tick the newest store when it was accepted, and the loads made so far.
\<close>

record feed_world =
  the_sink :: queue_sink
  stores :: "FeedState list"
  knows :: "nat \<Rightarrow> nat"
  handed_on :: nat
  marks :: "nat list"
  loads :: "(nat \<times> nat) list"

definition new_world :: "64 word \<Rightarrow> feed_world" where
  "new_world capacity = \<lparr>the_sink = new_sink capacity, stores = [Stale], knows = (\<lambda>_. 0),
     handed_on = 0, marks = [], loads = []\<rparr>"

fun note_mutex :: "nat option \<Rightarrow> nat option \<Rightarrow> feed_world \<Rightarrow> feed_world" where
  "note_mutex None (Some t) w = w\<lparr>knows := (knows w)(t := max (knows w t) (handed_on w))\<rparr>"
| "note_mutex (Some t) None w = w\<lparr>handed_on := max (handed_on w) (knows w t)\<rparr>"
| "note_mutex _ _ w = w"

text \<open>The consumer thread starts knowing what the io thread knows, and the join hands it back.\<close>

fun note_thread :: "bool \<Rightarrow> bool \<Rightarrow> feed_world \<Rightarrow> feed_world" where
  "note_thread False True w = w\<lparr>knows := (knows w)(1 := max (knows w 1) (knows w 0))\<rparr>"
| "note_thread True False w = w\<lparr>knows := (knows w)(0 := max (knows w 0) (knows w 1))\<rparr>"
| "note_thread _ _ w = w"

definition note_ticks :: "nat \<Rightarrow> feed_world \<Rightarrow> feed_world" where
  "note_ticks n w = w\<lparr>marks := marks w @ replicate n (length (stores w) - 1)\<rparr>"

definition sink_moves :: "queue_sink \<Rightarrow> feed_world \<Rightarrow> feed_world" where
  "sink_moves s' w =
     (let s = the_sink w
      in (note_ticks (length (accepted (m_queue s')) - length (accepted (m_queue s)))
           (note_mutex (owner (m_queue s)) (owner (m_queue s'))
             (note_thread (joinable s) (joinable s') w)))\<lparr>the_sink := s'\<rparr>)"

definition store_state :: "FeedState \<Rightarrow> feed_world \<Rightarrow> feed_world" where
  "store_state f w = w\<lparr>the_sink := sink_on_feed_state f (the_sink w), stores := stores w @ [f],
     knows := (knows w)(0 := length (stores w))\<rparr>"

text \<open>
  A load by thread \<open>t\<close> that returns the store at place \<open>i\<close>.  The consumer loads inside its handler,
  the io thread between its calls, any other thread at any time.
\<close>

fun may_load :: "nat \<Rightarrow> queue_sink \<Rightarrow> bool" where
  "may_load t s = (if t = 0 then io s = Ready
     else if t = 1 then (case consumer s of Handling _ \<Rightarrow> True | _ \<Rightarrow> False) else True)"

definition loadable :: "nat \<Rightarrow> nat \<Rightarrow> feed_world \<Rightarrow> bool" where
  "loadable t i w \<longleftrightarrow> live (the_sink w) \<and> may_load t (the_sink w) \<and> knows w t \<le> i \<and> i < length (stores w)"

definition load_state :: "nat \<Rightarrow> nat \<Rightarrow> feed_world \<Rightarrow> FeedState \<times> feed_world" where
  "load_state t i w = (stores w ! i, w\<lparr>knows := (knows w)(t := i), loads := loads w @ [(t, i)]\<rparr>)"

inductive wstep :: "feed_world \<Rightarrow> feed_world \<Rightarrow> bool" where
  move: "env_step (the_sink w) s' \<Longrightarrow> m_feed_state s' = m_feed_state (the_sink w) \<Longrightarrow>
    wstep w (sink_moves s' w)"
| store: "live (the_sink w) \<Longrightarrow> io (the_sink w) = Ready \<Longrightarrow> wstep w (store_state f w)"
| load: "loadable t i w \<Longrightarrow> wstep w (snd (load_state t i w))"

abbreviation world_run :: "64 word \<Rightarrow> feed_world \<Rightarrow> bool" where
  "world_run c \<equiv> reachable (\<lambda>w. w = new_world c) wstep"

section \<open>What each thread knows\<close>

text \<open>Every accepted tick was handed on with its mark; what the consumer received it knows of.\<close>

definition world_inv :: "64 word \<Rightarrow> feed_world \<Rightarrow> bool" where
  "world_inv c w \<longleftrightarrow> sink_inv c (the_sink w) \<and>
     last (stores w) = m_feed_state (the_sink w) \<and>
     length (stores w) = Suc (knows w 0) \<and> (\<forall>t. knows w t \<le> knows w 0) \<and>
     handed_on w \<le> knows w 0 \<and> (\<forall>t i. (t, i) \<in> set (loads w) \<longrightarrow> i \<le> knows w t)"

definition marks_inv :: "feed_world \<Rightarrow> bool" where
  "marks_inv w \<longleftrightarrow> (let q = m_queue (the_sink w) in
     length (marks w) = length (accepted q) \<and> (\<forall>m\<in>set (marks w). m \<le> handed_on w) \<and>
     (owner q = Some 1 \<longrightarrow> handed_on w \<le> knows w 1) \<and>
     (\<forall>k<length (removed q). \<not> fst (removed q ! k) \<longrightarrow> marks w ! k \<le> knows w 1))"

text \<open>What a step of the queue means for the mutex and the two ledgers.\<close>

lemma mutex_moves:
  assumes "istep N s s'" and "sound_queue c s" and "mutex s"
  obtains
    (same) "owner s' = owner s" "accepted s' = accepted s" "removed s' = removed s"
  | (lock) t where "t < N" "owner s = None" "owner s' = Some t" "accepted s' = accepted s" "removed s' = removed s"
  | (unlock) t where "t < N" "owner s = Some t" "owner s' = None" "accepted s' = accepted s" "removed s' = removed s"
  | (push) t x d where "t < N" "owner s = Some t" "owner s' = None" "pcs s t = PushCrit x"
      "accepted s' = accepted s @ [x]" "removed s' = removed s @ d" "\<forall>e\<in>set d. fst e"
  | (pop) t x where "t < N" "owner s = Some t" "owner s' = None" "pcs s t = PopCheck"
      "accepted s' = accepted s" "removed s' = removed s @ [(False, x)]"
proof -
  have own: "holding (pcs s t) \<Longrightarrow> owner s = Some t" for t using assms(3) by (simp add: mutex_def)
  have left: thesis if "t < N" "holding (pcs s t)" "s' = release t p s" for t p
    using that own [of t] by (intro unlock [of t]) (simp_all add: move_defs)
  from assms(1,2) show thesis
  proof (cases rule: sound_steps)
    case (push_room t x)
    then show thesis using own [of t] by (intro push [of t x "[]"]) (simp_all add: move_defs)
  next
    case (push_full t x y ys)
    then show thesis using own [of t] by (intro push [of t x "[(True, y)]"]) (simp_all add: move_defs)
  next
    case (pop_item t x xs)
    then show thesis using own [of t] by (intro pop [of t x]) (simp_all add: move_defs)
  next
    case (lock t p)
    then show thesis by (intro that(2)) (simp_all add: move_defs)
  next
    case (close_crit t)
    then show thesis using own [of t] by (intro unlock [of t]) (simp_all add: move_defs)
  next
    case (push_closed t x)
    then show thesis by (intro left) simp_all
  next
    case (pop_end t)
    then show thesis by (intro left) simp_all
  next
    case (pop_wait t)
    then show thesis by (intro left) simp_all
  next
    case (stat_crit t k)
    then show thesis by (intro left) simp_all
  qed (use same in \<open>simp_all add: goto_def\<close>)
qed

lemma env_step_mutex:
  assumes "env_step s s'" and inv: "sink_inv c s"
  defines "q \<equiv> m_queue s" and "q' \<equiv> m_queue s'"
  obtains
    (same) "owner q' = owner q" "accepted q' = accepted q" "removed q' = removed q"
  | (lock) t where "owner q = None" "owner q' = Some t" "accepted q' = accepted q" "removed q' = removed q"
  | (unlock) t where "owner q = Some t" "owner q' = None" "accepted q' = accepted q" "removed q' = removed q"
  | (push) x d where "owner q = Some 0" "owner q' = None"
      "accepted q' = accepted q @ [x]" "removed q' = removed q @ d" "\<forall>e\<in>set d. fst e"
  | (pop) x where "owner q = Some 1" "owner q' = None"
      "accepted q' = accepted q" "removed q' = removed q @ [(False, x)]"
proof -
  have roles: "roles s" and sound: "sound_queue c q" and mtx: "mutex q"
    using inv by (simp_all add: sink_inv_def thread_inv_def q_def)
  consider "q' = q" | "qstep 2 q q'" using env_step_qstep [OF assms(1,2)] by (auto simp: q_def q'_def)
  then show thesis
  proof cases
    case 2
    then show thesis
    proof cases
      case internal
      from internal sound mtx show thesis
      proof (cases rule: mutex_moves)
        case (push t x d)
        then have "t = 0" using roles consumer_not_pushing by (auto simp: less_2_cases_iff roles_def q_def)
        with push show thesis using that(4) by blast
      next
        case (pop t x)
        then have "t = 1" using roles io_role_not_popping by (auto simp: less_2_cases_iff roles_def q_def)
        with pop show thesis using that(5) by blast
      qed (use that in blast)+
    qed (use that(1) in \<open>simp_all add: goto_def\<close>)
  qed (use that(1) in simp)
qed

lemma note_frame [simp]:
  "the_sink (note_thread a b w) = the_sink w" "stores (note_thread a b w) = stores w"
  "marks (note_thread a b w) = marks w" "loads (note_thread a b w) = loads w"
  "handed_on (note_thread a b w) = handed_on w"
  "the_sink (note_mutex m n w) = the_sink w" "stores (note_mutex m n w) = stores w"
  "marks (note_mutex m n w) = marks w" "loads (note_mutex m n w) = loads w"
  by (cases "(a, b, w)" rule: note_thread.cases; simp; fail | cases "(m, n, w)" rule: note_mutex.cases; simp; fail)+

lemma note_knows:
  "knows w t \<le> knows (note_thread a b w) t" "knows w t \<le> knows (note_mutex m n w) t"
  by (cases "(a, b, w)" rule: note_thread.cases; simp) (cases "(m, n, w)" rule: note_mutex.cases; simp)

lemma note_mutex_same [simp]: "note_mutex m m w = w"
  by (cases m) simp_all

lemma world_inv_thread: "world_inv c w \<Longrightarrow> world_inv c (note_thread a b w)"
  by (cases "(a, b, w)" rule: note_thread.cases)
    (auto simp: world_inv_def max_absorb1 le_max_iff_disj, meson le_trans)

lemma world_inv_mutex: "world_inv c w \<Longrightarrow> world_inv c (note_mutex m n w)"
  by (cases "(m, n, w)" rule: note_mutex.cases) (auto simp: world_inv_def max_absorb1 le_max_iff_disj)

lemma marks_inv_thread: "marks_inv w \<Longrightarrow> marks_inv (note_thread a b w)"
  by (cases "(a, b, w)" rule: note_thread.cases) (auto simp: marks_inv_def Let_def le_max_iff_disj)


text \<open>A step of the queue keeps the marks in order.\<close>

lemma marks_inv_step:
  assumes inv: "world_inv c w" and marks: "marks_inv w"
    and step: "env_step (the_sink w) s'" and inv': "sink_inv c s'"
  defines "q \<equiv> m_queue (the_sink w)" and "q' \<equiv> m_queue s'"
  shows "marks_inv ((note_ticks (length (accepted q') - length (accepted q))
    (note_mutex (owner q) (owner q') w))\<lparr>the_sink := s'\<rparr>)"
proof -
  have sinv: "sink_inv c (the_sink w)" and top: "length (stores w) = Suc (knows w 0)"
    and low: "handed_on w \<le> knows w 0"
    using inv by (auto simp: world_inv_def)
  have len: "length (removed q) \<le> length (accepted q)" and len': "length (removed q') \<le> length (accepted q')"
    using sinv inv' by (simp_all add: sink_inv_def thread_inv_def history_def q_def q'_def)
  note defs = marks_inv_def note_ticks_def Let_def
  have before: "length (marks w) = length (accepted q)" "\<forall>m\<in>set (marks w). m \<le> handed_on w"
    "owner q = Some 1 \<longrightarrow> handed_on w \<le> knows w 1"
    "\<forall>k<length (removed q). \<not> fst (removed q ! k) \<longrightarrow> marks w ! k \<le> knows w 1"
    using marks by (simp_all add: marks_inv_def Let_def q_def)
  from step sinv show ?thesis
  proof (cases rule: env_step_mutex)
    case same
    with before show ?thesis by (simp add: defs q_def q'_def)
  next
    case (lock t)
    with before show ?thesis by (auto simp: defs q_def q'_def le_max_iff_disj)
  next
    case (unlock t)
    with before show ?thesis by (auto simp: defs q_def q'_def le_max_iff_disj)
  next
    case (push x d)
    with before top low len show ?thesis
      by (auto simp: defs q_def q'_def nth_append le_max_iff_disj)
  next
    case (pop x)
    then have "length (removed q) < length (marks w)"
      using before(1) len' by (simp add: q_def q'_def)
    then have "marks w ! length (removed q) \<le> handed_on w" using before(2) by simp
    then have "marks w ! length (removed q) \<le> knows w 1" using before(3) pop(1) by (simp add: q_def)
    with pop before show ?thesis
      by (auto simp: defs q_def q'_def nth_append le_max_iff_disj less_Suc_eq)
  qed
qed


interpretation world: inductive_invariant
  "\<lambda>w. w = new_world c \<and> 0 < unat c" wstep "\<lambda>w. world_inv c w \<and> marks_inv w" for c
proof unfold_locales
  fix w assume "w = new_world c \<and> 0 < unat c"
  then show "world_inv c w \<and> marks_inv w"
    using sink.holds_initially [of "new_sink c" c]
    by (simp add: new_world_def world_inv_def marks_inv_def) (simp add: new_sink_def initial_def)
next
  fix w w' assume inv: "world_inv c w \<and> marks_inv w" and "wstep w w'"
  then have sinv: "sink_inv c (the_sink w)" by (simp add: world_inv_def)
  from \<open>wstep w w'\<close> show "world_inv c w' \<and> marks_inv w'"
  proof cases
    case (move s')
    let ?w = "note_thread (joinable (the_sink w)) (joinable s') w"
    have "sink_inv c s'" using move(2) sinv by (rule sink_inv_env_step)
    moreover have "world_inv c (note_mutex m n ?w)" for m n
      using inv by (intro world_inv_mutex world_inv_thread) simp
    moreover have "marks_inv w'"
      using marks_inv_step [of c ?w s'] inv move(2) \<open>sink_inv c s'\<close>
      by (simp add: move(1) sink_moves_def Let_def world_inv_thread marks_inv_thread)
    ultimately show ?thesis
      using move(3) by (simp add: move(1) sink_moves_def Let_def world_inv_def note_ticks_def)
  next
    case (store f)
    then have "sink_inv c (sink_on_feed_state f (the_sink w))"
      using sinv by (intro sink_inv_env_step [OF env_step.on_feed_state])
    with inv show ?thesis
      by (auto simp: store(1) store_state_def world_inv_def marks_inv_def sink_on_feed_state_def Let_def
          intro: le_SucI)
  next
    case (load t i)
    with inv show ?thesis
      by (auto simp: load_state_def loadable_def world_inv_def marks_inv_def Let_def intro: le_trans)
  qed
qed


lemma world_run_inv:
  assumes "0 < unat c" and "world_run c w"
  shows "world_inv c w" and "marks_inv w"
proof -
  from assms have "reachable (\<lambda>w. w = new_world c \<and> 0 < unat c) wstep w" by simp
  from world.reachable_inv [OF this] show "world_inv c w" and "marks_inv w" by simp_all
qed

section \<open>The history neither adds to the sink nor restricts it\<close>

interpretation world_sink: refinement_mapping
  "\<lambda>w. w = new_world c \<and> 0 < unat c" wstep "\<lambda>w. world_inv c w \<and> marks_inv w"
  "\<lambda>s. s = new_sink c" env_step the_sink for c
proof unfold_locales
  fix w w' assume "wstep w w'"
  then show "the_sink w' = the_sink w \<or> env_step (the_sink w) (the_sink w')"
  proof cases
    case (store f)
    then show ?thesis using env_step.on_feed_state by (simp add: store_state_def)
  qed (simp_all add: sink_moves_def load_state_def Let_def)
qed (simp add: new_world_def)

lemma world_of_sink: "sink_run c s \<Longrightarrow> \<exists>w. world_run c w \<and> the_sink w = s"
proof (induction rule: reachable.induct)
  case (start s)
  then show ?case
    by (intro exI [of _ "new_world c"] conjI reachable.start) (simp_all add: new_world_def)
next
  case (step s s')
  then obtain w where w: "world_run c w" "the_sink w = s" by blast
  show ?case
  proof (cases "m_feed_state s' = m_feed_state s")
    case True
    then have "wstep w (sink_moves s' w)" using step.hyps(2) w(2) by (intro wstep.move) simp_all
    with w(1) show ?thesis
      by (intro exI [of _ "sink_moves s' w"]) (auto simp: sink_moves_def Let_def intro: reachable.step)
  next
    case False
    with step.hyps(2) obtain f where f: "s' = sink_on_feed_state f s" "live s" "io s = Ready"
      by (auto elim!: env_step.cases sstep.cases simp: sink_defs Let_def split: if_splits)
    then have "wstep w (store_state f w)" using w(2) by (intro wstep.store) simp_all
    with w f(1) show ?thesis
      by (intro exI [of _ "store_state f w"]) (auto simp: store_state_def intro: reachable.step)
  qed
qed

section \<open>What a load returns\<close>

text \<open>No thread goes back to an older store, and the io thread always loads the newest one.\<close>

lemma loads_go_forward: "world_inv c w \<Longrightarrow> loadable t i w \<Longrightarrow> (t, j) \<in> set (loads w) \<Longrightarrow> j \<le> i"
  by (auto simp: world_inv_def loadable_def intro: le_trans)

lemma newest_load:
  assumes "world_inv c w" and "i = length (stores w) - 1"
  shows "fst (load_state t i w) = m_feed_state (the_sink w)"
  using assms by (cases "stores w" rule: rev_cases) (auto simp: world_inv_def load_state_def nth_append)

lemma io_load_current: "world_inv c w \<Longrightarrow> loadable 0 i w \<Longrightarrow> fst (load_state 0 i w) = feed_state (the_sink w)"
  using newest_load [of c w i 0] by (simp add: feed_state_def world_inv_def loadable_def)

lemma received_known:
  assumes "world_inv c w" and "marks_inv w" and "loadable 1 i w"
    and "k < length (removed (m_queue (the_sink w)))" and "\<not> fst (removed (m_queue (the_sink w)) ! k)"
  shows "marks w ! k \<le> i"
    and "marks w ! k = length (stores w) - 1 \<Longrightarrow> fst (load_state 1 i w) = m_feed_state (the_sink w)"
proof -
  show low: "marks w ! k \<le> i" using assms(2-5) by (auto simp: marks_inv_def loadable_def Let_def intro: le_trans)
  assume "marks w ! k = length (stores w) - 1"
  with low assms(3) have "i = length (stores w) - 1" by (auto simp: loadable_def)
  then show "fst (load_state 1 i w) = m_feed_state (the_sink w)" by (rule newest_load [OF assms(1)])
qed

text \<open>The tick in the consumer's hands is one that left the queue to it.\<close>

lemma handling_received:
  assumes "sink_inv c s" and "consumer s = Handling x"
  shows "(False, x) \<in> set (removed (m_queue s))"
proof -
  have "x \<in> set (received (m_queue s))" using assms by (simp add: sink_inv_def ledger_def)
  then show ?thesis by (auto simp: received_def)
qed

end
