(* ===== verification/Queue_Properties.thy ===== *)
theory Queue_Properties
  imports Sink_Trace Feed_Visibility
begin

text \<open>
  The properties of the bounded queue, of its threads, and of the sinks, each with a run on which
  its hypotheses hold.
\<close>

section \<open>Sample runs\<close>

lemma run_istep: "queue_run N c s \<Longrightarrow> istep N s s' \<Longrightarrow> queue_run N c s'"
  by (erule reachable.step) (rule qstep.internal)

lemma run_call:
  "queue_run N c s \<Longrightarrow> t < N \<Longrightarrow> \<not> crashed s \<Longrightarrow> outside (pcs s t) \<Longrightarrow> entry p \<Longrightarrow> queue_run N c (goto t p s)"
  by (erule reachable.step) (rule qstep.call)

lemma run_start: "queue_run N c (initial c)"
  by (rule reachable.start) simp

text \<open>Thread 0 inside the critical section of \<open>push\<close>, and after it.\<close>

definition pushing_state :: "nat qstate" where
  "pushing_state = acquire 0 (PushCrit 7) (goto 0 (PushLock 7) (initial 1))"

definition pushed_state :: "nat qstate" where
  "pushed_state = push_locked 0 7 pushing_state"

text \<open>Thread 1 waits in \<open>pop\<close>; thread 0 has pushed and not yet notified.\<close>

definition waiting_state :: "nat qstate" where
  "waiting_state = pop_locked 1 (acquire 1 PopCheck (goto 1 PopLock (initial 1)))"

definition woken_state :: "nat qstate" where
  "woken_state = push_locked 0 7 (acquire 0 (PushCrit 7) (goto 0 (PushLock 7) waiting_state))"

text \<open>Thread 0 has closed the queue and thread 1 was told that it is over.\<close>

definition closed_state :: "nat qstate" where
  "closed_state = close_locked 0 (acquire 0 CloseCrit (goto 0 CloseLock (initial 1)))"

definition over_state :: "nat qstate" where
  "over_state = pop_locked 1 (acquire 1 PopCheck (goto 1 PopLock closed_state))"

lemmas sample_defs = pushing_state_def pushed_state_def waiting_state_def woken_state_def
  closed_state_def over_state_def initial_def new_queue_def move_defs push_locked_def pop_locked_def
  push_def pop_ready_def pop_body_def close_def

lemma run_pushing: "queue_run 2 1 pushing_state"
  unfolding pushing_state_def
  by (intro run_istep [OF run_call istep.lock] run_start) (simp_all add: initial_def goto_def)

lemma run_pushed: "queue_run 2 1 pushed_state"
  unfolding pushed_state_def
  by (rule run_istep [OF run_pushing istep.push_crit]) (simp_all add: sample_defs)

lemma run_waiting: "queue_run 2 1 waiting_state"
  unfolding waiting_state_def
  by (intro run_istep [OF run_istep [OF run_call istep.lock] istep.pop_check] run_start)
    (simp_all add: initial_def goto_def acquire_def)

lemma run_woken: "queue_run 2 1 woken_state"
  unfolding woken_state_def
  by (intro run_istep [OF run_istep [OF run_call istep.lock] istep.push_crit] run_waiting)
    (simp_all add: sample_defs)

lemma run_closed: "queue_run 2 1 closed_state"
  unfolding closed_state_def
  by (intro run_istep [OF run_istep [OF run_call istep.lock] istep.close_crit] run_start)
    (simp_all add: initial_def goto_def acquire_def)

lemma run_over: "queue_run 2 1 over_state"
  unfolding over_state_def
  by (intro run_istep [OF run_istep [OF run_call istep.lock] istep.pop_check] run_closed)
    (simp_all add: sample_defs)

text \<open>
  A sink that was started, was given one tick, handled it, was stopped, and whose consumer left its
  loop; \<open>stop\<close> is about to join it.
\<close>

definition sample_tick :: tick where
  "sample_tick = \<lparr>tick_id = 7, exchange_ts = 1, recv_ts = 2, price = double_of_int 68553\<rparr>"

definition in_queue :: "(tick qstate \<Rightarrow> tick qstate) \<Rightarrow> queue_sink \<Rightarrow> queue_sink" where
  "in_queue f s = s\<lparr>m_queue := f (m_queue s)\<rparr>"

definition fed_sink :: queue_sink where
  "fed_sink = (in_queue (goto 0 (Returned (Pushed True))) (in_queue (push_locked 0 sample_tick)
     (in_queue (acquire 0 (PushCrit sample_tick)) (sink_on_tick sample_tick
       (sink_start True (new_sink 1))))))\<lparr>io := Ready\<rparr>"

definition handling_sink :: queue_sink where
  "handling_sink = (in_queue (pop_locked 1) (in_queue (acquire 1 PopCheck)
     ((begin_call 1 PopLock fed_sink)\<lparr>consumer := Popping\<rparr>)))\<lparr>consumer := Handling sample_tick\<rparr>"

definition served_sink :: queue_sink where
  "served_sink = consume_handle sample_tick handling_sink"

definition stopping_sink :: queue_sink where
  "stopping_sink = in_queue (close_locked 0) (in_queue (acquire 0 CloseCrit) (sink_stop served_sink))"

definition finished_sink :: queue_sink where
  "finished_sink = (in_queue (pop_locked 1) (in_queue (acquire 1 PopCheck)
     ((begin_call 1 PopLock stopping_sink)\<lparr>consumer := Popping\<rparr>)))\<lparr>consumer := Finished\<rparr>"

lemmas sink_sample_defs = in_queue_def sink_defs new_sink_def initial_def new_queue_def move_defs
  push_locked_def pop_locked_def push_def pop_ready_def pop_body_def close_def live_def

lemma fed_sink_eq:
  "fed_sink = \<lparr>m_queue = \<lparr>que = \<lparr>m_items = [sample_tick], m_capacity = 1, m_dropped = 0, m_closed = False\<rparr>,
      owner = None, pcs = (\<lambda>_. Idle)(0 := Returned (Pushed True)), crashed = False,
      accepted = [sample_tick], removed = []\<rparr>,
    joinable = True, m_on_tick = True, m_feed_state = Stale, io = Ready, consumer = Looping,
    terminated = False, taken = [], handled = [], muted = False\<rparr>"
  by (simp add: fed_sink_def sink_sample_defs)

lemma served_sink_eq:
  "served_sink = \<lparr>m_queue = \<lparr>que = \<lparr>m_items = [], m_capacity = 1, m_dropped = 0, m_closed = False\<rparr>,
      owner = None, pcs = (\<lambda>_. Idle)(0 := Returned (Pushed True), 1 := Returned (Popped (Some sample_tick))),
      crashed = False, accepted = [sample_tick], removed = [(False, sample_tick)]\<rparr>,
    joinable = True, m_on_tick = True, m_feed_state = Stale, io = Ready, consumer = Looping,
    terminated = False, taken = [sample_tick], handled = [sample_tick], muted = False\<rparr>"
  unfolding served_sink_def handling_sink_def fed_sink_eq by (simp add: sink_sample_defs)

lemma stopping_sink_eq:
  "stopping_sink = \<lparr>m_queue = \<lparr>que = \<lparr>m_items = [], m_capacity = 1, m_dropped = 0, m_closed = True\<rparr>,
      owner = None, pcs = (\<lambda>_. Idle)(0 := CloseNotify, 1 := Returned (Popped (Some sample_tick))),
      crashed = False, accepted = [sample_tick], removed = [(False, sample_tick)]\<rparr>,
    joinable = True, m_on_tick = True, m_feed_state = Stale, io = Closing, consumer = Looping,
    terminated = False, taken = [sample_tick], handled = [sample_tick], muted = False\<rparr>"
  unfolding stopping_sink_def served_sink_eq by (simp add: sink_sample_defs fun_upd_twist)

lemma finished_sink_eq:
  "finished_sink = \<lparr>m_queue = \<lparr>que = \<lparr>m_items = [], m_capacity = 1, m_dropped = 0, m_closed = True\<rparr>,
      owner = None, pcs = (\<lambda>_. Idle)(0 := CloseNotify, 1 := Returned (Popped None)),
      crashed = False, accepted = [sample_tick], removed = [(False, sample_tick)]\<rparr>,
    joinable = True, m_on_tick = True, m_feed_state = Stale, io = Closing, consumer = Finished,
    terminated = False, taken = [sample_tick], handled = [sample_tick], muted = False\<rparr>"
  unfolding finished_sink_def stopping_sink_eq by (simp add: sink_sample_defs)

lemma sink_run_sstep: "sink_run c s \<Longrightarrow> sstep s s' \<Longrightarrow> sink_run c s'"
  by (erule reachable.step) (rule env_step.machine)

lemma sink_run_queue:
  assumes "sink_run c s" and "live s" and "istep 2 (m_queue s) (f (m_queue s))"
  shows "sink_run c (in_queue f s)"
  unfolding in_queue_def by (rule sink_run_sstep [OF assms(1) sstep.in_queue [OF assms(2,3)]])

lemma run_fed: "sink_run 1 fed_sink"
proof -
  let ?s1 = "sink_start True (new_sink 1)"
  have r0: "sink_run 1 (new_sink 1)" by (rule reachable.start) simp
  have r1: "sink_run 1 ?s1"
    by (rule reachable.step [OF r0]) (rule env_step.start, simp_all add: sink_sample_defs)
  have r2: "sink_run 1 (sink_on_tick sample_tick ?s1)"
    by (rule reachable.step [OF r1]) (rule env_step.on_tick, simp_all add: sink_sample_defs)
  have r3: "sink_run 1 (in_queue (acquire 0 (PushCrit sample_tick)) (sink_on_tick sample_tick ?s1))"
    (is "sink_run 1 ?s3")
    by (rule sink_run_queue [OF r2]) (simp add: sink_sample_defs, rule istep.lock, simp_all add: sink_sample_defs)
  have r4: "sink_run 1 (in_queue (push_locked 0 sample_tick) ?s3)" (is "sink_run 1 ?s4")
    by (rule sink_run_queue [OF r3]) (simp add: sink_sample_defs, rule istep.push_crit, simp_all add: sink_sample_defs)
  have r5: "sink_run 1 (in_queue (goto 0 (Returned (Pushed True))) ?s4)"
    by (rule sink_run_queue [OF r4]) (simp add: sink_sample_defs, rule istep.notify_nobody, simp_all add: sink_sample_defs)
  show ?thesis
    unfolding fed_sink_def
    by (rule sink_run_sstep [OF r5]) (rule sstep.pushed [where r = True], simp_all add: sink_sample_defs)
qed

lemma run_handling: "sink_run 1 handling_sink"
proof -
  let ?s1 = "(begin_call 1 PopLock fed_sink)\<lparr>consumer := Popping\<rparr>"
  have r1: "sink_run 1 ?s1"
    by (rule sink_run_sstep [OF run_fed]) (rule sstep.pop_call, simp_all add: fed_sink_eq sink_sample_defs)
  have r2: "sink_run 1 (in_queue (acquire 1 PopCheck) ?s1)" (is "sink_run 1 ?s2")
    by (rule sink_run_queue [OF r1]) (simp add: fed_sink_eq sink_sample_defs, rule istep.lock,
        simp_all add: fed_sink_eq sink_sample_defs)
  have r3: "sink_run 1 (in_queue (pop_locked 1) ?s2)" (is "sink_run 1 ?s3")
    by (rule sink_run_queue [OF r2]) (simp add: fed_sink_eq sink_sample_defs, rule istep.pop_check,
        simp_all add: fed_sink_eq sink_sample_defs)
  show ?thesis
    unfolding handling_sink_def
    by (rule sink_run_sstep [OF r3]) (rule sstep.pop_item, simp_all add: fed_sink_eq sink_sample_defs)
qed

lemma run_served: "sink_run 1 served_sink"
  unfolding served_sink_def
  by (rule sink_run_sstep [OF run_handling])
    (rule sstep.handle, simp_all add: handling_sink_def fed_sink_eq sink_sample_defs)

lemma run_stopping: "sink_run 1 stopping_sink"
proof -
  have r1: "sink_run 1 (sink_stop served_sink)"
    by (rule reachable.step [OF run_served]) (rule env_step.stop, simp_all add: served_sink_eq sink_sample_defs)
  have r2: "sink_run 1 (in_queue (acquire 0 CloseCrit) (sink_stop served_sink))"
    by (rule sink_run_queue [OF r1]) (simp add: served_sink_eq sink_sample_defs, rule istep.lock,
        simp_all add: served_sink_eq sink_sample_defs)
  show ?thesis
    unfolding stopping_sink_def
    by (rule sink_run_queue [OF r2]) (simp add: served_sink_eq sink_sample_defs, rule istep.close_crit,
        simp_all add: served_sink_eq sink_sample_defs)
qed

lemma run_finished: "sink_run 1 finished_sink"
proof -
  let ?s1 = "(begin_call 1 PopLock stopping_sink)\<lparr>consumer := Popping\<rparr>"
  have r1: "sink_run 1 ?s1"
    by (rule sink_run_sstep [OF run_stopping]) (rule sstep.pop_call, simp_all add: stopping_sink_eq sink_sample_defs)
  have r2: "sink_run 1 (in_queue (acquire 1 PopCheck) ?s1)" (is "sink_run 1 ?s2")
    by (rule sink_run_queue [OF r1]) (simp add: stopping_sink_eq sink_sample_defs, rule istep.lock,
        simp_all add: stopping_sink_eq sink_sample_defs)
  have r3: "sink_run 1 (in_queue (pop_locked 1) ?s2)" (is "sink_run 1 ?s3")
    by (rule sink_run_queue [OF r2]) (simp add: stopping_sink_eq sink_sample_defs, rule istep.pop_check,
        simp_all add: stopping_sink_eq sink_sample_defs)
  show ?thesis
    unfolding finished_sink_def
    by (rule sink_run_sstep [OF r3]) (rule sstep.pop_end, simp_all add: stopping_sink_eq sink_sample_defs)
qed

section \<open>The queue\<close>

text \<open>C19: after a list of pushes an open queue holds the newest items, at most its capacity of them,
  in order; the number displaced is what \<open>dropped\<close> counts.\<close>

theorem queue_keeps_newest:
  assumes "0 < unat c"
  shows "push_list push (new_queue c) xs = Defined
    \<lparr>m_items = drop (length xs - unat c) xs, m_capacity = c,
     m_dropped = of_nat (length xs - unat c), m_closed = False\<rparr>"
proof -
  have "queue_inv (new_queue c)" and "\<not> closed (new_queue c)"
    using assms by (simp_all add: new_queue_inv closed_def) (simp add: new_queue_def)
  from bq.push_list_newest [OF this, of xs] obtain q where
    "push_list push (new_queue c) xs = Defined q" "\<not> closed q" "capacity_of q = unat c"
    "m_items q = drop (length xs - unat c) xs" "dropped q = of_nat (length xs - unat c)"
    by (auto simp: new_queue_def capacity_of_def dropped_def)
  then show ?thesis
    by (cases q) (simp add: capacity_of_def dropped_def closed_def word_unat_eq_iff)
qed

theorem queue_keeps_newest_witness:
  "push_list push (new_queue 2) [1 :: nat, 2, 3] = Defined
    \<lparr>m_items = [2, 3], m_capacity = 2, m_dropped = 1, m_closed = False\<rparr>"
  using queue_keeps_newest [of 2 "[1 :: nat, 2, 3]"] by simp

text \<open>C20: \<open>push\<close> runs into undefined behaviour exactly on an open queue of capacity zero, where
  \<open>pop_front\<close> is called on the empty deque.\<close>

theorem push_undefined_iff:
  "push q x = Undefined \<longleftrightarrow> m_items q = [] \<and> m_capacity q = 0 \<and> m_closed q = False"
  by (auto simp: push_def pop_front_def cxx_simps unat_eq_0 split: list.splits)

section \<open>Threads on the queue\<close>

text \<open>C40: mutual exclusion.  In every reachable state the threads inside a critical section are exactly
  the owner of the mutex, at most one; and in every step from there, whoever changes the queue has the
  mutex and is the only thread that moves, and a call that goes on with what it saw or did in the
  queue (it was refused, got an item or the end, read a number, must wait or notify) had the mutex
  and has released it.\<close>

theorem mutual_exclusion:
  assumes "queue_run N c s" and "qstep N s s'"
  shows "{t. holding (pcs s t)} = (case owner s of None \<Rightarrow> {} | Some t \<Rightarrow> {t}) \<and>
    (que s' = que s \<and> accepted s' = accepted s \<and> removed s' = removed s \<and> crashed s' = crashed s \<or>
      (\<exists>t. owner s = Some t \<and> (\<forall>u. u \<noteq> t \<longrightarrow> pcs s' u = pcs s u))) \<and>
    (\<forall>t. pcs s' t \<noteq> pcs s t \<and> decides (pcs s t) (pcs s' t) \<longrightarrow> owner s = Some t \<and> owner s' = None)"
proof -
  have m: "mutex s" by (rule queue_mutex.reachable_inv [OF assms(1)])
  then have "{t. holding (pcs s t)} = (case owner s of None \<Rightarrow> {} | Some t \<Rightarrow> {t})"
    by (auto simp: mutex_def split: option.split)
  with qstep_under_lock [OF assms(2) m] show ?thesis by (simp add: under_lock_def same_data_def)
qed

theorem mutual_exclusion_witness:
  "que pushed_state \<noteq> que pushing_state \<and> owner pushing_state = Some 0 \<and> owner pushed_state = None"
proof -
  have "qstep 2 pushing_state pushed_state"
    unfolding pushed_state_def by (intro qstep.internal istep.push_crit) (simp_all add: sample_defs)
  note excl = mutual_exclusion [OF run_pushing this]
  have "pcs pushed_state 0 \<noteq> pcs pushing_state 0" and "decides (pcs pushing_state 0) (pcs pushed_state 0)"
    and "que pushed_state \<noteq> que pushing_state" by (simp_all add: sample_defs)
  with excl show ?thesis by blast
qed

text \<open>C3: nothing is lost or duplicated and order is kept: the accepted items are the removed ones
  followed by the queued ones, the drop counter counts the displaced ones, the queue respects its
  capacity, and what consumers received followed by what is queued is a subsequence of what
  producers handed in.\<close>

theorem queue_conserves:
  assumes "0 < unat c" and "queue_run N c s"
  shows "accepted s = map snd (removed s) @ m_items (que s) \<and>
    m_dropped (que s) = of_nat (length (filter fst (removed s))) \<and>
    length (m_items (que s)) \<le> unat c \<and> crashed s = False \<and>
    subseq (received s @ m_items (que s)) (accepted s)"
proof -
  have inv: "thread_inv N c s" by (rule queue_run_inv [OF assms])
  then have h: "history s" by (simp add: thread_inv_def)
  from inv show ?thesis
    using subseq_received [OF h] by (auto simp: thread_inv_def sound_queue_def queue_inv_def history_def)
qed

theorem queue_conserves_witness:
  "accepted pushed_state = [7] \<and> m_items (que pushed_state) = [7] \<and>
    subseq (received pushed_state @ [7]) [7]"
  using queue_conserves [OF _ run_pushed] by (simp add: sample_defs)

text \<open>C8: no wake-up is lost: while a consumer waits on an open queue that holds an item, some thread
  is on its way to wake it or to take the item.\<close>

theorem no_lost_wakeup:
  assumes "0 < unat c" and "queue_run N c s" and "pcs s t = PopWait"
    and "m_items (que s) \<noteq> []" and "\<not> m_closed (que s)"
  shows "\<exists>u<N. (\<exists>r. pcs s u = PushNotify r) \<or> pcs s u = PopLock \<or> pcs s u = PopCheck"
proof -
  have "wakeful N s" using queue_run_inv [OF assms(1,2)] by (simp add: thread_inv_def)
  then have "length (m_items (que s)) \<le> (\<Sum>u<N. wakers (pcs s u))"
    using assms(3,5) by (auto simp: wakeful_def)
  then have "0 < (\<Sum>u<N. wakers (pcs s u))" using assms(4) by (cases "m_items (que s)") auto
  then obtain u where "u < N" and "0 < wakers (pcs s u)" by (rule sum_threads_positive)
  then show ?thesis by (cases "pcs s u") auto
qed

theorem no_lost_wakeup_witness:
  "pcs woken_state 1 = PopWait \<and>
    (\<exists>u<2. (\<exists>r. pcs woken_state u = PushNotify r) \<or> pcs woken_state u = PopLock \<or> pcs woken_state u = PopCheck)"
proof -
  have w: "pcs woken_state 1 = PopWait" "m_items (que woken_state) \<noteq> []" "\<not> m_closed (que woken_state)"
    by (simp_all add: sample_defs)
  with no_lost_wakeup [OF _ run_woken w] show ?thesis by simp
qed

text \<open>C2: the queue is linearizable.  In every run of any number of threads, the effects of the calls, in
  the order of their critical sections, are a run of the sequential queue that keeps the newest
  \<open>unat c\<close> items, with the outcomes that queue gives; and each thread's calls, effects and returns
  alternate, so that every call takes effect between its start and its return and returns the
  outcome of its effect.\<close>

theorem queue_linearizable:
  assumes "0 < unat c" and "traced_run N c (es, s)"
  shows "replay (unat c) es fresh = Some (spec_of s) \<and>
    (\<forall>t<N. conversation t es Free = Some (stage_of (pcs s t)))"
  using traced_run_linear [OF assms] by (simp add: linear_def)

theorem queue_linearizable_witness:
  "replay 1 [Invoke 0 (Offer 7), Effect 0 (Offer 7) (Pushed True)] fresh = Some (spec_of pushed_state) \<and>
    contents (spec_of pushed_state) = [7]"
proof -
  let ?s1 = "goto 0 (PushLock 7) (initial 1) :: nat qstate"
  have t0: "traced_run 2 1 ([], initial 1 :: nat qstate)" by (rule reachable.start) simp
  have t1: "traced_run 2 1 ([Invoke 0 (Offer 7)], ?s1)"
  proof (rule reachable.step [OF t0])
    have "qstep 2 (initial 1) ?s1" by (rule qstep.call) (simp_all add: initial_def)
    then show "traced_step 2 ([], initial 1) ([Invoke 0 (Offer 7)], ?s1)"
      by (simp add: traced_step_def step_events_move [of 0] goto_def)
        (simp add: move_events_def initial_def)
  qed
  have t2: "traced_run 2 1 ([Invoke 0 (Offer 7)], pushing_state)"
  proof (rule reachable.step [OF t1])
    have "qstep 2 ?s1 pushing_state"
      unfolding pushing_state_def by (intro qstep.internal istep.lock) (simp_all add: initial_def goto_def)
    then show "traced_step 2 ([Invoke 0 (Offer 7)], ?s1) ([Invoke 0 (Offer 7)], pushing_state)"
      by (simp add: traced_step_def step_events_move [of 0] pushing_state_def move_defs)
        (simp add: move_events_def)
  qed
  have "traced_run 2 1 ([Invoke 0 (Offer 7), Effect 0 (Offer 7) (Pushed True)], pushed_state)"
  proof (rule reachable.step [OF t2])
    have "qstep 2 pushing_state pushed_state"
      unfolding pushed_state_def by (intro qstep.internal istep.push_crit) (simp_all add: sample_defs)
    then show "traced_step 2 ([Invoke 0 (Offer 7)], pushing_state)
        ([Invoke 0 (Offer 7), Effect 0 (Offer 7) (Pushed True)], pushed_state)"
      by (simp add: traced_step_def step_events_move [of 0 2 _ _ "PushNotify True"] sample_defs)
        (simp add: move_events_def)
  qed
  from queue_linearizable [OF _ this] show ?thesis by (simp add: spec_of_def) (simp add: sample_defs)
qed

text \<open>C15: every call completes.  From any reachable state every run without new calls ends, after at
  most \<open>work N s\<close> steps whatever the interleaving, and then each thread has returned, except that a
  \<open>pop\<close> may still wait, and then the queue is open and empty.\<close>

theorem calls_always_complete:
  assumes "0 < unat c" and "queue_run N c s"
  shows "inevitably (istep N) s
      (\<lambda>s'. \<forall>t. outside (pcs s' t) \<or> pcs s' t = PopWait \<and> m_items (que s') = [] \<and> \<not> m_closed (que s')) \<and>
    (\<forall>n s'. (istep N ^^ n) s s' \<longrightarrow> n + work N s' \<le> work N s)"
  using calls_complete [OF assms] queue_calls.run_bound [OF _ queue_run_inv [OF assms]] by blast

theorem calls_always_complete_witness:
  "\<exists>s'. (istep 2)\<^sup>*\<^sup>* woken_state s' \<and> stuck (istep 2) s' \<and>
    (\<forall>t. outside (pcs s' t) \<or> pcs s' t = PopWait \<and> m_items (que s') = [] \<and> \<not> m_closed (que s'))"
proof -
  have "0 < unat (1 :: 64 word)" by simp
  from calls_always_complete [OF this run_woken, THEN conjunct1] show ?thesis
    by (rule inevitably_reached) blast
qed

text \<open>C25: the producer never waits for space, nor for a consumer: from any reachable state a \<open>push\<close>
  that has been called can return after at most three steps of its own thread, before which only a
  thread that has the mutex then needs one step to release it, and so can \<open>close\<close> and the observers;
  and in every run, until it has returned, its thread can move unless another thread has the mutex.\<close>

theorem push_never_waits:
  assumes "0 < unat c" and "queue_run N c s" and "t < N" and "prompt (pcs s t)"
  shows "(\<exists>k\<le>1. \<exists>m\<le>3. \<exists>s'. ((other_step N t ^^ k) OO (own_step N t ^^ m)) s s' \<and> returned (pcs s' t) \<and>
      (k = 1 \<longrightarrow> (\<exists>u<N. u \<noteq> t \<and> owner s = Some u)) \<and>
      (pushing (pcs s t) \<longrightarrow> (\<exists>r. pcs s' t = Returned (Pushed r)))) \<and>
    (\<forall>s'. (istep N)\<^sup>*\<^sup>* s s' \<longrightarrow> returned (pcs s' t) \<or>
      (\<exists>s''. istep N s' s'' \<and> pcs s'' t \<noteq> pcs s' t) \<or> (\<exists>u<N. u \<noteq> t \<and> owner s' = Some u))"
proof (intro conjI allI impI)
  have inv: "thread_inv N c s" by (rule queue_run_inv [OF assms(1,2)])
  show "\<exists>k\<le>1. \<exists>m\<le>3. \<exists>s'. ((other_step N t ^^ k) OO (own_step N t ^^ m)) s s' \<and> returned (pcs s' t) \<and>
      (k = 1 \<longrightarrow> (\<exists>u<N. u \<noteq> t \<and> owner s = Some u)) \<and>
      (pushing (pcs s t) \<longrightarrow> (\<exists>r. pcs s' t = Returned (Pushed r)))"
    by (rule call_returns [OF assms(3) inv assms(4)]) blast
  fix s' assume "(istep N)\<^sup>*\<^sup>* s s'"
  with inv assms(4) have "thread_inv N c s'" and "prompt (pcs s' t) \<or> returned (pcs s' t)"
    by (auto intro: queue_calls.run_inv dest: prompt_run)
  then show "returned (pcs s' t) \<or> (\<exists>s''. istep N s' s'' \<and> pcs s'' t \<noteq> pcs s' t) \<or>
      (\<exists>u<N. u \<noteq> t \<and> owner s' = Some u)"
    using prompt_moves [OF assms(3)] by blast
qed

theorem push_never_waits_witness:
  "\<exists>k\<le>1. \<exists>m\<le>3. \<exists>s'. ((other_step 2 0 ^^ k) OO (own_step 2 0 ^^ m)) pushing_state s' \<and>
    (\<exists>r. pcs s' 0 = Returned (Pushed r))"
proof -
  have p: "pcs pushing_state 0 = PushCrit 7" by (simp add: sample_defs)
  then have "prompt (pcs pushing_state 0)" and pushing: "pushing (pcs pushing_state 0)" by simp_all
  with push_never_waits [OF _ run_pushing, of 0] have
    "\<exists>k\<le>1. \<exists>m\<le>3. \<exists>s'. ((other_step 2 0 ^^ k) OO (own_step 2 0 ^^ m)) pushing_state s' \<and>
      (pushing (pcs pushing_state 0) \<longrightarrow> (\<exists>r. pcs s' 0 = Returned (Pushed r)))" by fastforce
  with pushing show ?thesis by meson
qed

text \<open>C21: \<open>pop\<close> returns false only at the end: once one has, the queue is closed and empty, for
  every capacity.\<close>

theorem end_of_queue:
  assumes "queue_run N c s" and "pcs s t = Returned (Popped None)"
  shows "m_closed (que s) \<and> m_items (que s) = []"
  using queue_end.reachable_inv [OF assms(1)] assms(2) by (auto simp: ended_def drained_def)

theorem end_of_queue_witness:
  "pcs over_state 1 = Returned (Popped None) \<and> m_closed (que over_state) \<and> m_items (que over_state) = []"
proof -
  have w: "pcs over_state 1 = Returned (Popped None)" by (simp add: sample_defs)
  with end_of_queue [OF run_over w] show ?thesis by simp
qed

section \<open>The sink\<close>

text \<open>C6: when the consumer of a \<open>QueueSink\<close> has left its loop, the queue is closed and empty, every
  tick that was accepted was taken by the loop, in order, or is counted as dropped, and unless some
  \<open>start\<close> was given an empty handler the handler ran on every tick taken.\<close>

theorem sink_drains:
  assumes "0 < unat c" and "sink_run c s" and "consumer s = Finished"
  shows "m_closed (que (m_queue s)) \<and> m_items (que (m_queue s)) = [] \<and>
    subseq (taken s) (accepted (m_queue s)) \<and>
    dropped (que (m_queue s)) = of_nat (length (accepted (m_queue s)) - length (taken s)) \<and>
    (muted s \<or> handled s = taken s)"
proof -
  have inv: "sink_inv c s" by (rule sink_run_inv [OF assms(1,2)])
  have "muted s \<or> handled s = taken s" using inv by (auto simp: sink_inv_def ledger_def)
  with consumer_finished [OF inv assms(3)] show ?thesis by (simp add: dropped_def)
qed

theorem sink_drains_witness:
  "consumer finished_sink = Finished \<and> handled finished_sink = [sample_tick] \<and>
    dropped (que (m_queue finished_sink)) = 0 \<and> m_items (que (m_queue finished_sink)) = []"
proof -
  have w: "consumer finished_sink = Finished" by (simp add: finished_sink_eq)
  have "0 < unat (1 :: 64 word)" by simp
  from sink_drains [OF this run_finished w] show ?thesis by (simp add: finished_sink_eq)
qed

text \<open>C7: \<open>stop\<close> returns.  Once it has been called, every run of the sink's two threads without help
  from outside ends, and then the io thread is back, the queue is closed and the consumer is
  joined.\<close>

theorem stop_returns:
  assumes "0 < unat c" and "sink_run c s" and "live s" and "io s = Closing \<or> io s = Joining"
  shows "inevitably sstep s (\<lambda>s'. io s' = Ready \<and> \<not> joinable s' \<and> m_closed (que (m_queue s')) \<and>
    (consumer s' = NotStarted \<or> consumer s' = Finished))"
proof -
  have "stopping s" using assms(3,4) by (auto simp: stopping_def)
  then show ?thesis by (rule stop_run [OF sink_run_inv [OF assms(1,2)]])
qed

theorem stop_returns_witness:
  "\<exists>s'. sstep\<^sup>*\<^sup>* stopping_sink s' \<and> stuck sstep s' \<and> io s' = Ready \<and> \<not> joinable s' \<and> m_closed (que (m_queue s')) \<and>
    (consumer s' = NotStarted \<or> consumer s' = Finished)"
proof -
  have "0 < unat (1 :: 64 word)" and "live stopping_sink" and "io stopping_sink = Closing \<or> io stopping_sink = Joining"
    by (simp_all add: stopping_sink_eq live_def)
  from stop_returns [OF this(1) run_stopping this(2,3)] show ?thesis by (rule inevitably_reached) blast
qed

text \<open>C28: the sink refines the queue.  In every recorded run of a sink the trace of its queue is a trace
  of the queue machine with two threads; the operations that the io thread called on the queue are
  those that the calls into the sink stand for, in order, a \<open>push\<close> of its tick for each \<open>on_tick\<close>, and
  each has returned once the io thread is back; the consumer only calls \<open>pop\<close>, and the ticks that
  returned from it are those its loop has gone through, and at most one more in hand.\<close>

theorem sink_refines_queue:
  assumes "0 < unat c" and "sink_trace c ls es s"
  shows "traced_run 2 c (es, m_queue s) \<and> requests 0 es = concat (map asks ls) \<and>
    (io s = Ready \<longrightarrow> conversation 0 es Free = Some Free) \<and> set (requests 1 es) \<subseteq> {Take} \<and>
    popped es = taken s @ in_flight (consumer s) (pcs (m_queue s) 1) \<and> (muted s \<or> handled s = taken s)"
proof -
  have inv: "sink_inv c s" by (rule sink_run_inv [OF assms(1) sink_trace_run [OF assms(2)]])
  note agrees = sink_trace_agrees [OF assms]
  then have "conversation 0 es Free = Some (stage_of (pcs (m_queue s) 0))"
    using traced_run_linear [OF assms(1)] by (fastforce simp: linear_def)
  moreover have "stage_of (pcs (m_queue s) 0) = Free" if "io s = Ready"
    using inv that by (cases "pcs (m_queue s) 0") (auto simp: sink_inv_def roles_def)
  ultimately show ?thesis using agrees inv by (auto simp: sink_inv_def ledger_def)
qed

theorem sink_refines_queue_witness:
  "\<exists>es. sink_trace 1 [Start_call True, Tick_call sample_tick] es (sink_on_tick sample_tick (sink_start True (new_sink 1))) \<and>
    requests 0 es = [Offer sample_tick] \<and> popped es = []"
proof -
  let ?s = "sink_on_tick sample_tick (sink_start True (new_sink 1))"
  have "sink_step (Start_call True) (new_sink 1) (sink_start True (new_sink 1))"
    by (rule sink_step.start) (simp_all add: sink_sample_defs)
  moreover have "sink_step (Tick_call sample_tick) (sink_start True (new_sink 1)) ?s"
    by (rule sink_step.on_tick) (simp_all add: sink_sample_defs)
  ultimately obtain es where "sink_trace 1 ([] @ [Start_call True] @ [Tick_call sample_tick]) es ?s"
    using sink_trace.record_step [OF sink_trace.record_step [OF sink_trace.nothing]] by fastforce
  moreover have "0 < unat (1 :: 64 word)" by simp
  ultimately show ?thesis
    using sink_refines_queue [of 1 "[Start_call True, Tick_call sample_tick]" es ?s]
    by (auto simp: sink_sample_defs)
qed

text \<open>C16: a started sink catches up.  Left alone, whatever its io thread was doing, every run of it
  comes to rest with the io thread back and an empty queue: every tick accepted was taken by the
  loop, in order, or is counted as dropped, and unless some \<open>start\<close> was given an empty handler the
  handler ran on every tick taken.\<close>

theorem sink_catches_up:
  assumes "0 < unat c" and "sink_run c s" and "live s" and "consumer s \<noteq> NotStarted"
  shows "inevitably sstep s (\<lambda>s'. io s' = Ready \<and> m_items (que (m_queue s')) = [] \<and>
    subseq (taken s') (accepted (m_queue s')) \<and>
    dropped (que (m_queue s')) = of_nat (length (accepted (m_queue s')) - length (taken s')) \<and>
    (muted s' \<or> handled s' = taken s'))"
  by (rule catch_up [OF sink_run_inv [OF assms(1,2)]]) (simp add: consuming_def assms(3,4))

theorem sink_catches_up_witness:
  "\<exists>s'. sstep\<^sup>*\<^sup>* fed_sink s' \<and> stuck sstep s' \<and> m_items (que (m_queue s')) = []"
proof -
  have "live fed_sink" and "consumer fed_sink \<noteq> NotStarted" by (simp_all add: fed_sink_eq live_def)
  from sink_catches_up [OF _ run_fed this]
  have "inevitably sstep fed_sink (\<lambda>s'. m_items (que (m_queue s')) = [])"
    by (rule inevitably_mono) simp_all
  then show ?thesis by (rule inevitably_reached) blast
qed

text \<open>C23: \<open>QueueSink\<close> keeps the interface of \<open>ITickSink\<close>.  A list of calls of \<open>on_tick\<close> and
  \<open>on_feed_state\<close> can be made, and after it the queue has accepted exactly the ticks given, in order,
  and the sink shows the last state given; a sink that was stopped refuses every tick, drops it, and
  still returns and shows the state.  And whatever the consumer does meanwhile: from wherever the two
  threads have got to during the next call, spurious wake-ups on the way included, every run of them
  without another call or wake-up from outside ends, and then the io thread is back with that call's
  tick accepted, or refused if the sink was stopped, and its state shown.\<close>

theorem queue_sink_delivers:
  assumes "0 < unat c" and "sink_run c s" and "live s" and "io s = Ready"
  shows "(\<exists>s'. feed queue_deliver es s s') \<and>
    (\<forall>s'. feed queue_deliver es s s' \<longrightarrow>
       accepted (m_queue s') = accepted (m_queue s) @ (if m_closed (que (m_queue s)) then [] else ticks_of es) \<and>
       feed_state s' = last_health (feed_state s) es \<and> io s' = Ready \<and> live s') \<and>
    (\<forall>s1 e s2. feed queue_deliver es s s1 \<and> background\<^sup>*\<^sup>* (queue_call e s1) s2 \<longrightarrow>
       inevitably sstep s2 (\<lambda>s'. io s' = Ready \<and> live s' \<and>
         feed_state s' = last_health (feed_state s) (es @ [e]) \<and>
         accepted (m_queue s') = accepted (m_queue s) @
           (if m_closed (que (m_queue s)) then [] else ticks_of (es @ [e]))))"
proof -
  have ok: "publishable c s"
    using sink_run_inv [OF assms(1,2)] assms(3,4) by (simp add: publishable_def)
  then have "(\<exists>s'. feed queue_deliver es s s') \<and>
    (\<forall>s'. feed queue_deliver es s s' \<longrightarrow>
       accepted (m_queue s') = accepted (m_queue s) @ (if m_closed (que (m_queue s)) then [] else ticks_of es) \<and>
       feed_state s' = last_health (feed_state s) es \<and> io s' = Ready \<and> live s')"
    using queue_feed.feed_returns [OF ok] queue_feed.feed_seen [OF _ ok]
    by (auto simp: feed_state_def publishable_def)
  with next_call_returns [OF ok] show ?thesis by blast
qed

theorem queue_sink_delivers_witness:
  "\<exists>s'. feed queue_deliver [Price default_tick, Health Live] fed_sink s' \<and>
    accepted (m_queue s') = [sample_tick, default_tick] \<and> feed_state s' = Live"
proof -
  have "live fed_sink" and "io fed_sink = Ready"
    by (simp_all add: fed_sink_eq live_def)
  from queue_sink_delivers [OF _ run_fed this, of "[Price default_tick, Health Live]"]
  show ?thesis by (auto simp: fed_sink_eq)
qed


text \<open>C30: what a handler reads with \<open>feed_state()\<close> is never older than the tick it handles: the store
  that the relaxed load returns comes at or after the newest one before the \<open>push\<close> of every tick the
  consumer has received, and at or after every store it loaded before; while no other store followed
  the \<open>push\<close>, it is the current state.\<close>

theorem feed_state_not_stale:
  assumes "0 < unat c" and "world_run c w" and "consumer (the_sink w) = Handling x" and "loadable 1 i w"
  shows "(False, x) \<in> set (removed (m_queue (the_sink w))) \<and>
    (\<forall>k<length (removed (m_queue (the_sink w))). \<not> fst (removed (m_queue (the_sink w)) ! k) \<longrightarrow>
       marks w ! k \<le> i \<and>
       (marks w ! k = length (stores w) - 1 \<longrightarrow> fst (load_state 1 i w) = feed_state (the_sink w))) \<and>
    (\<forall>j. (1, j) \<in> set (loads w) \<longrightarrow> j \<le> i)"
proof -
  have inv: "world_inv c w" and marks: "marks_inv w" using world_run_inv [OF assms(1,2)] by simp_all
  then have "sink_inv c (the_sink w)" by (simp add: world_inv_def)
  with handling_received [OF _ assms(3)] received_known [OF inv marks assms(4)]
    loads_go_forward [OF inv assms(4)]
  show ?thesis by (simp add: feed_state_def)
qed

theorem feed_state_not_stale_witness:
  "\<exists>w. world_run 1 w \<and> the_sink w = handling_sink \<and> loadable 1 (length (stores w) - 1) w \<and>
    marks w ! 0 \<le> length (stores w) - 1"
proof -
  obtain w where w: "world_run 1 w" "the_sink w = handling_sink"
    using world_of_sink [OF run_handling] by blast
  have h: "consumer handling_sink = Handling sample_tick" "live handling_sink"
    "removed (m_queue handling_sink) = [(False, sample_tick)]"
    by (simp_all add: handling_sink_def fed_sink_eq sink_sample_defs)
  have "world_inv 1 w" using world_run_inv [of 1 w] w(1) by simp
  then have "knows w 1 \<le> knows w 0" and "length (stores w) = Suc (knows w 0)"
    by (simp_all add: world_inv_def)
  with h w(2) have load: "loadable 1 (length (stores w) - 1) w" by (simp add: loadable_def)
  have "0 < unat (1 :: 64 word)" by simp
  from feed_state_not_stale [OF this w(1) _ load] h w load show ?thesis by auto
qed

end
