(* ===== verification/Config.thy ===== *)
theory Config
  imports CharConv
begin

text \<open>
  \<open>core/Config.hpp\<close> and \<open>core/Config.cpp\<close>: the configuration read from the process environment.
  The environment is the function \<open>getenv\<close>, from names to values; an exception of type
  \<open>std::runtime_error\<close> is \<open>Inl\<close> of its message.
\<close>

section \<open>Reading variables\<close>

type_synonym env = "string \<Rightarrow> string option"

definition kSecretVariables :: "string list" where
  "kSecretVariables = [''CLIENT_SECRET'', ''POSTGRES_PASSWORD'']"

definition kDefaultPostgresPort :: "16 word" where
  "kDefaultPostgresPort = 5432"

definition read_env :: "env \<Rightarrow> string \<Rightarrow> string option" where
  "read_env getenv name =
     (case getenv name of None \<Rightarrow> None | Some v \<Rightarrow> if v = [] then None else Some v)"

definition read_env_or :: "env \<Rightarrow> string \<Rightarrow> string \<Rightarrow> string" where
  "read_env_or getenv name fallback =
     (case read_env getenv name of None \<Rightarrow> fallback | Some v \<Rightarrow> v)"

definition require :: "env \<Rightarrow> string \<Rightarrow> string list \<Rightarrow> string \<times> string list" where
  "require getenv name missing =
     (case read_env getenv name of None \<Rightarrow> ([], missing @ [name]) | Some v \<Rightarrow> (v, missing))"

text \<open>The loop of \<open>is_secret_variable\<close> over the names that must not be logged.\<close>

fun secret_loop :: "string \<Rightarrow> string list \<Rightarrow> bool" where
  "secret_loop name [] = False"
| "secret_loop name (s # ss) = (if name = s then True else secret_loop name ss)"

definition is_secret_variable :: "string \<Rightarrow> bool" where
  "is_secret_variable name = secret_loop name kSecretVariables"

section \<open>Config\<close>

record config =
  ws_host :: string
  ws_port :: string
  ws_target :: string
  client_id :: string
  client_secret :: string
  ticker_interval :: string
  pg_host :: string
  pg_port :: "16 word"
  pg_database :: string
  pg_user :: string
  pg_password :: string
  log_level :: string

definition default_config :: config where
  "default_config = \<lparr>ws_host = ''www.deribit.com'', ws_port = ''443'', ws_target = ''/ws/api/v2'',
     client_id = [], client_secret = [], ticker_interval = ''100ms'', pg_host = ''localhost'',
     pg_port = 5432, pg_database = [], pg_user = [], pg_password = [], log_level = ''info''\<rparr>"

definition postgres_conninfo :: "config \<Rightarrow> string" where
  "postgres_conninfo c =
     ''host='' @ pg_host c @ '' port='' @ show_nat (unat (pg_port c)) @ '' dbname='' @ pg_database c @
     '' user='' @ pg_user c @ '' password='' @ pg_password c"

text \<open>
  \<open>POSTGRES_HOST\<close> with its optional port: \<open>Inl\<close> is the malformed suffix.  The \<open>uint16_t\<close> overload
  of \<open>from_chars\<close> has the limit \<open>uint16_max\<close>.
\<close>

definition parse_host_spec :: "string \<Rightarrow> string + string \<times> 16 word" where
  "parse_host_spec host_spec =
     (case find_char host_spec CHR '':'' 0 of
        Some colon \<Rightarrow>
          (let port = drop (colon + 1) host_spec
           in case parse_number (from_chars_unsigned uint16_max) port of
                None \<Rightarrow> Inl port
              | Some n \<Rightarrow> if n = 0 then Inl port
                          else Inr (substr host_spec 0 colon, of_nat n))
      | None \<Rightarrow> Inr (host_spec, kDefaultPostgresPort))"

fun join_missing :: "nat \<Rightarrow> string list \<Rightarrow> string" where
  "join_missing i [] = []"
| "join_missing i (name # names) = (if i = 0 then [] else '', '') @ name @ join_missing (Suc i) names"

definition missing_message :: "string list \<Rightarrow> string" where
  "missing_message missing = ''missing required environment variable(s): '' @ join_missing 0 missing"

definition port_message :: "string \<Rightarrow> string" where
  "port_message port = ''POSTGRES_HOST has a malformed port suffix: '' @ port"

definition from_env :: "env \<Rightarrow> string + config" where
  "from_env getenv =
     (let (cid, m1) = require getenv ''CLIENT_ID'' [];
          (csec, m2) = require getenv ''CLIENT_SECRET'' m1;
          (host_spec, m3) = require getenv ''POSTGRES_HOST'' m2
      in case parse_host_spec host_spec of
           Inl port \<Rightarrow> Inl (port_message port)
         | Inr (host, port) \<Rightarrow>
             (let (db, m4) = require getenv ''POSTGRES_DATABASE'' m3;
                  (user, m5) = require getenv ''POSTGRES_USER'' m4;
                  (pw, m6) = require getenv ''POSTGRES_PASSWORD'' m5
              in if m6 \<noteq> [] then Inl (missing_message m6)
                 else Inr (default_config\<lparr>client_id := cid, client_secret := csec, pg_host := host,
                   pg_port := port, pg_database := db, pg_user := user, pg_password := pw,
                   ws_host := read_env_or getenv ''DERIBIT_WS_HOST'' (ws_host default_config),
                   ws_port := read_env_or getenv ''DERIBIT_WS_PORT'' (ws_port default_config),
                   ticker_interval :=
                     read_env_or getenv ''DERIBIT_TICKER_INTERVAL'' (ticker_interval default_config),
                   log_level := read_env_or getenv ''QUANT_LOG_LEVEL'' (log_level default_config)\<rparr>)))"

section \<open>What \<open>from_env\<close> requires\<close>

definition required_variables :: "string list" where
  "required_variables = [''CLIENT_ID'', ''CLIENT_SECRET'', ''POSTGRES_HOST'', ''POSTGRES_DATABASE'',
     ''POSTGRES_USER'', ''POSTGRES_PASSWORD'']"

definition missing_variables :: "env \<Rightarrow> string list" where
  "missing_variables getenv = filter (\<lambda>name. read_env getenv name = None) required_variables"

definition value_of :: "env \<Rightarrow> string \<Rightarrow> string" where
  "value_of getenv name = read_env_or getenv name []"

lemma require_eq:
  "require getenv name missing =
    (value_of getenv name, missing @ (if read_env getenv name = None then [name] else []))"
  by (simp add: require_def value_of_def read_env_or_def split: option.split)

lemma read_env_Some_nonempty: "read_env getenv name = Some v \<Longrightarrow> v \<noteq> []"
  by (auto simp: read_env_def split: option.splits if_splits)

lemma filter_Cons_append: "filter P (x # xs) = (if P x then [x] else []) @ filter P xs"
  by simp

text \<open>The three outcomes of \<open>from_env\<close>, in the order the code decides them.\<close>

lemma from_env_eq:
  "from_env getenv =
    (case parse_host_spec (value_of getenv ''POSTGRES_HOST'') of
       Inl port \<Rightarrow> Inl (port_message port)
     | Inr (host, port) \<Rightarrow>
         if missing_variables getenv \<noteq> [] then Inl (missing_message (missing_variables getenv))
         else Inr \<lparr>ws_host = read_env_or getenv ''DERIBIT_WS_HOST'' ''www.deribit.com'',
           ws_port = read_env_or getenv ''DERIBIT_WS_PORT'' ''443'', ws_target = ''/ws/api/v2'',
           client_id = value_of getenv ''CLIENT_ID'', client_secret = value_of getenv ''CLIENT_SECRET'',
           ticker_interval = read_env_or getenv ''DERIBIT_TICKER_INTERVAL'' ''100ms'',
           pg_host = host, pg_port = port, pg_database = value_of getenv ''POSTGRES_DATABASE'',
           pg_user = value_of getenv ''POSTGRES_USER'', pg_password = value_of getenv ''POSTGRES_PASSWORD'',
           log_level = read_env_or getenv ''QUANT_LOG_LEVEL'' ''info''\<rparr>)"
proof -
  have m: "missing_variables getenv =
    (((((([] @ (if read_env getenv ''CLIENT_ID'' = None then [''CLIENT_ID''] else [])) @
      (if read_env getenv ''CLIENT_SECRET'' = None then [''CLIENT_SECRET''] else [])) @
      (if read_env getenv ''POSTGRES_HOST'' = None then [''POSTGRES_HOST''] else [])) @
      (if read_env getenv ''POSTGRES_DATABASE'' = None then [''POSTGRES_DATABASE''] else [])) @
      (if read_env getenv ''POSTGRES_USER'' = None then [''POSTGRES_USER''] else [])) @
      (if read_env getenv ''POSTGRES_PASSWORD'' = None then [''POSTGRES_PASSWORD''] else []))"
    by (simp only: missing_variables_def required_variables_def filter_Cons_append filter.simps(1)
        append_assoc append_Nil append_Nil2)
  show ?thesis
    unfolding m
    by (simp only: from_env_def require_eq Let_def prod.case default_config_def config.simps)
qed

lemma from_env_missing: "from_env getenv = Inr c \<Longrightarrow> missing_variables getenv = []"
  by (simp add: from_env_eq split: sum.splits prod.splits if_splits)

section \<open>The host and its port\<close>

lemma parse_host_spec_plain: "CHR '':'' \<notin> set h \<Longrightarrow> parse_host_spec h = Inr (h, 5432)"
  using find_char_eq_None_iff [of h "CHR '':''"] by (simp add: parse_host_spec_def kDefaultPostgresPort_def)

lemma parse_host_spec_colon:
  assumes "CHR '':'' \<notin> set h"
  shows "parse_host_spec (h @ CHR '':'' # p) =
    (if p \<noteq> [] \<and> (\<forall>c \<in> set p. is_digit c) \<and> 0 < digits_val p \<and> digits_val p \<le> uint16_max
     then Inr (h, of_nat (digits_val p)) else Inl p)"
proof -
  have find: "find_char (h @ CHR '':'' # p) CHR '':'' 0 = Some (length h)"
    by (rule find_char_append [OF assms])
  show ?thesis
  proof (cases "parse_number (from_chars_unsigned uint16_max) p")
    case None
    then have "\<not> (p \<noteq> [] \<and> (\<forall>c \<in> set p. is_digit c) \<and> digits_val p \<le> uint16_max)"
      using parse_unsigned_iff [of uint16_max p] by auto
    with None find show ?thesis by (auto simp: parse_host_spec_def Let_def)
  next
    case (Some n)
    then have p: "p \<noteq> []" "\<forall>c \<in> set p. is_digit c" "n = digits_val p" "digits_val p \<le> uint16_max"
      by (simp_all add: parse_unsigned_iff)
    have "parse_host_spec (h @ CHR '':'' # p) = (if n = 0 then Inl p else Inr (h, of_nat n))"
      by (simp add: parse_host_spec_def find Let_def Some) (simp add: substr_def)
    with p show ?thesis by simp
  qed
qed

lemma host_spec_cases:
  obtains "CHR '':'' \<notin> set spec" | h p where "spec = h @ CHR '':'' # p" and "CHR '':'' \<notin> set h"
  using split_list_first [of "CHR '':''" spec] by blast

lemma parse_host_spec_port:
  assumes "CHR '':'' \<notin> set h" and "0 < n" and "n < 65536"
  shows "parse_host_spec (h @ CHR '':'' # show_nat n) = Inr (h, of_nat n)"
  using assms by (simp add: parse_host_spec_colon show_nat_digits uint16_max_def)

lemma parse_host_spec_port_positive:
  assumes "parse_host_spec spec = Inr (h, port)"
  shows "0 < unat port" and "CHR '':'' \<notin> set h"
proof -
  have "0 < unat port \<and> CHR '':'' \<notin> set h"
  proof (cases spec rule: host_spec_cases)
    case 1
    with assms show ?thesis by (auto simp: parse_host_spec_plain)
  next
    case (2 h' p)
    then have port: "port = of_nat (digits_val p)" "h = h'" "0 < digits_val p" "digits_val p \<le> uint16_max"
      using assms by (auto simp: parse_host_spec_colon split: if_splits)
    then have "unat port = digits_val p"
      by (simp add: uint16_max_def unat_of_nat take_bit_eq_mod)
    with port 2 show ?thesis by simp
  qed
  then show "0 < unat port" and "CHR '':'' \<notin> set h" by simp_all
qed

section \<open>Secrets stay out of the errors\<close>

lemma is_secret_variable_iff: "is_secret_variable name \<longleftrightarrow> name \<in> set kSecretVariables"
  by (auto simp: is_secret_variable_def kSecretVariables_def)

text \<open>Two environments that agree on what may be logged and on which secrets are set.\<close>

definition same_but_secrets :: "env \<Rightarrow> env \<Rightarrow> bool" where
  "same_but_secrets g g' \<longleftrightarrow> (\<forall>name. if is_secret_variable name
     then (read_env g' name = None) = (read_env g name = None) else g' name = g name)"

lemma same_but_secrets_missing:
  assumes "same_but_secrets g g'"
  shows "missing_variables g' = missing_variables g"
proof -
  have "(read_env g' name = None) = (read_env g name = None)" for name
    using assms unfolding same_but_secrets_def by (auto simp: read_env_def split: if_splits dest!: spec [of _ name])
  then show ?thesis by (simp add: missing_variables_def)
qed

lemma from_env_error_secret_free:
  assumes "same_but_secrets g g'" and "from_env g = Inl e"
  shows "from_env g' = Inl e"
proof -
  have "\<not> is_secret_variable ''POSTGRES_HOST''" by (simp add: is_secret_variable_iff kSecretVariables_def)
  then have "g' ''POSTGRES_HOST'' = g ''POSTGRES_HOST''"
    using assms(1) unfolding same_but_secrets_def by metis
  then have "value_of g' ''POSTGRES_HOST'' = value_of g ''POSTGRES_HOST''"
    by (simp add: value_of_def read_env_or_def read_env_def)
  with assms(2) same_but_secrets_missing [OF assms(1)] show ?thesis
    by (auto simp: from_env_eq split: sum.splits prod.splits if_splits)
qed

section \<open>The connection string\<close>

text \<open>libpq separates \<open>keyword=value\<close> pairs at spaces; values without one keep to their keyword.\<close>

lemma show_nat_no_space: "CHR '' '' \<notin> set (show_nat n)"
  using show_nat_digits [of "CHR '' ''" n] by (auto simp: is_digit_def)

lemma conninfo_join:
  "postgres_conninfo c = join CHR '' '' [''host='' @ pg_host c, ''port='' @ show_nat (unat (pg_port c)),
     ''dbname='' @ pg_database c, ''user='' @ pg_user c, ''password='' @ pg_password c]"
  by (simp add: postgres_conninfo_def)

lemma conninfo_words:
  assumes "CHR '' '' \<notin> set (pg_host c @ pg_database c @ pg_user c @ pg_password c)"
  shows "split (postgres_conninfo c) CHR '' '' =
    [''host='' @ pg_host c, ''port='' @ show_nat (unat (pg_port c)),
     ''dbname='' @ pg_database c, ''user='' @ pg_user c, ''password='' @ pg_password c]"
  using assms unfolding split_eq_ref conninfo_join
  by (intro split_ref_join) (auto simp: show_nat_no_space)

end
