(* ===== verification/Logging.thy ===== *)
theory Logging
  imports CharConv
begin

text \<open>
  \<open>core/Log.hpp\<close> and \<open>core/Log.cpp\<close>.  spdlog and \<open>std::hash\<close> are not part of the repository:
  \<open>spdlog::level::from_str\<close> is the parameter \<open>from_str\<close> and \<open>std::hash<std::string_view>\<close> the
  parameter \<open>hash\<close>; what spdlog keeps is the record \<open>log_state\<close>.
\<close>

section \<open>The logger\<close>

datatype level = Trace | Debug | Info | Warn | Err | Critical | Off

record logger =
  logger_name :: string
  pattern :: string
  level_of :: level

record log_state =
  initialised :: bool
  thread_pool :: "(64 word \<times> 64 word) option"
  default_logger :: "logger option"
  flush_level :: level

definition kQueueSize :: "64 word" where "kQueueSize = 8192"
definition kWorkerThreads :: "64 word" where "kWorkerThreads = 1"

text \<open>
  When \<open>main\<close> starts, \<open>init_logging\<close> has not run, and spdlog has the default logger that it installs
  itself; what that logger looks like is the library's, an argument here.
\<close>

definition boot_log_state :: "logger \<Rightarrow> log_state" where
  "boot_log_state library_logger = \<lparr>initialised = False, thread_pool = None,
     default_logger = Some library_logger, flush_level = Off\<rparr>"

definition effective_level :: "(string \<Rightarrow> level) \<Rightarrow> string \<Rightarrow> level" where
  "effective_level from_str level =
     (let parsed = from_str level in if parsed = Off \<and> level \<noteq> ''off'' then Info else parsed)"

definition init_logging :: "(string \<Rightarrow> level) \<Rightarrow> string \<Rightarrow> log_state \<Rightarrow> log_state" where
  "init_logging from_str level s =
     (if initialised s then s
      else
        s\<lparr>initialised := True,
          thread_pool := Some (kQueueSize, kWorkerThreads),
          default_logger := Some \<lparr>logger_name = ''quant'', pattern = ''%Y-%m-%dT%H:%M:%S.%f %^%l%$ [%n] %v'',
            level_of = effective_level from_str level\<rparr>,
          flush_level := Warn\<rparr>)"

definition shutdown_logging :: "log_state \<Rightarrow> log_state" where
  "shutdown_logging s = s\<lparr>default_logger := None, thread_pool := None\<rparr>"

lemma init_logging_twice:
  "init_logging f l (init_logging f' l' s) = init_logging f' l' s"
  by (simp add: init_logging_def)

lemma effective_level_Off:
  assumes "\<And>l. from_str l = Off \<longleftrightarrow> l \<notin> known"
  shows "effective_level from_str l = (if l \<in> known then from_str l else if l = ''off'' then Off else Info)"
  using assms by (simp add: effective_level_def)

section \<open>Fingerprints\<close>

text \<open>\<open>operator<<\<close> with \<open>std::hex\<close>, and with \<open>setw\<close> and \<open>setfill\<close>.\<close>

definition hex_digit :: "nat \<Rightarrow> char" where
  "hex_digit n = char_of (if n < 10 then 48 + n else 87 + n)"

fun show_hex :: "nat \<Rightarrow> string" where
  "show_hex n = (if n < 16 then [hex_digit n] else show_hex (n div 16) @ [hex_digit (n mod 16)])"

declare show_hex.simps [simp del]

definition padded :: "nat \<Rightarrow> char \<Rightarrow> string \<Rightarrow> string" where
  "padded width fill str = replicate (width - length str) fill @ str"

definition fingerprint :: "(string \<Rightarrow> 64 word) \<Rightarrow> string \<Rightarrow> string" where
  "fingerprint hash secret =
     (let hashed = hash secret
      in padded 6 CHR ''0'' (show_hex (unat (and hashed 0xFFFFFF))))"

definition hex_val :: "char \<Rightarrow> nat" where
  "hex_val c = (let n = of_char c in if n < 58 then n - 48 else n - 87)"

definition hexs_val :: "string \<Rightarrow> nat" where
  "hexs_val str = foldl (\<lambda>n c. 16 * n + hex_val c) 0 str"

lemma hex_val_digit: "n < 16 \<Longrightarrow> hex_val (hex_digit n) = n"
  by (simp add: hex_val_def hex_digit_def)

lemma hexs_val_append: "hexs_val (xs @ [c]) = 16 * hexs_val xs + hex_val c"
  by (simp add: hexs_val_def)

lemma hexs_val_show_hex [simp]: "hexs_val (show_hex n) = n"
proof (induction n rule: show_hex.induct)
  case (1 n)
  show ?case
  proof (cases "n < 16")
    case True
    then have "show_hex n = [] @ [hex_digit n]" by (simp add: show_hex.simps)
    then have "hexs_val (show_hex n) = 16 * hexs_val [] + hex_val (hex_digit n)"
      by (simp only: hexs_val_append)
    with True show ?thesis by (simp add: hex_val_digit) (simp add: hexs_val_def)
  next
    case False
    then have "hexs_val (show_hex n) = 16 * (n div 16) + n mod 16"
      using "1.IH" by (simp add: show_hex.simps [of n] hexs_val_append hex_val_digit)
    then show ?thesis by simp
  qed
qed

lemma hexs_val_zeros: "hexs_val (replicate k CHR ''0'' @ str) = hexs_val str"
proof (induction k)
  case (Suc k)
  then show ?case by (simp add: hexs_val_def hex_val_def)
qed simp

lemma hexs_val_padded: "hexs_val (padded w CHR ''0'' str) = hexs_val str"
  by (simp add: padded_def hexs_val_zeros)

lemma length_show_hex: "0 < k \<Longrightarrow> n < 16 ^ k \<Longrightarrow> length (show_hex n) \<le> k"
proof (induction k arbitrary: n)
  case (Suc k)
  show ?case
  proof (cases "n < 16")
    case True
    then show ?thesis by (simp add: show_hex.simps)
  next
    case False
    then have "0 < k" using Suc.prems by (cases k) auto
    moreover have "n div 16 < 16 ^ k" using Suc.prems by (simp add: less_mult_imp_div_less)
    ultimately have "length (show_hex (n div 16)) \<le> k" by (rule Suc.IH)
    with False show ?thesis by (simp add: show_hex.simps [of n])
  qed
qed simp

lemma show_hex_chars: "c \<in> set (show_hex n) \<Longrightarrow> \<exists>d<16. c = hex_digit d"
proof (induction n rule: show_hex.induct)
  case (1 n)
  show ?case
  proof (cases "n < 16")
    case True
    with 1 show ?thesis by (auto simp: show_hex.simps [of n])
  next
    case False
    with 1 have "c \<in> set (show_hex (n div 16)) \<or> c = hex_digit (n mod 16)"
      by (simp add: show_hex.simps [of n] disj_commute)
    moreover have "n mod 16 < 16" by simp
    ultimately show ?thesis using 1 False by blast
  qed
qed

lemma mask24: "unat (and (w :: 64 word) 0xFFFFFF) < 16 ^ 6"
proof -
  have "and w 0xFFFFFF \<le> (0xFFFFFF :: 64 word)" by (rule word_and_le1)
  then have "unat (and w 0xFFFFFF) \<le> unat (0xFFFFFF :: 64 word)" by (simp add: word_le_nat_alt)
  then show ?thesis by simp
qed

lemma fingerprint_length: "length (fingerprint hash secret) = 6"
  using length_show_hex [of 6, OF _ mask24 [of "hash secret"]]
  by (simp add: fingerprint_def padded_def Let_def)

lemma fingerprint_chars: "c \<in> set (fingerprint hash secret) \<Longrightarrow> \<exists>d<16. c = hex_digit d"
proof -
  assume c: "c \<in> set (fingerprint hash secret)"
  have "of_char CHR ''0'' = (48 :: nat)" by simp
  then have "CHR ''0'' = hex_digit 0" by (metis hex_digit_def char_of_char add_0_right zero_less_numeral)
  moreover have "c = CHR ''0'' \<or> c \<in> set (show_hex (unat (and (hash secret) 0xFFFFFF)))"
    using c by (auto simp: fingerprint_def padded_def Let_def)
  ultimately show ?thesis using show_hex_chars by (metis zero_less_numeral)
qed

lemma fingerprint_eq_iff:
  "fingerprint h a = fingerprint h b \<longleftrightarrow> and (h a) 0xFFFFFF = and (h b) 0xFFFFFF"
proof
  assume "fingerprint h a = fingerprint h b"
  then have "hexs_val (fingerprint h a) = hexs_val (fingerprint h b)" by simp
  then have "unat (and (h a) 0xFFFFFF) = unat (and (h b) 0xFFFFFF)"
    by (simp add: fingerprint_def hexs_val_padded)
  then show "and (h a) 0xFFFFFF = and (h b) 0xFFFFFF" by (simp add: word_unat_eq_iff)
qed (simp add: fingerprint_def)

end
