(* ===== verification/Gateway.thy ===== *)
theory Gateway
  imports Repository Sinks Config Logging
begin

text \<open>
  \<open>main.cpp\<close>: the registry built from the rows of the startup query, and the sequence of \<open>main\<close>
  with its exit code and what it reports on each path.  libpqxx, spdlog and the environment are
  parameters.  \<open>main\<close> reads \<open>session->reconnect_count()\<close> of a session the repository does not
  declare: the count is a parameter as well.
\<close>

section \<open>build_registry\<close>

definition kQueueCapacity :: "64 word" where "kQueueCapacity = 65536"

datatype warning = Unmappable instrument_row | No_id string

fun build_loop :: "instrument_row list \<Rightarrow> registry \<Rightarrow> nat \<Rightarrow> warning list \<Rightarrow> registry \<times> nat \<times> warning list" where
  "build_loop [] r skipped ws = (r, skipped, ws)"
| "build_loop (row # rows) r skipped ws =
     (case to_instrument_key row of
        None \<Rightarrow> build_loop rows r (skipped + 1) (ws @ [Unmappable row])
      | Some key \<Rightarrow>
          (case add r key of
             (r', None) \<Rightarrow> build_loop rows r' (skipped + 1) (ws @ [No_id (row_symbol row)])
           | (r', Some _) \<Rightarrow> build_loop rows r' skipped ws))"

record registry_report =
  total :: nat
  options :: nat
  futures :: nat
  indices :: nat
  skipped_rows :: nat

definition build_registry :: "instrument_row list \<Rightarrow> registry \<times> warning list \<times> registry_report" where
  "build_registry rows =
     (let (r, skipped, ws) = build_loop rows empty_registry 0 []
      in (r, ws, \<lparr>total = reg_size r, options = length (ids_of_kind r Option),
           futures = length (ids_of_kind r Future), indices = length (ids_of_kind r Index),
           skipped_rows = skipped\<rparr>))"

section \<open>main\<close>

datatype 'err main_event =
  Config_error string
| Starting string string
| Load_error 'err
| Row_warning warning
| Registry_built registry_report
| No_instruments
| Stopped nat "64 word"

definition main :: "logger \<Rightarrow> env \<Rightarrow> (string \<Rightarrow> level) \<Rightarrow> (string \<Rightarrow> 'err + 'conn) \<Rightarrow>
    ('conn \<Rightarrow> string \<Rightarrow> string \<Rightarrow> 'err + 'err pq_row list) \<Rightarrow> ('conn \<Rightarrow> 'err + unit) \<Rightarrow>
    nat \<Rightarrow> queue_sink \<Rightarrow> ('err main_event list \<times> int \<times> log_state) cxx" where
  "main lib getenv from_str connect exec_params commit reconnects sink =
     (case from_env getenv of
        Inl what \<Rightarrow> Defined ([Config_error what], 1, boot_log_state lib)
      | Inr config \<Rightarrow>
          (let log = init_logging from_str (log_level config) (boot_log_state lib);
               started = Starting (ws_host config) (ticker_interval config)
           in bind_cxx (load connect exec_params commit (postgres_conninfo config) ''DERIBIT'')
                (\<lambda>loaded. case loaded of
                   Inl what \<Rightarrow> Defined ([started, Load_error what], 1, shutdown_logging log)
                 | Inr rows \<Rightarrow>
                     (let (registry, ws, report) = build_registry rows;
                          events = started # map Row_warning ws @ [Registry_built report]
                      in if reg_size registry = 0
                         then Defined (events @ [No_instruments], 1, shutdown_logging log)
                         else Defined (events @ [Stopped reconnects (dropped (que (m_queue sink)))], 0, shutdown_logging log)))))"

text \<open>The sink in \<open>main\<close>, whose state is the argument \<open>sink\<close> above: started once, then stopped, then asked for its drop count.\<close>

inductive main_sink :: "queue_sink \<Rightarrow> bool" where
  started: "main_sink (sink_start True (new_sink kQueueCapacity))"
| running: "main_sink s \<Longrightarrow> sstep s s' \<Longrightarrow> main_sink s'"
| woken: "main_sink s \<Longrightarrow> live s \<Longrightarrow> pcs (m_queue s) 1 = PopWait \<Longrightarrow> main_sink (begin_call 1 PopLock s)"
| stopped: "main_sink s \<Longrightarrow> live s \<Longrightarrow> io s = Ready \<Longrightarrow> main_sink (sink_stop s)"
| asked: "main_sink s \<Longrightarrow> live s \<Longrightarrow> io s = Ready \<Longrightarrow> main_sink (sink_dropped s)"

section \<open>What the registry contains\<close>

definition mapped_keys :: "instrument_row list \<Rightarrow> instrument_key list" where
  "mapped_keys rows = List.map_filter to_instrument_key rows"

text \<open>The warning a row leads to, if it is skipped.\<close>

definition warning_of :: "instrument_row \<Rightarrow> warning option" where
  "warning_of row =
     (case to_instrument_key row of
        None \<Rightarrow> Some (Unmappable row)
      | Some key \<Rightarrow> if instrument_id_of row = 0 then Some (No_id (row_symbol row)) else None)"

lemma mapped_keys_simps:
  "mapped_keys [] = []"
  "mapped_keys (row # rows) =
     (case to_instrument_key row of None \<Rightarrow> mapped_keys rows | Some key \<Rightarrow> key # mapped_keys rows)"
  by (simp_all add: mapped_keys_def map_filter_simps split: option.split)

lemma set_mapped_keys: "key \<in> set (mapped_keys rows) \<longleftrightarrow> (\<exists>row \<in> set rows. to_instrument_key row = Some key)"
  by (induction rows) (auto simp: mapped_keys_simps split: option.split)

lemma add_all_simps: "add_all r [] = r" "add_all r (key # keys) = add_all (fst (add r key)) keys"
  by (simp_all add: add_all_def)

lemma add_zero: "key_id key = 0 \<Longrightarrow> add r key = (r, None)"
  by (simp add: add_def)

lemma add_nonzero: "key_id key \<noteq> 0 \<Longrightarrow> \<exists>i. add r key = (fst (add r key), Some i)"
  by (auto simp: add_def Let_def split: option.split)

lemma build_loop_eq:
  "build_loop rows r n ws =
    (add_all r (mapped_keys rows), n + length (List.map_filter warning_of rows),
     ws @ List.map_filter warning_of rows)"
proof (induction rows arbitrary: r n ws)
  case Nil
  then show ?case by (simp add: add_all_simps mapped_keys_simps map_filter_simps)
next
  case (Cons row rows)
  show ?case
  proof (cases "to_instrument_key row")
    case None
    with Cons.IH show ?thesis
      by (simp add: warning_of_def mapped_keys_simps map_filter_simps)
  next
    case (Some key)
    have id: "key_id key = instrument_id_of row" by (rule to_instrument_key_fields(1) [OF Some])
    show ?thesis
    proof (cases "key_id key = 0")
      case True
      with Cons.IH Some id show ?thesis
        by (simp add: warning_of_def mapped_keys_simps map_filter_simps add_all_simps add_zero)
    next
      case False
      obtain i where a: "add r key = (fst (add r key), Some i)" using add_nonzero [OF False, of r] by blast
      have "build_loop (row # rows) r n ws = build_loop rows (fst (add r key)) n ws"
        by (simp add: Some) (subst a, simp)
      with Cons.IH Some False id show ?thesis
        by (simp add: warning_of_def mapped_keys_simps map_filter_simps add_all_simps)
    qed
  qed
qed

lemma built_keys:
  assumes "build_registry rows = (r, ws, report)"
  shows "m_keys r = first_listings {} (mapped_keys rows)" and "registry_inv r"
    and "ws = List.map_filter warning_of rows" and "skipped_rows report = length ws"
    and "total report = length (m_keys r)"
    and "options report = length (filter (\<lambda>k. kind k = Option) (m_keys r))"
    and "futures report = length (filter (\<lambda>k. kind k = Future) (m_keys r))"
    and "indices report = length (filter (\<lambda>k. kind k = Index) (m_keys r))"
proof -
  let ?r = "add_all empty_registry (mapped_keys rows)"
  have "registry_inv ?r" by (rule add_all_inv [OF reg.inv_empty])
  moreover have "m_keys ?r = first_listings {} (mapped_keys rows)"
    using add_all_keys [OF reg.inv_empty, of "mapped_keys rows"] by (simp add: empty_registry_def)
  ultimately show "m_keys r = first_listings {} (mapped_keys rows)" "registry_inv r"
    "ws = List.map_filter warning_of rows" "skipped_rows report = length ws"
    "total report = length (m_keys r)"
    "options report = length (filter (\<lambda>k. kind k = Option) (m_keys r))"
    "futures report = length (filter (\<lambda>k. kind k = Future) (m_keys r))"
    "indices report = length (filter (\<lambda>k. kind k = Index) (m_keys r))"
    using assms by (auto simp: build_registry_def build_loop_eq ids_of_kind_eq reg_size_def)
qed

lemma built_kinds:
  assumes "build_registry rows = (r, ws, report)" and "key \<in> set (m_keys r)"
  shows "kind key \<in> {Option, Future, Index}" and "key_id key \<noteq> 0"
    and "\<exists>row \<in> set rows. to_instrument_key row = Some key"
proof -
  have "key \<in> set (mapped_keys rows)"
    using assms(2) built_keys(1) [OF assms(1)] first_listings_subset by fastforce
  then show ex: "\<exists>row \<in> set rows. to_instrument_key row = Some key" by (simp add: set_mapped_keys)
  then show "kind key \<in> {Option, Future, Index}" using to_instrument_key_fields(4) by blast
  show "key_id key \<noteq> 0"
    using assms(2) unfolding built_keys(1) [OF assms(1)] by (rule first_listings_id)
qed

text \<open>Rows with distinct symbols and ids, as the database guarantees, are all found by their id.\<close>

lemma first_listings_empty_iff:
  "first_listings {} keys = [] \<longleftrightarrow> (\<forall>key \<in> set keys. key_id key = 0)"
proof -
  have "first_listings seen keys = [] \<longleftrightarrow> (\<forall>key \<in> set keys. key_id key = 0 \<or> symbol key \<in> seen)" for seen
    by (induction seen keys rule: first_listings.induct) auto
  then show ?thesis by simp
qed

lemma first_listings_all:
  "distinct (map symbol keys) \<Longrightarrow> symbol ` set keys \<inter> seen = {} \<Longrightarrow> (\<And>k. k \<in> set keys \<Longrightarrow> key_id k \<noteq> 0) \<Longrightarrow>
    first_listings seen keys = keys"
  by (induction seen keys rule: first_listings.induct) auto

lemma distinct_mapped:
  assumes "distinct (map row_symbol rows)"
  shows "distinct (map symbol (mapped_keys rows))"
  using assms
proof (induction rows)
  case (Cons row rows)
  then show ?case
    using to_instrument_key_fields(2) [of row]
    by (auto simp: mapped_keys_simps set_mapped_keys split: option.split
        dest!: to_instrument_key_fields(2))
qed (simp add: mapped_keys_simps)

lemma mapped_and_warned:
  assumes "\<And>row. row \<in> set rows \<Longrightarrow> instrument_id_of row \<noteq> 0"
  shows "length (mapped_keys rows) + length (List.map_filter warning_of rows) = length rows"
  using assms
  by (induction rows) (auto simp: mapped_keys_simps map_filter_simps warning_of_def split: option.split)

text \<open>What the primary key and the unique symbol of \<open>security_master.instrument\<close> guarantee.\<close>

definition table_rows :: "instrument_row list \<Rightarrow> bool" where
  "table_rows rows \<longleftrightarrow> distinct (map row_symbol rows) \<and> distinct (map instrument_id_of rows) \<and>
     0 \<notin> instrument_id_of ` set rows"

lemma distinct_mapped_ids:
  assumes "distinct (map instrument_id_of rows)"
  shows "distinct (map key_id (mapped_keys rows))"
  using assms
proof (induction rows)
  case (Cons row rows)
  have "key_id ` set (mapped_keys rows) \<subseteq> instrument_id_of ` set rows"
    using to_instrument_key_fields(1) by (auto simp: set_mapped_keys)
  with Cons show ?case
    using to_instrument_key_fields(1) [of row]
    by (cases "to_instrument_key row") (auto simp: mapped_keys_simps)
qed (simp add: mapped_keys_simps)

lemma built_from_table:
  assumes "table_rows rows" and "build_registry rows = (r, ws, report)"
  shows "m_keys r = mapped_keys rows" and "total report + skipped_rows report = length rows"
    and "row \<in> set rows \<Longrightarrow> to_instrument_key row = Some key \<Longrightarrow>
      find_key r (instrument_id_of row) = Defined (Some key)"
proof -
  have ids: "instrument_id_of row \<noteq> 0" if "row \<in> set rows" for row
    using assms(1) that by (force simp: table_rows_def)
  have nz: "key_id k \<noteq> 0" if "k \<in> set (mapped_keys rows)" for k
    using that ids to_instrument_key_fields(1) by (fastforce simp: set_mapped_keys)
  show keys: "m_keys r = mapped_keys rows"
    unfolding built_keys(1) [OF assms(2)]
    using assms(1) nz by (intro first_listings_all) (simp_all add: table_rows_def distinct_mapped)
  show "total report + skipped_rows report = length rows"
    using keys built_keys(3-5) [OF assms(2)] mapped_and_warned [OF ids] by simp
  assume row: "row \<in> set rows" "to_instrument_key row = Some key"
  then have id: "instrument_id_of row = key_id key" using to_instrument_key_fields(1) by simp
  have "key \<in> set (m_keys r)" using row unfolding keys set_mapped_keys by blast
  moreover have "distinct (map key_id (m_keys r))"
    using assms(1) by (simp add: keys distinct_mapped_ids table_rows_def)
  ultimately have "List.find (\<lambda>k. key_id k = key_id key) (m_keys r) = Some key"
    by (intro list_find_unique)
  with id built_keys(2) [OF assms(2)]
  show "find_key r (instrument_id_of row) = Defined (Some key)" by (simp add: registry_inv_def)
qed

section \<open>The sink of \<open>main\<close>\<close>

lemma main_sink_run: "main_sink s \<Longrightarrow> sink_run kQueueCapacity s"
proof (induction rule: main_sink.induct)
  case started
  have "live (new_sink kQueueCapacity)" and "io (new_sink kQueueCapacity) = Ready"
    by (simp_all add: live_def new_sink_def initial_def)
  then have "env_step (new_sink kQueueCapacity) (sink_start True (new_sink kQueueCapacity))"
    by (rule env_step.start)
  then show ?case by (rule reachable.step [OF reachable.start, rotated]) simp
next
  case (running s s')
  then show ?case by (blast intro: reachable.step env_step.machine)
next
  case (woken s)
  then show ?case by (blast intro: reachable.step env_step.spurious_wake)
next
  case (stopped s)
  then show ?case by (blast intro: reachable.step env_step.stop)
next
  case (asked s)
  then show ?case by (blast intro: reachable.step env_step.ask_dropped)
qed

text \<open>No \<open>on_tick\<close> is called, so no thread is ever at a \<open>push\<close> and nothing is accepted.\<close>

definition no_push :: "tick qstate \<Rightarrow> bool" where
  "no_push q \<longleftrightarrow> accepted q = [] \<and> (\<forall>t x. pcs q t \<noteq> PushLock x \<and> pcs q t \<noteq> PushCrit x)"

lemma no_push_istep: "istep N q q' \<Longrightarrow> no_push q \<Longrightarrow> no_push q'"
proof (induction rule: istep.induct)
  case (lock t s p)
  then show ?case by (cases "pcs s t") (auto simp: no_push_def move_defs)
next
  case (pop_check t s)
  then show ?case
    by (cases "m_items (que s)") (auto simp: no_push_def queue_moves move_defs)
next
  case (close_notify t s)
  then show ?case by (auto simp: no_push_def goto_def wake_all_def split: pc.splits)
next
  case (stat_crit t s k)
  then show ?case by (auto simp: no_push_def move_defs)
qed (auto simp: no_push_def move_defs)

lemma no_push_goto: "no_push q \<Longrightarrow> (\<And>x. p \<noteq> PushLock x \<and> p \<noteq> PushCrit x) \<Longrightarrow> no_push (goto t p q)"
  by (auto simp: no_push_def goto_def)

lemma main_sink_no_push: "main_sink s \<Longrightarrow> no_push (m_queue s)"
proof (induction rule: main_sink.induct)
  case started
  then show ?case by (simp add: no_push_def sink_start_def new_sink_def initial_def)
next
  case (running s s')
  from running(2,1,3) show ?case
    by cases (auto simp: begin_call_def consume_handle_def sink_join_def
        intro: no_push_istep no_push_goto)
qed (auto simp: begin_call_def sink_stop_def sink_dropped_def intro!: no_push_goto)

lemma main_sink_idle:
  assumes "main_sink s"
  shows "dropped (que (m_queue s)) = 0" and "m_items (que (m_queue s)) = []" and "taken s = []"
proof -
  have "sink_inv kQueueCapacity s"
    by (rule sink_run_inv [OF _ main_sink_run [OF assms]]) (simp add: kQueueCapacity_def)
  then have h: "history (m_queue s)" and led: "ledger s" by (simp_all add: sink_inv_def thread_inv_def)
  moreover have "accepted (m_queue s) = []" using main_sink_no_push [OF assms] by (simp add: no_push_def)
  ultimately have "removed (m_queue s) = []" and items: "m_items (que (m_queue s)) = []"
    by (simp_all add: history_def)
  with h led show "dropped (que (m_queue s)) = 0" "taken s = []"
    by (simp_all add: history_def dropped_def ledger_def received_def)
  show "m_items (que (m_queue s)) = []" by (rule items)
qed

section \<open>Exit codes\<close>

text \<open>The paths of \<open>main\<close>, one by one.\<close>

abbreviation startup :: "config \<Rightarrow> 'err main_event" where
  "startup config \<equiv> Starting (ws_host config) (ticker_interval config)"

definition final_log :: "logger \<Rightarrow> (string \<Rightarrow> level) \<Rightarrow> config \<Rightarrow> log_state" where
  "final_log lib from_str config = shutdown_logging (init_logging from_str (log_level config) (boot_log_state lib))"

lemma main_config_error:
  "from_env getenv = Inl what \<Longrightarrow>
    main lib getenv from_str connect exec_params commit n sink = Defined ([Config_error what], 1, boot_log_state lib)"
  by (simp add: main_def)

lemma main_load_undefined:
  "from_env getenv = Inr config \<Longrightarrow>
    load connect exec_params commit (postgres_conninfo config) ''DERIBIT'' = Undefined \<Longrightarrow>
    main lib getenv from_str connect exec_params commit n sink = Undefined"
  by (simp add: main_def)

lemma main_load_error:
  "from_env getenv = Inr config \<Longrightarrow>
    load connect exec_params commit (postgres_conninfo config) ''DERIBIT'' = Defined (Inl what) \<Longrightarrow>
    main lib getenv from_str connect exec_params commit n sink =
      Defined ([startup config, Load_error what], 1, final_log lib from_str config)"
  by (simp add: main_def final_log_def)

lemma main_loaded:
  assumes "from_env getenv = Inr config"
    and "load connect exec_params commit (postgres_conninfo config) ''DERIBIT'' = Defined (Inr rows)"
    and "build_registry rows = (r, ws, report)"
  shows "main lib getenv from_str connect exec_params commit n sink =
    Defined (startup config # map Row_warning ws @ [Registry_built report,
      if m_keys r = [] then No_instruments else Stopped n (dropped (que (m_queue sink)))],
      if m_keys r = [] then 1 else 0, final_log lib from_str config)"
  using assms by (simp add: main_def final_log_def reg_size_def)

lemmas main_paths = main_config_error main_load_undefined main_load_error main_loaded

lemma final_log_shut:
  "initialised (final_log lib from_str config) \<and> default_logger (final_log lib from_str config) = None \<and>
    thread_pool (final_log lib from_str config) = None"
  by (simp add: final_log_def shutdown_logging_def init_logging_def boot_log_state_def)

text \<open>A run of \<open>main\<close> that is defined took one of three paths.\<close>

lemma main_cases:
  assumes "main lib getenv from_str connect exec_params commit n sink = Defined (events, code, final)"
  obtains (config_error) what where "from_env getenv = Inl what" and "events = [Config_error what]"
      and "code = 1" and "final = boot_log_state lib"
  | (load_error) config what where "from_env getenv = Inr config"
      and "load connect exec_params commit (postgres_conninfo config) ''DERIBIT'' = Defined (Inl what)"
      and "events = [startup config, Load_error what]" and "code = 1" and "final = final_log lib from_str config"
  | (loaded) config rows r ws report where "from_env getenv = Inr config"
      and "load connect exec_params commit (postgres_conninfo config) ''DERIBIT'' = Defined (Inr rows)"
      and "build_registry rows = (r, ws, report)"
      and "events = startup config # map Row_warning ws @ [Registry_built report,
        if m_keys r = [] then No_instruments else Stopped n (dropped (que (m_queue sink)))]"
      and "code = (if m_keys r = [] then 1 else 0)" and "final = final_log lib from_str config"
proof (cases "from_env getenv")
  case (Inl what)
  with assms show thesis by (intro config_error) (auto simp: main_config_error)
next
  case config: (Inr config)
  show thesis
  proof (cases "load connect exec_params commit (postgres_conninfo config) ''DERIBIT''")
    case Undefined
    with assms config show thesis by (simp add: main_load_undefined)
  next
    case l: (Defined loaded)
    show thesis
    proof (cases loaded)
      case (Inl what)
      with assms config l show thesis by (intro load_error) (auto simp: main_load_error)
    next
      case (Inr rows)
      obtain r ws report where "build_registry rows = (r, ws, report)" by (cases "build_registry rows")
      with assms config l Inr show thesis
        using main_loaded [OF config, of connect exec_params commit rows r ws report lib from_str n sink]
        by (intro loaded) auto
    qed
  qed
qed

text \<open>The exit code is 0 exactly when a configuration, the rows and an instrument were found.\<close>

lemma main_exit:
  assumes "main lib getenv from_str connect exec_params commit n sink = Defined (events, code, final)"
  shows "(code = 0 \<longleftrightarrow> (\<exists>config rows. from_env getenv = Inr config \<and>
      load connect exec_params commit (postgres_conninfo config) ''DERIBIT'' = Defined (Inr rows) \<and>
      (\<exists>key \<in> set (mapped_keys rows). key_id key \<noteq> 0))) \<and>
    (code = 0 \<or> code = 1) \<and>
    (if \<exists>what. from_env getenv = Inl what then code = 1 \<and> final = boot_log_state lib
     else initialised final \<and> default_logger final = None \<and> thread_pool final = None)"
  using assms
proof (cases rule: main_cases)
  case (loaded config rows r ws report)
  have "m_keys r \<noteq> [] \<longleftrightarrow> (\<exists>key \<in> set (mapped_keys rows). key_id key \<noteq> 0)"
    using built_keys(1) [OF loaded(3)] first_listings_empty_iff by auto
  with loaded show ?thesis by (auto simp: final_log_shut)
qed (auto simp: final_log_shut)

text \<open>\<open>main\<close> reports the end of a run exactly when it exits with 0, and then no dropped tick.\<close>

lemma main_stopped:
  assumes "main lib getenv from_str connect exec_params commit n sink = Defined (events, code, final)"
    and "main_sink sink"
  shows "code = 0 \<longleftrightarrow> Stopped n 0 \<in> set events"
  using assms(1) by (cases rule: main_cases) (auto simp: main_sink_idle(1) [OF assms(2)])

end
