(* ===== verification/Pipeline.thy ===== *)
theory Pipeline
  imports Gateway Tick_Feed Codec
begin

text \<open>
  The components put together the way \<open>main.cpp\<close> does: the registry is built from the rows of the
  table, \<open>ConsoleSink\<close> logs through it, and \<open>ConsoleSink::on_tick\<close> is the handler of the
  \<open>QueueSink\<close>, so it runs on the consumer thread, on the ticks that \<open>handled\<close> records.  The second
  section follows a ticker payload along the calls that \<open>TickerCodec.hpp\<close> describes: its
  \<open>instrument_name\<close> is looked up in the registry and the id found is given to \<open>decode_ticker\<close>.  The
  session that makes these calls is not in the repository.
\<close>

section \<open>The console behind the queue\<close>

text \<open>\<open>sink.start([&console](const Tick& tick) { console.on_tick(tick); })\<close>: what the console logs.\<close>

definition console_log :: "registry \<Rightarrow> queue_sink \<Rightarrow> console_line list \<Rightarrow> bool" where
  "console_log r s ls \<longleftrightarrow> feed (console_deliver r) (map Price (handled s)) [] ls"

lemma ticks_of_prices [simp]: "ticks_of (map Price xs) = xs"
  by (induction xs) auto

lemma console_log_lines:
  assumes "registry_inv r" and "console_log r s ls"
  shows "price_lines ls = map (price_line r) (handled s)"
  using console.feed_seen [OF assms(2) [unfolded console_log_def] assms(1)] by simp

lemma console_log_total: "registry_inv r \<Longrightarrow> \<exists>ls. console_log r s ls"
  unfolding console_log_def by (rule console.feed_returns)

text \<open>A tick for an instrument of the table is logged under that instrument's kind and symbol.\<close>

lemma price_line_of_row:
  assumes "table_rows rows" and "build_registry rows = (r, ws, report)"
    and "row \<in> set rows" and "to_instrument_key row = Some key" and "tick_id x = instrument_id_of row"
  shows "price_line r x = (to_string (kind key), row_symbol row, price x)"
proof -
  have "find_key r (tick_id x) = Defined (Some key)"
    using built_from_table(3) [OF assms(1,2,3,4)] assms(5) by simp
  moreover have "registry_inv r" by (rule built_keys(2) [OF assms(2)])
  ultimately show ?thesis
    using console_on_tick_line [of r x] to_instrument_key_fields(2) [OF assms(4)]
    by (simp add: console_on_tick_def cxx_simps)
qed

section \<open>From a payload to a line\<close>

text \<open>In the registry built from the table a symbol resolves to the id of its row, and to no other.\<close>

lemma row_symbol_resolves:
  assumes "table_rows rows" and "build_registry rows = (r, ws, report)"
    and "row \<in> set rows" and "to_instrument_key row = Some key"
  shows "by_symbol r (row_symbol row) = Some (instrument_id_of row)"
proof -
  have inv: "registry_inv r" by (rule built_keys(2) [OF assms(2)])
  note fields = to_instrument_key_fields [OF assms(4)]
  have "key \<in> set (m_keys r)" using assms built_from_table(1) [OF assms(1,2)] by (auto simp: set_mapped_keys)
  moreover have "distinct (map symbol (m_keys r))" by (rule reg.distinct_symbols [OF inv])
  ultimately have "List.find (\<lambda>k. symbol k = symbol key) (m_keys r) = Some key"
    by (intro list_find_unique)
  then show ?thesis using reg.find_symbol_spec [OF inv, of "row_symbol row"] fields(1,2) by simp
qed

lemma resolved_symbol_row:
  assumes "table_rows rows" and "build_registry rows = (r, ws, report)" and "by_symbol r name = Some i"
  obtains row key where "row \<in> set rows" and "to_instrument_key row = Some key"
    and "row_symbol row = name" and "instrument_id_of row = i"
proof -
  have inv: "registry_inv r" by (rule built_keys(2) [OF assms(2)])
  from assms(3) obtain key where "List.find (\<lambda>k. symbol k = name) (m_keys r) = Some key" and i: "key_id key = i"
    by (auto simp: reg.find_symbol_spec [OF inv])
  then have "key \<in> set (m_keys r)" and name: "symbol key = name" by (auto simp: find_Some_iff)
  then obtain row where "row \<in> set rows" "to_instrument_key row = Some key"
    using built_from_table(1) [OF assms(1,2)] by (auto simp: set_mapped_keys)
  then show thesis using that name i to_instrument_key_fields(1,2) by metis
qed

lemma decoded_tick_line:
  assumes "one_kind J" and "table_rows rows" and "build_registry rows = (r, ws, report)"
    and "row \<in> set rows" and "to_instrument_key row = Some key"
    and "decode_ticker J data (instrument_id_of row) recv = Defined (Some t)"
  obtains w p where "if_contains J data ''last_price'' = Some w" and "sends_number J w p" and "\<not> is_nan p"
    and "console_on_tick r t = Defined (to_string (kind key), row_symbol row, p)"
proof -
  from assms(6) [unfolded decode_ticker_def decode_priced_Some_iff [OF assms(1)]] obtain w p where
    w: "if_contains J data ''last_price'' = Some w" "sends_number J w p" "\<not> is_nan p"
    and t: "tick_id t = instrument_id_of row" "price t = p"
    by auto
  have "console_on_tick r t = Defined (to_string (kind key), row_symbol row, p)"
    using price_line_of_row [OF assms(2-5) t(1)] t(2)
      console_on_tick_line [OF built_keys(2) [OF assms(3)], of t] by simp
  with w show thesis by (rule that)
qed

end
