(* ===== verification/Beast_Session.thy ===== *)
theory Beast_Session
  imports CharConv Transitions
begin

text \<open>
  \<open>beast_websocket_example.cpp\<close>: the asynchronous WebSocket client the repository keeps as an
  example.  Asio and Beast are not part of the repository: what they do is to complete the one
  outstanding operation, with an error (its message) or with what the handler is given.  Each
  handler of the class is a function on the session's state that may start the next operation.
\<close>

section \<open>The session\<close>

text \<open>The operations the session starts, and their completions; \<open>'r\<close> is the type of the resolver's
  results.  A read hands over the bytes it put into the buffer.\<close>

datatype 'r operation =
  Async_resolve string string
| Async_connect 'r
| Async_handshake string string
| Async_write string
| Async_read
| Async_close

datatype 'r completion =
  Resolved "string + 'r"
| Connected "string + 16 word"
| Handshaken "string + unit"
| Written "string + nat"
| Read_done "string + string"
| Closed_done "string + unit"

datatype deadline = Unset | Seconds nat | Never

record 'r session =
  m_host :: string
  m_text :: string
  m_buffer :: string
  tcp_deadline :: deadline
  ws_options :: "string list"
  outstanding :: "'r operation option"
  cerr :: string
  cout :: string

definition newline :: string where "newline = [CHR 0x0A]"

definition new_session :: "'r session" where
  "new_session = \<lparr>m_host = [], m_text = [], m_buffer = [], tcp_deadline = Unset, ws_options = [],
     outstanding = None, cerr = [], cout = []\<rparr>"

definition fail :: "string \<Rightarrow> string \<Rightarrow> 'r session \<Rightarrow> 'r session" where
  "fail ec what s = s\<lparr>cerr := cerr s @ what @ '': '' @ ec @ newline\<rparr>"

definition begin_op :: "'r operation \<Rightarrow> 'r session \<Rightarrow> 'r session" where
  "begin_op op s = s\<lparr>outstanding := Some op\<rparr>"

definition session_run :: "string \<Rightarrow> string \<Rightarrow> string \<Rightarrow> 'r session \<Rightarrow> 'r session" where
  "session_run host port msg s =
     begin_op (Async_resolve host port) (s\<lparr>m_host := host, m_text := msg\<rparr>)"

definition on_resolve :: "string + 'r \<Rightarrow> 'r session \<Rightarrow> 'r session" where
  "on_resolve res s =
     (case res of Inl ec \<Rightarrow> fail ec ''resolve'' s
      | Inr results \<Rightarrow> begin_op (Async_connect results) (s\<lparr>tcp_deadline := Seconds 30\<rparr>))"

definition on_connect :: "string + 16 word \<Rightarrow> 'r session \<Rightarrow> 'r session" where
  "on_connect res s =
     (case res of Inl ec \<Rightarrow> fail ec ''connect'' s
      | Inr ep_port \<Rightarrow>
          (let s1 = s\<lparr>tcp_deadline := Never, ws_options := ws_options s @ [''timeout'', ''decorator''],
                      m_host := m_host s @ '':'' @ show_nat (unat ep_port)\<rparr>
           in begin_op (Async_handshake (m_host s1) ''/'') s1))"

definition on_handshake :: "string + unit \<Rightarrow> 'r session \<Rightarrow> 'r session" where
  "on_handshake res s =
     (case res of Inl ec \<Rightarrow> fail ec ''handshake'' s | Inr _ \<Rightarrow> begin_op (Async_write (m_text s)) s)"

definition on_write :: "string + nat \<Rightarrow> 'r session \<Rightarrow> 'r session" where
  "on_write res s = (case res of Inl ec \<Rightarrow> fail ec ''write'' s | Inr _ \<Rightarrow> begin_op Async_read s)"

definition on_read :: "string + string \<Rightarrow> 'r session \<Rightarrow> 'r session" where
  "on_read res s =
     (case res of Inl ec \<Rightarrow> fail ec ''read'' s
      | Inr bytes \<Rightarrow> begin_op Async_close (s\<lparr>m_buffer := m_buffer s @ bytes\<rparr>))"

definition on_close :: "string + unit \<Rightarrow> 'r session \<Rightarrow> 'r session" where
  "on_close res s =
     (case res of Inl ec \<Rightarrow> fail ec ''close'' s
      | Inr _ \<Rightarrow> s\<lparr>cout := cout s @ m_buffer s @ newline\<rparr>)"

section \<open>The io_context\<close>

text \<open>A completion belongs to the outstanding operation; its handler runs with none outstanding.\<close>

definition deliver :: "'r completion \<Rightarrow> 'r session \<Rightarrow> 'r session option" where
  "deliver c s =
     (let s1 = s\<lparr>outstanding := None\<rparr> in
      case outstanding s of
        None \<Rightarrow> None
      | Some (Async_resolve _ _) \<Rightarrow> (case c of Resolved r \<Rightarrow> Some (on_resolve r s1) | _ \<Rightarrow> None)
      | Some (Async_connect _) \<Rightarrow> (case c of Connected r \<Rightarrow> Some (on_connect r s1) | _ \<Rightarrow> None)
      | Some (Async_handshake _ _) \<Rightarrow> (case c of Handshaken r \<Rightarrow> Some (on_handshake r s1) | _ \<Rightarrow> None)
      | Some (Async_write _) \<Rightarrow> (case c of Written r \<Rightarrow> Some (on_write r s1) | _ \<Rightarrow> None)
      | Some Async_read \<Rightarrow> (case c of Read_done r \<Rightarrow> Some (on_read r s1) | _ \<Rightarrow> None)
      | Some Async_close \<Rightarrow> (case c of Closed_done r \<Rightarrow> Some (on_close r s1) | _ \<Rightarrow> None))"

definition completes :: "'r session \<Rightarrow> 'r session \<Rightarrow> bool" where
  "completes s s' \<longleftrightarrow> (\<exists>c. deliver c s = Some s')"

text \<open>\<open>ioc.run()\<close> on the completions in the order they happen.\<close>

fun io_run :: "'r completion list \<Rightarrow> 'r session \<Rightarrow> 'r session" where
  "io_run [] s = s"
| "io_run (c # cs) s = (case deliver c s of None \<Rightarrow> s | Some s' \<Rightarrow> io_run cs s')"

definition usage :: string where
  "usage = ''Usage: websocket-client-async <host> <port> <text>'' @ newline @ ''Example:'' @ newline @
     ''    websocket-client-async echo.websocket.org 80 '' @ [CHR 0x22] @ ''Hello, world!'' @ [CHR 0x22] @ newline"

definition example_main :: "string list \<Rightarrow> 'r completion list \<Rightarrow> int \<times> string \<times> string" where
  "example_main argv cs =
     (if length argv \<noteq> 4 then (1, usage, [])
      else (let s = io_run cs (session_run (argv ! 1) (argv ! 2) (argv ! 3) new_session)
            in (0, cerr s, cout s)))"

section \<open>One operation after the other\<close>

fun op_rank :: "'r operation \<Rightarrow> nat" where
  "op_rank (Async_resolve _ _) = 6"
| "op_rank (Async_connect _) = 5"
| "op_rank (Async_handshake _ _) = 4"
| "op_rank (Async_write _) = 3"
| "op_rank Async_read = 2"
| "op_rank Async_close = 1"

definition session_rank :: "'r session \<Rightarrow> nat" where
  "session_rank s = (case outstanding s of None \<Rightarrow> 0 | Some op \<Rightarrow> op_rank op)"

lemmas handler_defs = on_resolve_def on_connect_def on_handshake_def on_write_def on_read_def
  on_close_def fail_def begin_op_def

lemma deliver_rank: "deliver c s = Some s' \<Longrightarrow> session_rank s' < session_rank s"
  by (cases "outstanding s"; cases "the (outstanding s)"; cases c)
    (auto simp: deliver_def session_rank_def handler_defs Let_def split: sum.splits)

interpretation example: decreasing_steps completes "\<lambda>_. True" session_rank
  by unfold_locales (auto simp: completes_def dest: deliver_rank)

section \<open>What a run leaves behind\<close>

text \<open>How far the session has come, with the replies that brought it there.\<close>

inductive progress :: "string \<Rightarrow> string \<Rightarrow> string \<Rightarrow> 'r session \<Rightarrow> bool" for host :: string and port :: string and msg :: string where
  resolving: "outstanding s = Some (Async_resolve host port) \<Longrightarrow> m_host s = host \<Longrightarrow> m_text s = msg \<Longrightarrow>
    m_buffer s = [] \<Longrightarrow> cerr s = [] \<Longrightarrow> cout s = [] \<Longrightarrow> progress host port msg s"
| connecting: "outstanding s = Some (Async_connect res) \<Longrightarrow> m_host s = host \<Longrightarrow> m_text s = msg \<Longrightarrow>
    tcp_deadline s = Seconds 30 \<Longrightarrow> m_buffer s = [] \<Longrightarrow> cerr s = [] \<Longrightarrow> cout s = [] \<Longrightarrow> progress host port msg s"
| shaking: "outstanding s = Some (Async_handshake (m_host s) ''/'') \<Longrightarrow> m_host s = host @ '':'' @ show_nat (unat (p :: 16 word)) \<Longrightarrow>
    m_text s = msg \<Longrightarrow> tcp_deadline s = Never \<Longrightarrow> m_buffer s = [] \<Longrightarrow> cerr s = [] \<Longrightarrow> cout s = [] \<Longrightarrow>
    progress host port msg s"
| writing: "outstanding s = Some (Async_write msg) \<Longrightarrow> tcp_deadline s = Never \<Longrightarrow> m_buffer s = [] \<Longrightarrow>
    cerr s = [] \<Longrightarrow> cout s = [] \<Longrightarrow> progress host port msg s"
| reading: "outstanding s = Some Async_read \<Longrightarrow> tcp_deadline s = Never \<Longrightarrow> m_buffer s = [] \<Longrightarrow>
    cerr s = [] \<Longrightarrow> cout s = [] \<Longrightarrow> progress host port msg s"
| closing: "outstanding s = Some Async_close \<Longrightarrow> tcp_deadline s = Never \<Longrightarrow> m_buffer s = reply \<Longrightarrow>
    cerr s = [] \<Longrightarrow> cout s = [] \<Longrightarrow> progress host port msg s"
| failed: "outstanding s = None \<Longrightarrow> what \<in> {''resolve'', ''connect'', ''handshake'', ''write'', ''read'', ''close''} \<Longrightarrow>
    cerr s = what @ '': '' @ ec @ newline \<Longrightarrow> cout s = [] \<Longrightarrow> progress host port msg s"
| printed: "outstanding s = None \<Longrightarrow> cerr s = [] \<Longrightarrow> cout s = m_buffer s @ newline \<Longrightarrow> progress host port msg s"

lemma progress_start: "progress host port msg (session_run host port msg new_session)"
  by (rule resolving) (simp_all add: session_run_def begin_op_def new_session_def)

lemmas progress_fails = progress.failed [where what = "''resolve''"] progress.failed [where what = "''connect''"]
  progress.failed [where what = "''handshake''"] progress.failed [where what = "''write''"]
  progress.failed [where what = "''read''"] progress.failed [where what = "''close''"]

lemma progress_deliver: "progress host port msg s \<Longrightarrow> deliver c s = Some s' \<Longrightarrow> progress host port msg s'"
  by (cases c; erule progress.cases)
    (auto simp: deliver_def handler_defs Let_def split: sum.splits
      intro: progress.connecting progress.shaking progress.writing progress.reading progress.closing
        progress.printed progress_fails)

interpretation example_chain: inductive_invariant
  "\<lambda>s. s = session_run host port msg new_session" completes "progress host port msg" for host port msg
  by unfold_locales (auto simp: completes_def intro: progress_start progress_deliver)

lemma io_run_progress: "progress host port msg s \<Longrightarrow> progress host port msg (io_run cs s)"
  by (induction cs arbitrary: s) (auto split: option.split intro: progress_deliver)

lemma io_run_success:
  "io_run [Resolved (Inr results), Connected (Inr p), Handshaken (Inr ()), Written (Inr n), Read_done (Inr reply),
      Closed_done (Inr ())] (session_run host port msg new_session) =
    \<lparr>m_host = host @ '':'' @ show_nat (unat p), m_text = msg, m_buffer = reply, tcp_deadline = Never,
     ws_options = [''timeout'', ''decorator''], outstanding = None, cerr = [], cout = reply @ newline\<rparr>"
  by (simp add: session_run_def new_session_def deliver_def handler_defs)

section \<open>The outcome of a finished run\<close>

text \<open>
  The outcome of a run told from its completions alone: the operations come in one order, a completion
  has the name under which \<open>fail\<close> reports it, the message of its error if it failed, and for a read the
  bytes it put into the buffer.
\<close>

definition client_steps :: "string list" where
  "client_steps = [''resolve'', ''connect'', ''handshake'', ''write'', ''read'', ''close'']"

fun named :: "'r completion \<Rightarrow> string" where
  "named (Resolved _) = ''resolve''"
| "named (Connected _) = ''connect''"
| "named (Handshaken _) = ''handshake''"
| "named (Written _) = ''write''"
| "named (Read_done _) = ''read''"
| "named (Closed_done _) = ''close''"

fun failure :: "'r completion \<Rightarrow> string option" where
  "failure (Resolved (Inl ec)) = Some ec"
| "failure (Connected (Inl ec)) = Some ec"
| "failure (Handshaken (Inl ec)) = Some ec"
| "failure (Written (Inl ec)) = Some ec"
| "failure (Read_done (Inl ec)) = Some ec"
| "failure (Closed_done (Inl ec)) = Some ec"
| "failure _ = None"

fun bytes_of :: "'r completion \<Rightarrow> string" where
  "bytes_of (Read_done (Inr bytes)) = bytes"
| "bytes_of _ = []"

text \<open>The operations that are still to come, while nothing has been reported or printed.\<close>

definition due :: "string list \<Rightarrow> 'r session \<Rightarrow> bool" where
  "due ws s \<longleftrightarrow> cerr s = [] \<and> cout s = [] \<and>
     (case outstanding s of None \<Rightarrow> False | Some op \<Rightarrow> ws = drop (6 - op_rank op) client_steps)"

lemma due_start: "due client_steps (session_run host port msg new_session)"
  by (simp add: due_def session_run_def begin_op_def new_session_def)

lemma due_deliver:
  assumes "due (w # ws) s" and "deliver c s = Some s'"
  shows "named c = w"
    and "failure c = Some ec \<Longrightarrow> outstanding s' = None \<and> cerr s' = w @ '': '' @ ec @ newline \<and> cout s' = []"
    and "failure c = None \<Longrightarrow> ws \<noteq> [] \<Longrightarrow> due ws s' \<and> m_buffer s' = m_buffer s @ bytes_of c"
    and "failure c = None \<Longrightarrow> ws = [] \<Longrightarrow> outstanding s' = None \<and> cerr s' = [] \<and>
      cout s' = m_buffer s @ bytes_of c @ newline"
proof -
  obtain op where op: "outstanding s = Some op" and ws: "w # ws = drop (6 - op_rank op) client_steps"
    and quiet: "cerr s = []" "cout s = []"
    using assms(1) by (auto simp: due_def split: option.splits)
  note at = assms(2) [unfolded deliver_def op Let_def] ws quiet
  show "named c = w"
    using at by (cases op; cases c) (simp_all add: client_steps_def)
  show "failure c = Some ec \<Longrightarrow> outstanding s' = None \<and> cerr s' = w @ '': '' @ ec @ newline \<and> cout s' = []"
    using at by (cases op; cases c) (auto simp: client_steps_def handler_defs split: sum.splits)
  show "failure c = None \<Longrightarrow> ws \<noteq> [] \<Longrightarrow> due ws s' \<and> m_buffer s' = m_buffer s @ bytes_of c"
    using at by (cases op; cases c) (auto simp: client_steps_def handler_defs due_def Let_def split: sum.splits)
  show "failure c = None \<Longrightarrow> ws = [] \<Longrightarrow> outstanding s' = None \<and> cerr s' = [] \<and>
      cout s' = m_buffer s @ bytes_of c @ newline"
    using at by (cases op; cases c) (auto simp: client_steps_def handler_defs split: sum.splits)
qed

lemma io_run_over: "outstanding s = None \<Longrightarrow> io_run cs s = s"
  by (cases cs) (simp_all add: deliver_def)

lemma due_outcome:
  assumes "due ws s" and "outstanding (io_run cs s) = None"
  shows "\<exists>k. k < length ws \<and> k < length cs \<and> map named (take (Suc k) cs) = take (Suc k) ws \<and>
    (\<forall>j<k. failure (cs ! j) = None) \<and>
    ((\<exists>ec. failure (cs ! k) = Some ec \<and> cerr (io_run cs s) = named (cs ! k) @ '': '' @ ec @ newline \<and>
        cout (io_run cs s) = []) \<or>
      Suc k = length ws \<and> failure (cs ! k) = None \<and> cerr (io_run cs s) = [] \<and>
        cout (io_run cs s) = m_buffer s @ concat (map bytes_of (take (Suc k) cs)) @ newline)"
  using assms
proof (induction ws arbitrary: s cs)
  case Nil
  then obtain op :: "'a operation" where "length client_steps \<le> 6 - op_rank op" by (auto simp: due_def split: option.splits)
  then show ?case by (cases op) (simp_all add: client_steps_def)
next
  case (Cons w ws)
  then obtain op where op: "outstanding s = Some op" by (auto simp: due_def split: option.splits)
  with Cons.prems(2) obtain c cs' where cs: "cs = c # cs'" by (cases cs) auto
  with Cons.prems(2) op obtain s' where s': "deliver c s = Some s'" by (cases "deliver c s") auto
  then have run: "io_run cs s = io_run cs' s'" using cs by simp
  note d = due_deliver [OF Cons.prems(1) s']
  show ?case
  proof (cases "failure c")
    case (Some ec)
    with d show ?thesis unfolding run using cs by (intro exI [of _ 0]) (simp add: io_run_over)
  next
    case None
    show ?thesis
    proof (cases "ws = []")
      case True
      with d None show ?thesis unfolding run using cs by (intro exI [of _ 0]) (simp add: io_run_over)
    next
      case False
      with d(3) [OF None] have due: "due ws s'" and buf: "m_buffer s' = m_buffer s @ bytes_of c" by simp_all
      have "outstanding (io_run cs' s') = None" using Cons.prems(2) run by simp
      from Cons.IH [OF due this] obtain k where k: "k < length ws" "k < length cs'"
        "map named (take (Suc k) cs') = take (Suc k) ws" "\<forall>j<k. failure (cs' ! j) = None"
        "(\<exists>ec. failure (cs' ! k) = Some ec \<and> cerr (io_run cs' s') = named (cs' ! k) @ '': '' @ ec @ newline \<and>
            cout (io_run cs' s') = []) \<or>
          Suc k = length ws \<and> failure (cs' ! k) = None \<and> cerr (io_run cs' s') = [] \<and>
            cout (io_run cs' s') = m_buffer s' @ concat (map bytes_of (take (Suc k) cs')) @ newline"
        by blast
      have "\<forall>j<Suc k. failure (cs ! j) = None" using k(4) None cs by (auto simp: less_Suc_eq_0_disj)
      with k d(1) show ?thesis unfolding run buf using cs by (intro exI [of _ "Suc k"]) simp
    qed
  qed
qed

text \<open>From the first operation on.\<close>

lemma named_read: "named c = ''read'' \<Longrightarrow> failure c = None \<Longrightarrow> \<exists>reply. c = Read_done (Inr reply) \<and> bytes_of c = reply"
  by (cases c) (auto split: sum.splits, metis failure.simps(5) option.distinct(1) sum.exhaust bytes_of.simps(1))

lemma bytes_of_other: "named c \<noteq> ''read'' \<Longrightarrow> bytes_of c = []"
  by (cases c) auto

lemma six_steps:
  assumes "map named (take 6 cs) = client_steps" and "\<forall>j<6. failure (cs ! j) = None"
  shows "\<exists>reply. cs ! 4 = Read_done (Inr reply) \<and> concat (map bytes_of (take 6 cs)) = reply"
proof -
  have "length (take 6 cs) = 6" using arg_cong [OF assms(1), of length] by (simp add: client_steps_def)
  then have six: "take 6 cs = map ((!) cs) [0..<6]" by (simp add: list_eq_iff_nth_eq)
  have up: "[0..<6] = [0, 1, 2, 3, 4, 5]" by (simp add: upt_conv_Cons)
  have names: "named (cs ! 0) = ''resolve''" "named (cs ! 1) = ''connect''" "named (cs ! 2) = ''handshake''"
    "named (cs ! 3) = ''write''" "named (cs ! 4) = ''read''" "named (cs ! 5) = ''close''"
    using assms(1) unfolding six up by (simp_all add: client_steps_def)
  have "failure (cs ! 4) = None" using assms(2) by simp
  with named_read names(5) obtain reply where r: "cs ! 4 = Read_done (Inr reply)" "bytes_of (cs ! 4) = reply" by blast
  show ?thesis
    unfolding six up using r names by (simp add: bytes_of_other)
qed

lemma session_outcome:
  fixes host port msg :: string
  defines "s0 \<equiv> session_run host port msg new_session"
  assumes "outstanding (io_run cs s0) = None"
  shows "\<exists>k<6. map named (take (Suc k) cs) = take (Suc k) client_steps \<and> (\<forall>j<k. failure (cs ! j) = None) \<and>
    ((\<exists>ec. failure (cs ! k) = Some ec \<and> cerr (io_run cs s0) = named (cs ! k) @ '': '' @ ec @ newline \<and>
        cout (io_run cs s0) = []) \<or>
      k = 5 \<and> failure (cs ! 5) = None \<and> cerr (io_run cs s0) = [] \<and>
        (\<exists>reply. cs ! 4 = Read_done (Inr reply) \<and> cout (io_run cs s0) = reply @ newline))"
proof -
  have len: "length client_steps = 6" by (simp add: client_steps_def)
  have empty: "m_buffer s0 = []" by (simp add: s0_def session_run_def begin_op_def new_session_def)
  from due_outcome [OF due_start assms(2) [unfolded s0_def], folded s0_def, unfolded len empty]
  obtain k where k: "k < 6" "map named (take (Suc k) cs) = take (Suc k) client_steps" "\<forall>j<k. failure (cs ! j) = None"
    and out: "(\<exists>ec. failure (cs ! k) = Some ec \<and> cerr (io_run cs s0) = named (cs ! k) @ '': '' @ ec @ newline \<and>
        cout (io_run cs s0) = []) \<or>
      Suc k = 6 \<and> failure (cs ! k) = None \<and> cerr (io_run cs s0) = [] \<and>
        cout (io_run cs s0) = [] @ concat (map bytes_of (take (Suc k) cs)) @ newline"
    by blast
  from out show ?thesis
  proof
    assume "\<exists>ec. failure (cs ! k) = Some ec \<and> cerr (io_run cs s0) = named (cs ! k) @ '': '' @ ec @ newline \<and>
        cout (io_run cs s0) = []"
    with k show ?thesis by blast
  next
    assume last: "Suc k = 6 \<and> failure (cs ! k) = None \<and> cerr (io_run cs s0) = [] \<and>
        cout (io_run cs s0) = [] @ concat (map bytes_of (take (Suc k) cs)) @ newline"
    then have five: "k = 5" and fine: "\<forall>j<6. failure (cs ! j) = None"
      using k(3) by (auto simp: less_Suc_eq eval_nat_numeral)
    then have "map named (take 6 cs) = client_steps" using k(2) len by simp
    from six_steps [OF this fine] last five k show ?thesis by auto
  qed
qed

end
