(* ===== verification/Test_Vectors.thy ===== *)
theory Test_Vectors
  imports Identity_Properties Queue_Calls
begin

text \<open>
  The repository's own unit tests, evaluated on the model: a lemma per test of
  \<open>tests/test_model.cpp\<close>, \<open>tests/test_instrument_registry.cpp\<close>, \<open>tests/test_ticker_codec.cpp\<close> and
  \<open>tests/test_blocking_queue.cpp\<close>, with the inputs of the test and what it expects.  The tests that
  start threads are shown on a run of the machine or for every run.
\<close>

section \<open>Evaluation\<close>

lemma digits_value_simps [simp]:
  "digits_val [] = 0" "digits_val (c # cs) = digit_val c * 10 ^ length cs + digits_val cs"
proof -
  have "foldl (\<lambda>acc c. 10 * acc + digit_val c) a cs = a * 10 ^ length cs + foldl (\<lambda>acc c. 10 * acc + digit_val c) 0 cs"
    for a cs
  proof (induction cs arbitrary: a)
    case (Cons d ds)
    from Cons [of "10 * a + digit_val d"] Cons [of "digit_val d"] show ?case by (simp add: algebra_simps)
  qed simp
  from this [of "digit_val c" cs] show "digits_val (c # cs) = digit_val c * 10 ^ length cs + digits_val cs"
    by (simp add: digits_val_def)
qed (simp add: digits_val_def)

lemmas expiry_eval = parse_expiry_def month_from_name_def kMonths_def parse_number_def substr_def
  from_chars_unsigned_def is_digit_def digit_val_def ymd_ok_def last_day_def unsigned_max_def upt_conv_Cons
  nanos_at_hour_def kDeribitExpiryHourUtc_def sys_days_def days_before_year_def days_before_month_def is_leap_def

text \<open>The expiries and the strikes the tests use.\<close>

lemma expiries:
  "parse_expiry ''27JUN25'' = Some (1751011200 * 1000000000)"
  "parse_expiry ''25SEP26'' = Some (1790323200 * 1000000000)"
  "parse_expiry ''26JUN26'' = Some (1782460800 * 1000000000)"
  "parse_expiry ''4SEP26'' = Some (1788508800 * 1000000000)"
  by (simp_all add: expiry_eval)

lemma no_expiries: "parse_expiry ''32JUN25'' = None" "parse_expiry ''27XXX25'' = None" "parse_expiry ''NOTADATE'' = None"
  by (simp_all add: expiry_eval)

lemma strikes:
  "parse_number from_chars_double ''100000'' = Some (double_of_int 100000)"
  "parse_number from_chars_double ''98000'' = Some (double_of_int 98000)"
  "parse_number from_chars_double ''90000'' = Some (double_of_int 90000)"
  "parse_number from_chars_double ''100'' = Some (double_of_int 100)"
  "parse_number from_chars_double ''0'' = Some (double_of_int 0)"
  using parse_double_integer [of "''100000''"] parse_double_integer [of "''98000''"]
    parse_double_integer [of "''90000''"] parse_double_integer [of "''100''"] parse_double_integer [of "''0''"]
  by (simp_all add: is_digit_def digit_val_def)

lemma no_strike: "parse_number from_chars_double ''abc'' = None"
  by (simp add: parse_number_def from_chars_double_def strip_prefix_ci_def from_chars_decimal_def to_upper_def
      toupper_def is_digit_def)

lemma positive_strikes:
  "gt_zero (double_of_int 100000)" "gt_zero (double_of_int 98000)" "gt_zero (double_of_int 90000)"
  "gt_zero (double_of_int 100)" "\<not> gt_zero (double_of_int 0)"
  using parse_print_strike(2) [of 100000] parse_print_strike(2) [of 98000] parse_print_strike(2) [of 90000]
    parse_print_strike(2) [of 100]
  by (simp_all add: double_of_int_def round_ratio_def)

text \<open>A name of two or four parts.\<close>

lemma parse_two:
  "plain a \<Longrightarrow> str = a @ dash # t \<Longrightarrow> a \<noteq> [] \<Longrightarrow> parse_expiry t = Some e \<Longrightarrow>
    parse_symbol str = Some (default_key\<lparr>symbol := str, base_ccy := a, kind := Future, expiry := e\<rparr>)"
  unfolding parse_symbol_iff by (rule symbol_form.future)

lemma parse_four:
  "plain a \<Longrightarrow> a \<noteq> [] \<Longrightarrow> plain k \<Longrightarrow> str = a @ dash # t @ dash # k @ dash # right_text r \<Longrightarrow>
    parse_expiry t = Some e \<Longrightarrow> parse_number from_chars_double k = Some v \<Longrightarrow> gt_zero v \<Longrightarrow>
    parse_symbol str = Some (default_key\<lparr>symbol := str, base_ccy := a, kind := Option, expiry := e,
      strike := v, key_right := r\<rparr>)"
  unfolding parse_symbol_iff by (rule symbol_form.option)

lemma no_parts:
  assumes "underscore \<notin> set str" and "count_list str dash \<noteq> 1" and "count_list str dash \<noteq> 3"
  shows "parse_symbol str = None"
proof -
  have "find_char str underscore 0 = None" using assms(1) by (simp add: find_char_eq_None_iff)
  with assms(2,3) show ?thesis by (simp add: parse_symbol_def split_eq_ref length_split_ref Let_def)
qed

lemmas parts_eval = plain_def right_text_def expiries strikes positive_strikes

section \<open>tests/test_model.cpp\<close>

lemma parses_option:
  "parse_symbol ''BTC-27JUN25-100000-C'' = Some (default_key\<lparr>symbol := ''BTC-27JUN25-100000-C'',
    base_ccy := ''BTC'', kind := Option, expiry := 1751011200 * 1000000000,
    strike := double_of_int 100000, key_right := Call\<rparr>)"
  by (rule parse_four [where k = "''100000''" and t = "''27JUN25''"]) (simp_all add: parts_eval)

lemma parses_put:
  "parse_symbol ''BTC-25SEP26-98000-P'' = Some (default_key\<lparr>symbol := ''BTC-25SEP26-98000-P'',
    base_ccy := ''BTC'', kind := Option, expiry := 1790323200 * 1000000000,
    strike := double_of_int 98000, key_right := Put\<rparr>)"
  by (rule parse_four [where k = "''98000''" and t = "''25SEP26''"]) (simp_all add: parts_eval)

lemma parses_dated_future:
  "parse_symbol ''BTC-26JUN26'' = Some (default_key\<lparr>symbol := ''BTC-26JUN26'', base_ccy := ''BTC'',
    kind := Future, expiry := 1782460800 * 1000000000\<rparr>)"
  by (rule parse_two [where t = "''26JUN26''"]) (simp_all add: parts_eval)

lemma parses_single_digit_day:
  "parse_symbol ''BTC-4SEP26'' = Some (default_key\<lparr>symbol := ''BTC-4SEP26'', base_ccy := ''BTC'',
    kind := Future, expiry := 1788508800 * 1000000000\<rparr>)"
  by (rule parse_two [where t = "''4SEP26''"]) (simp_all add: parts_eval)

lemma expiry_is_eight_am_utc:
  "parse_symbol ''BTC-27JUN25'' = Some (default_key\<lparr>symbol := ''BTC-27JUN25'', base_ccy := ''BTC'',
    kind := Future, expiry := 1751011200 * 1000000000\<rparr>)"
  by (rule parse_two [where t = "''27JUN25''"]) (simp_all add: parts_eval)

lemma parses_index:
  "parse_symbol ''btc_usd'' = Some (default_key\<lparr>symbol := ''btc_usd'', base_ccy := ''BTC'', kind := Index\<rparr>)"
proof -
  have "char_of (66 :: nat) = CHR ''B''" "char_of (84 :: nat) = CHR ''T''" "char_of (67 :: nat) = CHR ''C''"
    by (rule char_of_eq, simp)+
  then show ?thesis using sample_index by (simp add: to_upper_def toupper_def)
qed

lemma recognises_perpetual_defensively:
  "parse_symbol ''BTC-PERPETUAL'' = Some (default_key\<lparr>symbol := ''BTC-PERPETUAL'', base_ccy := ''BTC'',
    kind := Perpetual\<rparr>)"
  unfolding parse_symbol_iff by (rule symbol_form.perpetual) (simp_all add: plain_def)

lemma rejects_malformed_input:
  "parse_symbol [] = None" "parse_symbol ''BTC'' = None" "parse_symbol ''BTC-NOTADATE'' = None"
  "parse_symbol ''BTC-27JUN25-100000-X'' = None" "parse_symbol ''BTC-27JUN25-abc-C'' = None"
  "parse_symbol ''BTC-27JUN25-0-C'' = None" "parse_symbol ''BTC-32JUN25-100-C'' = None"
  "parse_symbol ''BTC-27XXX25-100-C'' = None" "parse_symbol ''BTC-27JUN25-100-C-EXTRA'' = None"
  "parse_symbol ''_usd'' = None" "parse_symbol ''btc_'' = None"
proof -
  note four = parse_symbol_four [of "''BTC''"]
  show "parse_symbol [] = None" by (rule no_parts) simp_all
  show "parse_symbol ''BTC'' = None" by (rule no_parts) simp_all
  show "parse_symbol ''BTC-27JUN25-100-C-EXTRA'' = None" by (rule no_parts) simp_all
  show "parse_symbol ''BTC-NOTADATE'' = None"
    using parse_symbol_two [of "''BTC''" "''NOTADATE''"] by (simp add: plain_def no_expiries)
  show "parse_symbol ''BTC-27JUN25-100000-X'' = None"
    using four [of "''27JUN25''" "''100000''" "''X''"] by (simp add: parts_eval)
  show "parse_symbol ''BTC-27JUN25-abc-C'' = None"
    using four [of "''27JUN25''" "''abc''" "''C''"] by (simp add: parts_eval no_strike)
  show "parse_symbol ''BTC-27JUN25-0-C'' = None"
    using four [of "''27JUN25''" "''0''" "''C''"] by (simp add: parts_eval)
  show "parse_symbol ''BTC-32JUN25-100-C'' = None"
    using four [of "''32JUN25''" "''100''" "''C''"] by (simp add: parts_eval no_expiries)
  show "parse_symbol ''BTC-27XXX25-100-C'' = None"
    using four [of "''27XXX25''" "''100''" "''C''"] by (simp add: parts_eval no_expiries)
  show "parse_symbol ''_usd'' = None" "parse_symbol ''btc_'' = None"
    using parse_symbol_underscore [of "[]" "''usd''"] parse_symbol_underscore [of "''btc''" "[]"] by simp_all
qed

lemma strike_is_nan_for_non_options:
  "map_option (is_nan \<circ> strike) (parse_symbol ''BTC-26JUN26'') = Some True"
  "map_option (is_nan \<circ> strike) (parse_symbol ''btc_usd'') = Some True"
  "map_option (is_nan \<circ> strike) (parse_symbol ''BTC-PERPETUAL'') = Some True"
  by (simp_all add: parses_dated_future parses_index recognises_perpetual_defensively default_key_def kNoValue_def)

lemma an_unset_price_is_nan_not_zero:
  "is_nan (price default_tick)" "tick_id default_tick = 0" "exchange_ts default_tick = 0" "recv_ts default_tick = 0"
  by (simp_all add: default_tick_def kNoValue_def)

section \<open>tests/test_instrument_registry.cpp\<close>

definition option_row :: "instrument_id \<Rightarrow> string \<Rightarrow> string \<Rightarrow> double \<Rightarrow> instrument_row" where
  "option_row i sy t k = \<lparr>instrument_id_of = i, row_symbol = sy, instrument_type = ''option'',
     option_type = Some t, row_strike = Some k, expiration = Some (1782633600 * 1000000000)\<rparr>"

definition future_row :: "instrument_id \<Rightarrow> string \<Rightarrow> instrument_row" where
  "future_row i sy = \<lparr>instrument_id_of = i, row_symbol = sy, instrument_type = ''future'',
     option_type = None, row_strike = None, expiration = Some (1782633600 * 1000000000)\<rparr>"

definition currency_row :: "instrument_id \<Rightarrow> string \<Rightarrow> instrument_row" where
  "currency_row i sy = \<lparr>instrument_id_of = i, row_symbol = sy, instrument_type = ''currency'',
     option_type = None, row_strike = None, expiration = None\<rparr>"

lemma parses_row_options:
  "parse_symbol ''BTC-26JUN26-100000-C'' = Some (default_key\<lparr>symbol := ''BTC-26JUN26-100000-C'',
    base_ccy := ''BTC'', kind := Option, expiry := 1782460800 * 1000000000,
    strike := double_of_int 100000, key_right := Call\<rparr>)"
  "parse_symbol ''BTC-26JUN26-90000-P'' = Some (default_key\<lparr>symbol := ''BTC-26JUN26-90000-P'',
    base_ccy := ''BTC'', kind := Option, expiry := 1782460800 * 1000000000,
    strike := double_of_int 90000, key_right := Put\<rparr>)"
  by (rule parse_four [where k = "''100000''" and t = "''26JUN26''"], simp_all add: parts_eval)
    (rule parse_four [where k = "''90000''" and t = "''26JUN26''"], simp_all add: parts_eval)

lemmas rows_eval = to_instrument_key_eq option_row_def future_row_def currency_row_def reconcile_def
  db_right_def value_or_def default_key_def parses_row_options parses_dated_future parses_index

text \<open>The identities of the rows the tests register.\<close>

definition index_key :: "instrument_id \<Rightarrow> instrument_key" where
  "index_key i = default_key\<lparr>symbol := ''btc_usd'', base_ccy := ''BTC'', key_id := i, kind := Index\<rparr>"

definition future_key :: "instrument_id \<Rightarrow> instrument_key" where
  "future_key i = default_key\<lparr>symbol := ''BTC-26JUN26'', base_ccy := ''BTC'', key_id := i, kind := Future,
     expiry := 1782633600 * 1000000000\<rparr>"

definition option_key :: "instrument_id \<Rightarrow> string \<Rightarrow> int \<Rightarrow> option_right \<Rightarrow> instrument_key" where
  "option_key i sy k r = default_key\<lparr>symbol := sy, base_ccy := ''BTC'', key_id := i, kind := Option,
     expiry := 1782633600 * 1000000000, strike := double_of_int k, key_right := r\<rparr>"

lemma maps_option_row:
  "to_instrument_key (option_row i ''BTC-26JUN26-100000-C'' ''call'' (double_of_int 100000)) =
    Some (option_key i ''BTC-26JUN26-100000-C'' 100000 Call)"
  by (simp add: rows_eval option_key_def)

lemma maps_put_row:
  "to_instrument_key (option_row i ''BTC-26JUN26-90000-P'' ''put'' (double_of_int 90000)) =
    Some (option_key i ''BTC-26JUN26-90000-P'' 90000 Put)"
  by (simp add: rows_eval option_key_def)

lemma maps_future_row: "to_instrument_key (future_row i ''BTC-26JUN26'') = Some (future_key i)"
  by (simp add: rows_eval future_key_def kNoValue_def)

lemma missing_option_join_does_not_give_a_future_a_bogus_strike: "is_nan (strike (future_key i))"
  by (simp add: future_key_def default_key_def kNoValue_def)

lemma maps_currency_row_to_the_index: "to_instrument_key (currency_row i ''btc_usd'') = Some (index_key i)"
  by (simp add: rows_eval index_key_def kNoValue_def)

lemma rejects_rows_whose_type_contradicts_their_symbol:
  "to_instrument_key (future_row 202 ''BTC-26JUN26-100000-C'') = None"
  "to_instrument_key (future_row 203 ''BTC-PERPETUAL'') = None"
  "to_instrument_key ((option_row 204 ''BTC-26JUN26-100000-C'' ''call'' k)\<lparr>instrument_type := ''swaption''\<rparr>) = None"
  "to_instrument_key (option_row 205 ''BTC-26JUN26-100000-C'' ''straddle'' k) = None"
  "to_instrument_key (option_row 206 ''not-a-symbol'' ''call'' k) = None"
proof -
  have "parse_symbol ''not-a-symbol'' = None"
    by (rule no_parts) simp_all
  then show "to_instrument_key (option_row 206 ''not-a-symbol'' ''call'' k) = None" by (simp add: rows_eval)
qed (simp_all add: rows_eval recognises_perpetual_defensively)

lemma database_values_win_over_the_symbol:
  "map_option strike (to_instrument_key (option_row 107 ''BTC-26JUN26-100000-C'' ''put'' k)) = Some k"
  "map_option key_right (to_instrument_key (option_row 107 ''BTC-26JUN26-100000-C'' ''put'' k)) = Some Put"
  by (simp_all add: rows_eval)

text \<open>Registering a list of identities, and what each \<open>add\<close> answers.\<close>

fun answers :: "registry \<Rightarrow> instrument_key list \<Rightarrow> instrument_id option list" where
  "answers r [] = []"
| "answers r (key # keys) = (case add r key of (r', i) \<Rightarrow> i # answers r' keys)"

lemmas registry_eval = add_all_def add_def by_symbol_def find_key_def reg_size_def emplace_def
  empty_registry_def index_key_def future_key_def option_key_def

lemma registers_under_the_security_master_id_verbatim:
  defines "keys \<equiv> [index_key 90001, future_key 90502, option_key 97788 ''BTC-26JUN26-100000-C'' 100000 Call]"
  shows "answers empty_registry keys = [Some 90001, Some 90502, Some 97788]"
    and "reg_size (add_all empty_registry keys) = 3"
  by (simp_all add: keys_def registry_eval)

lemma resolves_sparse_ids_both_ways:
  defines "r \<equiv> add_all empty_registry [future_key 90502]"
  shows "by_symbol r ''BTC-26JUN26'' = Some 90502" and "by_symbol r ''BTC-NOTLISTED'' = None"
    and "find_key r 90502 = Defined (Some (future_key 90502))"
    and "find_key r 1 = Defined None" and "find_key r 9999 = Defined None"
  by (simp_all add: r_def registry_eval)

lemma refuses_an_instrument_with_no_security_master_id:
  assumes "parse_symbol ''BTC-26JUN26-100000-C'' = Some orphan"
  shows "key_id orphan = 0" and "add empty_registry orphan = (empty_registry, None)"
proof -
  show "key_id orphan = 0" by (rule parse_symbol_ok [OF assms])
  then show "add empty_registry orphan = (empty_registry, None)" by (simp add: add_def)
qed

lemma reregistering_a_symbol_is_idempotent:
  "answers empty_registry [future_key 1, future_key 1] = [Some 1, Some 1]"
  "reg_size (add_all empty_registry [future_key 1, future_key 1]) = 1"
  by (simp_all add: registry_eval)

lemmas channel_eval = channel_for_def kTickerChannelPrefix_def kIndexChannelPrefix_def
  index_key_def future_key_def option_key_def

lemma ticker_channels_carry_the_interval:
  "channel_for (option_key 1 ''BTC-26JUN26-100000-C'' 100000 Call) ''100ms'' = ''ticker.BTC-26JUN26-100000-C.100ms''"
  "channel_for (future_key 2) ''raw'' = ''ticker.BTC-26JUN26.raw''"
  by (simp_all add: channel_eval)

lemma index_channel_takes_no_interval_suffix:
  "channel_for (index_key 3) ''100ms'' = ''deribit_price_index.btc_usd''"
  by (simp add: channel_eval)

lemma perpetual_has_no_channel:
  "channel_for (default_key\<lparr>symbol := ''BTC-PERPETUAL'', kind := Perpetual\<rparr>) ''100ms'' = []"
  by (simp add: channel_eval)

lemma subscribes_spot_and_futures_before_options:
  "subscription_channels (add_all empty_registry [option_key 1 ''BTC-26JUN26-100000-C'' 100000 Call,
      option_key 2 ''BTC-26JUN26-90000-P'' 90000 Put, future_key 3, index_key 4]) ''100ms'' =
    [''deribit_price_index.btc_usd'', ''ticker.BTC-26JUN26.100ms'',
     ''ticker.BTC-26JUN26-100000-C.100ms'', ''ticker.BTC-26JUN26-90000-P.100ms'']"
  by (simp add: subscription_channels_def registry_eval channel_eval)

lemma routes_notifications_by_bound_channel:
  defines "r \<equiv> bind_channel (add_all empty_registry [future_key 3]) ''ticker.BTC-26JUN26.100ms'' 3"
  shows "by_channel r ''ticker.BTC-26JUN26.100ms'' = Some 3"
    and "by_channel r ''ticker.BTC-26JUN26.raw'' = None"
  by (simp_all add: r_def bind_channel_def by_channel_def registry_eval)

lemma lists_ids_by_kind:
  defines "r \<equiv> add_all empty_registry [index_key 1, future_key 2, option_key 3 ''BTC-26JUN26-100000-C'' 100000 Call]"
  shows "ids_of_kind r Index = [1]" and "ids_of_kind r Future = [2]" and "ids_of_kind r Option = [3]"
    and "ids_of_kind r Perpetual = []"
  by (simp_all add: r_def ids_of_kind_def registry_eval)

section \<open>tests/test_ticker_codec.cpp\<close>

text \<open>
  The payloads of \<open>tests/fixtures\<close>: the members that hold a scalar and that a test could confuse
  with the price; \<open>decimal n k\<close> is the double that the literal of value \<open>n / 10 ^ k\<close> denotes.
\<close>

definition decimal :: "nat \<Rightarrow> nat \<Rightarrow> double" where
  "decimal n k = round_ratio False n (10 ^ k)"

definition option_frame :: json_object where
  "option_frame = [(''timestamp'', JInt64 1787170728407), (''state'', JString ''open''),
     (''index_price'', JDouble (decimal 685535 1)), (''instrument_name'', JString ''BTC-25SEP26-98000-C''),
     (''last_price'', JDouble (decimal 1 3)), (''settlement_price'', JDouble (decimal 24948 8)),
     (''mark_price'', JDouble (decimal 9 4)), (''best_ask_price'', JDouble (decimal 1 3)),
     (''best_bid_price'', JDouble (decimal 8 4)), (''underlying_index'', JString ''BTC-25SEP26'')]"

definition future_frame :: json_object where
  "future_frame = [(''timestamp'', JInt64 1787170728407), (''state'', JString ''open''),
     (''index_price'', JDouble (decimal 685535 1)), (''instrument_name'', JString ''BTC-20AUG26''),
     (''last_price'', JDouble (decimal 685300 1)), (''open_interest'', JInt64 5624670),
     (''mark_price'', JDouble (decimal 6851211 2))]"

definition index_frame :: json_object where
  "index_frame = [(''timestamp'', JInt64 1787170728407), (''price'', JDouble (decimal 685535 1)),
     (''index_name'', JString ''btc_usd'')]"

definition erase :: "string \<Rightarrow> json_object \<Rightarrow> json_object" where
  "erase key data = filter (\<lambda>(k, v). k \<noteq> key) data"

abbreviation recv_stamp :: nanos where "recv_stamp \<equiv> 1787170730 * 1000000000"

lemma decimal_not_nan [simp]: "\<not> is_nan (decimal n k)"
  using round_ratio_not_nan [of False n "10 ^ k"] by (cases "decimal n k") (auto simp: decimal_def)

lemmas codec_eval = decode_ticker_def decode_index_def decode_priced_def timestamp_ms_def millis_of_def
  number_or_nan_def instrument_name_def string_or_empty_def sample_json_def Let_def checked_int64_def
  int64_defs cxx_simps option_frame_def future_frame_def index_frame_def erase_def kNoValue_def

abbreviation frame_tick :: "double \<Rightarrow> tick" where
  "frame_tick p \<equiv> \<lparr>tick_id = 90502, exchange_ts = 1787170728407 * 1000000, recv_ts = recv_stamp, price = p\<rparr>"

lemma takes_last_price_as_the_price_on_an_option_frame:
  "decode_ticker sample_json option_frame 90502 recv_stamp = Defined (Some (frame_tick (decimal 1 3)))"
  by (simp add: codec_eval)

lemma takes_last_price_as_the_price_on_a_future_frame:
  "decode_ticker sample_json future_frame 90502 recv_stamp = Defined (Some (frame_tick (decimal 685300 1)))"
  by (simp add: codec_eval)

lemma rejects_a_frame_with_no_last_price:
  "decode_ticker sample_json ((''last_price'', JNull) # erase ''last_price'' option_frame) 90502 recv_stamp = Defined None"
  "decode_ticker sample_json (erase ''last_price'' option_frame) 90502 recv_stamp = Defined None"
  by (simp_all add: codec_eval)

lemma rejects_payload_without_timestamp:
  "decode_ticker sample_json (erase ''timestamp'' option_frame) 90502 recv_stamp = Defined None"
  by (simp add: codec_eval)

lemma ignores_every_other_field_on_the_frame:
  "decode_ticker sample_json [(''timestamp'', JInt64 1787170728407), (''last_price'', JDouble (decimal 1 3))] 90502 recv_stamp =
    decode_ticker sample_json option_frame 90502 recv_stamp"
  unfolding decode_ticker_def by (rule decode_priced_cong) (simp_all add: sample_json_def option_frame_def)

lemma reads_instrument_name:
  "instrument_name sample_json option_frame = Some ''BTC-25SEP26-98000-C''"
  "instrument_name sample_json future_frame = Some ''BTC-20AUG26''"
  by (simp_all add: codec_eval)

lemma takes_price_from_the_index_payloads_own_field:
  "decode_index sample_json index_frame 90502 recv_stamp = Defined (Some (frame_tick (decimal 685535 1)))"
  by (simp add: codec_eval)

lemma rejects_payload_without_a_price:
  "decode_index sample_json (erase ''price'' index_frame) 90502 recv_stamp = Defined None"
  by (simp add: codec_eval)

lemma does_not_fall_back_to_last_price:
  "decode_ticker sample_json index_frame 90502 recv_stamp = Defined None"
  "decode_index sample_json option_frame 90502 recv_stamp = Defined None"
  by (simp_all add: codec_eval)

section \<open>tests/test_blocking_queue.cpp\<close>

text \<open>The outcomes of a list of pushes.\<close>

fun push_results :: "'a bqueue \<Rightarrow> 'a list \<Rightarrow> bool list cxx" where
  "push_results q [] = Defined []"
| "push_results q (x # xs) =
     bind_cxx (push q x) (\<lambda>(q', b). bind_cxx (push_results q' xs) (\<lambda>bs. Defined (b # bs)))"

lemma pushed_newest:
  assumes "0 < unat c"
  shows "\<exists>q. push_list push (new_queue c) xs = Defined q \<and> m_items q = drop (length xs - unat c) xs \<and>
    dropped q = of_nat (length xs - unat c)"
proof -
  have "queue_inv (new_queue c)" and "\<not> closed (new_queue c)"
    using assms by (simp_all add: new_queue_inv closed_def) (simp add: new_queue_def)
  from bq.push_list_newest [OF this, of xs] show ?thesis
    by (auto simp: new_queue_def capacity_of_def dropped_def)
qed

lemma honours_capacity: "\<exists>q. push_list push (new_queue 3) [0..<10] = Defined q \<and> queue_size q = 3"
  using pushed_newest [of 3 "[0..<10]"] by (auto simp: queue_size_def)

lemma overflow_drops_the_oldest:
  "\<exists>q. push_list push (new_queue 3) [0..<5] = Defined q \<and> snd (pop_list pop_body 3 q) = [2, 3, 4]"
proof -
  obtain q where "push_list push (new_queue 3) [0..<5] = Defined q" and "m_items q = drop 2 [0..<5]"
    using pushed_newest [of 3 "[0..<5]"] by auto
  moreover have "drop 2 [0..<5] = [2, 3, 4 :: nat]" by (simp add: upt_conv_Cons)
  ultimately show ?thesis by (simp add: numeral_3_eq_3 pop_body_def)
qed

lemma counts_drops:
  "push_results (new_queue 2) [1, 2, 3, 4 :: nat] = Defined [True, True, False, False]"
  "\<exists>q. push_list push (new_queue 2) [1, 2, 3, 4 :: nat] = Defined q \<and> dropped q = 2"
  using pushed_newest [of 2 "[1, 2, 3, 4]"]
  by (auto simp: push_def new_queue_def pop_front_def cxx_simps)

lemma producer_never_blocks_on_capacity:
  "\<exists>q. push_list push (new_queue 4) [0..<100000] = Defined q \<and> queue_size q = 4 \<and> 0 < dropped q"
  using pushed_newest [of 4 "[0..<100000]"] by (auto simp: queue_size_def)

lemma closed_queue_still_drains:
  "\<exists>q. push_list push (new_queue 8) [1, 2 :: nat] = Defined q \<and>
    snd (pop_list pop_body 3 (close q)) = [1, 2] \<and> pop_ready (fst (pop_list pop_body 3 (close q))) \<and>
    snd (pop_body (fst (pop_list pop_body 3 (close q)))) = None"
proof -
  obtain q where q: "push_list push (new_queue 8) [1, 2 :: nat] = Defined q" and items: "m_items q = [1, 2]"
    using pushed_newest [of 8 "[1, 2 :: nat]"] by auto
  have "m_items (close q) = 1 # [2]" and "m_closed (close q)" using items by (simp_all add: close_def)
  then show ?thesis using q by (simp add: numeral_3_eq_3 pop_body_def pop_ready_def)
qed

lemma closed_queue_rejects_further_pushes:
  "push (close (new_queue 8)) x = Defined (close (new_queue 8), False)" "queue_size (close (new_queue 8)) = 0"
  by (simp_all add: push_def close_def new_queue_def queue_size_def)

text \<open>The consumer that waits is released by a \<open>close\<close>, in every run.\<close>

lemma close_releases_a_blocked_consumer:
  assumes "0 < unat c" and "queue_run N c s" and "m_closed (que s)"
  shows "\<exists>s'. (istep N)\<^sup>*\<^sup>* s s' \<and> (\<forall>t. outside (pcs s' t))"
proof -
  have "sound_queue c s" using queue_run_inv [OF assms(1,2)] by (simp add: thread_inv_def)
  have closed: "m_closed (que s') \<and> sound_queue c s'" if "(istep N)\<^sup>*\<^sup>* s s'" for s'
    using that \<open>sound_queue c s\<close> assms(3)
    by (induction rule: rtranclp_induct) (auto intro: sound_istep closed_istep)
  from calls_complete [OF assms(1,2)] obtain s' where "(istep N)\<^sup>*\<^sup>* s s'"
    and "\<forall>t. outside (pcs s' t) \<or> pcs s' t = PopWait \<and> m_items (que s') = [] \<and> \<not> m_closed (que s')"
    by (rule inevitably_reached)
  with closed show ?thesis by blast
qed

text \<open>A consumer that waits is woken by a push and gets the item.\<close>

lemma pop_blocks_then_wakes_on_push:
  assumes "pcs s 0 = PushNotify r" and "pcs s 1 = PopWait" and "owner s = None" and "\<not> crashed s"
    and "m_items (que s) = 42 # xs"
  shows "\<exists>s'. (istep 2)\<^sup>*\<^sup>* s s' \<and> pcs s' 1 = Returned (Popped (Some 42))"
proof -
  let ?s1 = "goto 1 PopLock (goto 0 (Returned (Pushed r)) s)"
  let ?s2 = "acquire 1 PopCheck ?s1"
  have "istep 2 s ?s1" by (rule istep.notify_waiter) (use assms in simp_all)
  moreover have "istep 2 ?s1 ?s2" by (rule istep.lock) (use assms in \<open>simp_all add: goto_def\<close>)
  moreover have "istep 2 ?s2 (pop_locked 1 ?s2)" by (rule istep.pop_check) (use assms in \<open>simp_all add: move_defs\<close>)
  moreover have "pcs (pop_locked 1 ?s2) 1 = Returned (Popped (Some 42))"
    using assms(5) by (simp add: pop_locked_item [of _ 42 xs] move_defs)
  ultimately show ?thesis by (meson converse_rtranclp_into_rtranclp rtranclp.rtrancl_refl)
qed

text \<open>Nothing is delivered twice or lost without being counted, once the queue is drained.\<close>

lemma survives_concurrent_producer_and_consumer:
  assumes "0 < unat c" and "queue_run N c s" and "m_items (que s) = []" and "length (accepted s) < 2 ^ 64"
  shows "length (received s) + unat (dropped (que s)) = length (accepted s)"
proof -
  have h: "history s" using queue_run_inv [OF assms(1,2)] by (simp add: thread_inv_def)
  then have "unat (m_dropped (que s)) = length (filter fst (removed s)) mod 2 ^ 64"
    by (simp add: history_def unat_of_nat)
  moreover have "length (filter fst (removed s)) < 2 ^ 64"
    using received_count [OF h] assms(4) by linarith
  ultimately show ?thesis using received_count [OF h] assms(3) by (simp add: dropped_def)
qed

end
