(* ===== verification/Spec2Isabelle.thy ===== *)
theory Spec2Isabelle
  imports Identity_Properties Queue_Properties Pipeline Beast_Session Test_Vectors
begin

text \<open>
  A verification development for the market data gateway under \<open>src/src\<close>.

  \<^bold>\<open>The program.\<close>  At startup \<open>main.cpp\<close> reads its configuration from the environment
  (\<open>core/Config.cpp\<close>), installs the logger (\<open>core/Log.cpp\<close>), loads the instrument rows with one
  query (\<open>marketdata/InstrumentRepository.cpp\<close>), maps each row to an identity by parsing its symbol
  (\<open>marketdata/model.cpp\<close>) and reconciling it with the row, and registers the identities
  (\<open>marketdata/InstrumentRegistry.cpp\<close>), which also names the channels to subscribe to.  At run time
  a channel payload is decoded to a tick (\<open>marketdata/TickerCodec.cpp\<close>) and handed to a sink
  (\<open>marketdata/TickSink.hpp\<close>): \<open>ConsoleSink.hpp\<close> logs it, \<open>QueueSink.hpp\<close> hands it to a consumer
  thread over the bounded queue of \<open>queue/BlockingQueue.hpp\<close>.

  \<^bold>\<open>The theories.\<close>
  \<^item> \<open>Prelude\<close>: undefined behaviour as a value (\<open>cxx\<close>), 64-bit signed integers, \<open>find\<close> and \<open>substr\<close>,
    list lemmas.  \<open>Transitions\<close>: reachable states, runs that must end (\<open>inevitably\<close>), and the
    contracts of a preserved property, an inductive invariant, a refinement mapping and a measure.
  \<^item> \<open>Float64\<close>, \<open>CharConv\<close>, \<open>Calendar\<close>: what the code uses of the C++ library: binary64 with rounding
    to nearest, ties to even; \<open>std::from_chars\<close>; \<open>std::toupper\<close>; the proleptic Gregorian calendar of
    \<open>std::chrono\<close>.  \<open>CharConv\<close> also has \<open>split\<close> and \<open>parse_number\<close> of \<open>model.cpp\<close>.
  \<^item> \<open>Model\<close>: \<open>model.hpp\<close> and \<open>model.cpp\<close>: ticks, instrument identities, \<open>parse_expiry\<close>,
    \<open>parse_symbol\<close>; the grammar \<open>symbol_form\<close> of accepted names; printers for the round trips.
    \<open>Decimals\<close>: the grammar of the decimal numbers that \<open>from_chars\<close> reads, and what they spell.
  \<^item> \<open>Repository\<close>: \<open>to_instrument_key\<close>, what its comment documents (\<open>documented\<close>), the conversion of
    one record, and \<open>load\<close>.
  \<^item> \<open>Registry\<close>: the identity table and channel routing, with the interfaces \<open>identity_table\<close> and
    \<open>channel_router\<close>, interpreted on the registry as \<open>reg\<close>.
  \<^item> \<open>Codec\<close>: the decoders of \<open>TickerCodec.cpp\<close> over the operations of \<open>boost::json\<close> they use, and the
    numbers and milliseconds that a payload sends (\<open>sends_number\<close>, \<open>sends_millis\<close>).
  \<^item> \<open>Blocking_Queue\<close>: the bodies of the queue's operations, and the interface \<open>drop_oldest_queue\<close>,
    interpreted on them as \<open>bq\<close>.  \<open>Queue_Threads\<close>: any number of threads on one queue, one step per
    lock, critical section, notification or wake-up, and the invariant of every interleaving, proved
    over the cases \<open>sound_steps\<close>.  \<open>Queue_Calls\<close>: calls in progress complete, and the program order of
    each.  \<open>Queue_Linear\<close>: the sequential queue of bounded length that callers see (\<open>serve\<close>), traces of
    calls, effects and returns, and the proof that every trace of the threads is linearizable.
    \<open>Queue_Progress\<close>: how soon \<open>push\<close>, \<open>close\<close> and the observers return.
  \<^item> \<open>Sinks\<close>: \<open>ConsoleSink\<close>, and \<open>QueueSink\<close> as a machine of two threads that drives the queue
    machine.  \<open>Sink_Trace\<close>: the calls into a sink, recorded beside the trace of its queue.
    \<open>Tick_Feed\<close>: the interface of \<open>TickSink.hpp\<close> as the locale \<open>tick_sink\<close>, interpreted on
    both sinks.  \<open>Feed_Visibility\<close>: the relaxed atomic \<open>m_feed_state\<close> as the history of its stores, of
    which each thread knows a part; locking the mutex, starting and joining the consumer pass the
    knowledge on.
  \<^item> \<open>Config\<close>, \<open>Logging\<close>, \<open>Gateway\<close>: configuration, logging, \<open>build_registry\<close> and \<open>main\<close>.
    \<open>Pipeline\<close>: registry, console and queue put together as \<open>main\<close> does, and codec, registry and console
    along the calls that \<open>TickerCodec.hpp\<close> describes.
  \<^item> \<open>Beast_Session\<close>: \<open>beast_websocket_example.cpp\<close>, its handlers as functions on the session.
  \<^item> \<open>Identity_Properties\<close>, \<open>Queue_Properties\<close> and this theory: the properties C1 to C40, with
    sample inputs and runs on which their hypotheses hold.  \<open>Test_Vectors\<close>: the repository's own unit
    tests, evaluated on the model.

  \<^bold>\<open>Correspondence.\<close>  A class is a record of its members, an enum a datatype, an operation a function
  that returns the new state.  An \<open>InstrumentId\<close> is a 64-bit word, since the code only stores and
  compares it; a \<open>Nanos\<close> is an integer with an explicit overflow check where the code computes with
  it; a \<open>double\<close> is an explicit binary64 number.  \<open>std::optional\<close> is \<open>option\<close>, an exception is the left
  side of a sum, undefined behaviour is \<open>Undefined\<close>.  The hash maps are maps; \<open>m_slot_by_id\<close> holds
  positions into \<open>m_keys\<close>, and a position outside is undefined.

  \<^bold>\<open>What is shown.\<close>  Parsing accepts exactly the grammar, printing and parsing are inverse, every
  result is well formed and in range; on rows that have the columns their type asks for the row mapping
  is the documented one, and it completes the other rows from the symbol, which the documentation does
  not allow; the load is all or nothing; the registry's lookups, order and routing agree with its
  list of entries; decoding yields a tick exactly on a payload that sends a time and a price, and its undefined
  behaviour is characterised.  For the queue: it is linearizable with respect to a sequential queue that keeps
  the newest items, conserves and orders them, is touched only by the thread that has the mutex, loses
  no wake-up, every run of its calls ends with the calls completed, and a \<open>push\<close> is held up by nothing
  but the owner of the mutex.  For the sink: it asks of the queue exactly what is asked of it; every run
  during a call of \<open>on_tick\<close> ends with the call returned and the tick accepted, or refused if the sink
  was stopped; every run of the consumer left alone catches up, and \<open>stop\<close> returns with every
  tick taken that was not dropped; a handler that reads the feed's state sees none older than the tick
  it handles.  For the pipeline: what the console logs names the instrument of each tick taken, and the
  name in a payload is the name in its line.  For the process: every missing variable is named, no
  secret reaches an error message, the exit code says whether an instrument was registered, and logging
  is shut down wherever it was set up.  For the example: a finished session printed the reply it read
  or reported the operation that failed.

  \<^bold>\<open>Bounds and termination.\<close>  No definition needs fuel: \<open>split_from\<close> terminates by the distance to the
  end of the text.  Runs of the threads are bounded by the measures \<open>work\<close> and \<open>sink_work\<close>: an upper
  bound of the steps left in each call, with ten for every queued item.

  \<^bold>\<open>Parameters.\<close>  The environment, libpqxx (\<open>connect\<close>, \<open>exec_params\<close>, \<open>commit\<close>, the fields of a row),
  \<open>boost::json\<close> (\<open>json_api\<close>, of which \<open>one_kind\<close> states that a value has one kind), the logger that spdlog
  starts with, \<open>spdlog::level::from_str\<close>, \<open>std::hash\<close>, the resolver and the sockets of
  Asio and Beast.  \<open>main\<close> also reads \<open>reconnect_count()\<close> of a \<open>session\<close> that no file declares; it is a
  parameter of \<open>main\<close>.

  \<^bold>\<open>Not modelled.\<close>  The text of log lines other than those named, spdlog's own asynchronous queue,
  memory allocation failures, \<open>marketdata/WebSocket.hpp\<close>, which declares two empty classes, the transport and
  session sources that the build names and the repository does not contain (so no code decodes a
  frame, binds a channel or hands the tick to a sink; what such code would call is modelled), and the
  Python layer under \<open>py\<close>.  Two simplifications: a critical section of the queue is one step, and the
  handler of a \<open>QueueSink\<close> is one step that always returns; a handler that blocks or throws would keep
  the consumer, and with it \<open>stop\<close>, from ending.
\<close>

section \<open>Sample inputs\<close>

definition sample_env :: env where
  "sample_env = map_of [(''CLIENT_ID'', ''id''), (''CLIENT_SECRET'', ''s3cret''), (''POSTGRES_HOST'', ''db''),
     (''POSTGRES_DATABASE'', ''quant''), (''POSTGRES_USER'', ''gw''), (''POSTGRES_PASSWORD'', ''pw'')]"

definition sample_config :: config where
  "sample_config = default_config\<lparr>client_id := ''id'', client_secret := ''s3cret'', pg_host := ''db'',
     pg_database := ''quant'', pg_user := ''gw'', pg_password := ''pw''\<rparr>"

lemma sample_from_env: "from_env sample_env = Inr sample_config"
  by (simp add: from_env_def require_def read_env_def read_env_or_def sample_env_def parse_host_spec_plain
      default_config_def sample_config_def Let_def)

definition sample_field :: "string pq_field" where
  "sample_field = \<lparr>is_null = True, as_int64 = Inl ''bad'', as_string = Inl ''bad'', as_double = Inl ''bad''\<rparr>"

definition sample_record :: "string pq_row" where
  "sample_record = [sample_field\<lparr>is_null := False, as_int64 := Inr 7\<rparr>,
     sample_field\<lparr>is_null := False, as_string := Inr ''btc_usd''\<rparr>,
     sample_field\<lparr>is_null := False, as_string := Inr ''currency''\<rparr>, sample_field, sample_field, sample_field]"

lemma sample_load:
  "load (\<lambda>_. Inr ()) (\<lambda>_ _ _. Inr [sample_record]) (\<lambda>_. Inr ()) conninfo venue = Defined (Inr [sample_row])"
  by (simp add: load_def load_record_def sample_record_def sample_field_def sample_row_def Let_def)

lemma sample_table: "table_rows [sample_row]"
  by (simp add: table_rows_def sample_row_def)

definition sample_payload :: json_object where
  "sample_payload = [(''timestamp'', JInt64 1751011200123), (''instrument_name'', JString ''BTC-27JUN25''),
     (''last_price'', JUint64 68553)]"

definition sample_logger :: logger where
  "sample_logger = \<lparr>logger_name = [], pattern = ''%+'', level_of = Info\<rparr>"

section \<open>Configuration\<close>

text \<open>C17: \<open>from_env\<close> fails on a malformed port first, then on unset variables, naming every one of
  them in the order they are read; it succeeds exactly when neither applies.\<close>

theorem config_outcomes:
  "((\<exists>c. from_env g = Inr c) \<longleftrightarrow>
      missing_variables g = [] \<and> (\<exists>h. parse_host_spec (value_of g ''POSTGRES_HOST'') = Inr h)) \<and>
   (parse_host_spec (value_of g ''POSTGRES_HOST'') = Inl p \<longrightarrow> from_env g = Inl (port_message p)) \<and>
   (parse_host_spec (value_of g ''POSTGRES_HOST'') = Inr h \<and> missing_variables g \<noteq> [] \<longrightarrow>
      from_env g = Inl (missing_message (missing_variables g)))"
  by (auto simp: from_env_eq split: sum.splits prod.splits)

theorem config_outcomes_witness:
  "from_env (\<lambda>_. None) = Inl (missing_message required_variables)"
proof -
  have "missing_variables (\<lambda>_. None) = required_variables"
    by (simp add: missing_variables_def read_env_def required_variables_def)
  moreover have "parse_host_spec (value_of (\<lambda>_. None) ''POSTGRES_HOST'') = Inr ([], 5432)"
    by (simp add: value_of_def read_env_or_def read_env_def parse_host_spec_plain)
  moreover have "required_variables \<noteq> []" by (simp add: required_variables_def)
  ultimately show ?thesis using config_outcomes [of "\<lambda>_. None"] by metis
qed

text \<open>C18: no secret reaches an error message: environments that differ only in the values of
  \<open>CLIENT_SECRET\<close> and \<open>POSTGRES_PASSWORD\<close> produce the same error.\<close>

theorem config_secret_free:
  assumes "same_but_secrets g g'" and "from_env g = Inl e"
  shows "from_env g' = Inl e"
  by (rule from_env_error_secret_free [OF assms])

theorem config_secret_free_witness:
  "from_env ((\<lambda>_. None)(''CLIENT_SECRET'' := Some ''a'')) = from_env ((\<lambda>_. None)(''CLIENT_SECRET'' := Some ''b''))"
proof -
  let ?g = "\<lambda>v. (\<lambda>_. None)(''CLIENT_SECRET'' := Some v) :: env"
  have same: "same_but_secrets (?g ''a'') (?g ''b'')"
    by (simp add: same_but_secrets_def is_secret_variable_iff kSecretVariables_def read_env_def)
  have "''CLIENT_ID'' \<in> set (missing_variables (?g ''a''))"
    by (simp add: missing_variables_def required_variables_def read_env_def)
  then have "missing_variables (?g ''a'') \<noteq> []" by auto
  then obtain e where "from_env (?g ''a'') = Inl e"
    using from_env_missing [of "?g ''a''"] by (cases "from_env (?g ''a'')") auto
  with config_secret_free [OF same this] show ?thesis by simp
qed

text \<open>C34: the connection string consists of the five settings as separate words, provided that no
  value contains a space.\<close>

theorem conninfo_five_words:
  assumes "CHR '' '' \<notin> set (pg_host c @ pg_database c @ pg_user c @ pg_password c)"
  shows "split (postgres_conninfo c) CHR '' '' =
    [''host='' @ pg_host c, ''port='' @ show_nat (unat (pg_port c)),
     ''dbname='' @ pg_database c, ''user='' @ pg_user c, ''password='' @ pg_password c]"
  by (rule conninfo_words [OF assms])

theorem conninfo_five_words_witness:
  "split (postgres_conninfo sample_config) CHR '' '' =
    [''host=db'', ''port=5432'', ''dbname=quant'', ''user=gw'', ''password=pw'']"
  using conninfo_five_words [of sample_config]
  by (simp add: sample_config_def default_config_def show_nat.simps char_of_digits)

text \<open>C35: a host with a port suffix is split into the host and the port, for every port from 1 to
  65535.\<close>

theorem host_and_port:
  assumes "CHR '':'' \<notin> set h" and "0 < n" and "n < 65536"
  shows "parse_host_spec (h @ CHR '':'' # show_nat n) = Inr (h, of_nat n)"
  by (rule parse_host_spec_port [OF assms])

theorem host_and_port_witness: "parse_host_spec ''db:5433'' = Inr (''db'', 5433)"
  using host_and_port [of "''db''" 5433] by (simp add: show_nat.simps char_of_digits)

text \<open>C37: a fingerprint has six characters, and two secrets share it exactly when the low 24 bits of
  their hashes agree: it reveals nothing but those bits.\<close>

theorem fingerprint_sound:
  "length (fingerprint hash a) = 6 \<and>
    (fingerprint hash a = fingerprint hash b \<longleftrightarrow> and (hash a) 0xFFFFFF = and (hash b) 0xFFFFFF)"
  by (simp add: fingerprint_length fingerprint_eq_iff)

section \<open>The gateway\<close>

text \<open>C4: the registry that \<open>build_registry\<close> makes of the rows of the table resolves the id of every
  mappable row to that row's identity, and every row is either registered or counted as skipped,
  with one warning.\<close>

theorem registry_from_rows:
  assumes "table_rows rows" and "build_registry rows = (r, ws, report)"
    and "row \<in> set rows" and "to_instrument_key row = Some key"
  shows "find_key r (instrument_id_of row) = Defined (Some key) \<and>
    total report + skipped_rows report = length rows \<and> skipped_rows report = length ws"
  using built_from_table [OF assms(1,2)] built_keys(4) [OF assms(2)] assms(3,4) by blast

theorem registry_from_rows_witness:
  "find_key (fst (build_registry [sample_row])) 7 = Defined (Some sample_key) \<and>
    total (snd (snd (build_registry [sample_row]))) + skipped_rows (snd (snd (build_registry [sample_row]))) = 1"
proof -
  obtain r ws report where b: "build_registry [sample_row] = (r, ws, report)"
    by (cases "build_registry [sample_row]")
  show ?thesis
    using registry_from_rows [OF sample_table b _ sample_mapped] b by (simp add: sample_row_def)
qed

text \<open>C9: the pipeline of \<open>main\<close>.  The registry is built from the rows of the table and \<open>ConsoleSink\<close>
  logs the ticks that the consumer of the \<open>QueueSink\<close> handles.  Once the consumer has left its loop,
  the lines logged are those of the ticks it took, in order; they are a subsequence of the lines of
  all ticks accepted, all of them if no more were accepted than the queue holds, and \<open>dropped\<close> counts
  the missing ones; and the line of a tick for an instrument of the table names that instrument's kind
  and symbol, never \<open>?\<close>.\<close>

theorem pipeline_logs_ticks:
  assumes "table_rows rows" and "build_registry rows = (r, ws, report)"
    and "0 < unat c" and "sink_run c s" and "consumer s = Finished" and "\<not> muted s"
    and "console_log r s ls"
  shows "price_lines ls = map (price_line r) (taken s) \<and>
    subseq (price_lines ls) (map (price_line r) (accepted (m_queue s))) \<and>
    (length (accepted (m_queue s)) \<le> unat c \<longrightarrow>
       price_lines ls = map (price_line r) (accepted (m_queue s))) \<and>
    dropped (que (m_queue s)) = of_nat (length (accepted (m_queue s)) - length (price_lines ls)) \<and>
    (\<forall>row\<in>set rows. \<forall>key x. to_instrument_key row = Some key \<and> tick_id x = instrument_id_of row \<longrightarrow>
       price_line r x = (to_string (kind key), row_symbol row, price x))"
proof -
  have inv: "sink_inv c s" by (rule sink_run_inv [OF assms(3,4)])
  have "handled s = taken s" using inv assms(6) by (simp add: sink_inv_def ledger_def)
  then have lines: "price_lines ls = map (price_line r) (taken s)"
    using console_log_lines [OF built_keys(2) [OF assms(2)] assms(7)] by simp
  moreover have "subseq (price_lines ls) (map (price_line r) (accepted (m_queue s)))"
    unfolding lines by (rule subseq_map [OF consumer_finished(3) [OF inv assms(5)]])
  ultimately show ?thesis
    using consumer_finished(4,5) [OF inv assms(5)] price_line_of_row [OF assms(1,2)]
      finished_within_capacity [OF assms(3-5)]
    by (simp add: dropped_def)
qed

theorem pipeline_logs_ticks_witness:
  "\<exists>ls. console_log (fst (build_registry [sample_row])) finished_sink ls \<and>
    price_lines ls = [(''index'', ''btc_usd'', double_of_int 68553)] \<and>
    dropped (que (m_queue finished_sink)) = 0"
proof -
  obtain r ws report where b: "build_registry [sample_row] = (r, ws, report)"
    by (cases "build_registry [sample_row]")
  obtain ls where ls: "console_log r finished_sink ls"
    using console_log_total [OF built_keys(2) [OF b]] by blast
  have f: "consumer finished_sink = Finished" "\<not> muted finished_sink" by (simp_all add: finished_sink_eq)
  have c: "0 < unat (1 :: 64 word)" by simp
  note p = pipeline_logs_ticks [OF sample_table b c run_finished f ls]
  have "price_line r sample_tick = (''index'', ''btc_usd'', double_of_int 68553)"
    using p sample_mapped by (auto simp: sample_row_def sample_key_def sample_tick_def)
  with p ls b show ?thesis by (auto simp: finished_sink_eq dropped_def)
qed

text \<open>C24: from a payload to the line.  In the registry built from the table every mappable row's symbol
  resolves to its id; and when the instrument name of a ticker payload resolves to an id, a tick
  decoded from the payload with that id is logged under the kind and the symbol of a row of the table,
  whose symbol is the name in the payload, with the number that the payload sends as last price.\<close>

theorem payload_to_line:
  assumes "one_kind J" and "table_rows rows" and "build_registry rows = (r, ws, report)"
    and "instrument_name J data = Some name"
  shows "(\<forall>row\<in>set rows. \<forall>key. to_instrument_key row = Some key \<longrightarrow>
      by_symbol r (row_symbol row) = Some (instrument_id_of row)) \<and>
    (\<forall>i t. by_symbol r name = Some i \<and> decode_ticker J data i recv = Defined (Some t) \<longrightarrow>
      (\<exists>row\<in>set rows. \<exists>key v w p. to_instrument_key row = Some key \<and> instrument_id_of row = i \<and>
        if_contains J data ''instrument_name'' = Some v \<and> if_string J v = Some (row_symbol row) \<and>
        if_contains J data ''last_price'' = Some w \<and> sends_number J w p \<and> \<not> is_nan p \<and>
        console_on_tick r t = Defined (to_string (kind key), row_symbol row, p)))"
proof (intro conjI ballI allI impI)
  fix row key
  show "row \<in> set rows \<Longrightarrow> to_instrument_key row = Some key \<Longrightarrow>
      by_symbol r (row_symbol row) = Some (instrument_id_of row)"
    by (rule row_symbol_resolves [OF assms(2,3)])
next
  fix i t assume found: "by_symbol r name = Some i \<and> decode_ticker J data i recv = Defined (Some t)"
  then obtain row key where row: "row \<in> set rows" "to_instrument_key row = Some key"
      "row_symbol row = name" "instrument_id_of row = i"
    using resolved_symbol_row [OF assms(2,3)] by blast
  obtain v where v: "if_contains J data ''instrument_name'' = Some v" "if_string J v = Some name"
    using assms(4) by (auto simp: instrument_name_iff)
  obtain w p where "if_contains J data ''last_price'' = Some w" "sends_number J w p" "\<not> is_nan p"
      "console_on_tick r t = Defined (to_string (kind key), row_symbol row, p)"
    using decoded_tick_line [OF assms(1-3) row(1,2), of data recv t] found row(4) by blast
  with row v show "\<exists>row\<in>set rows. \<exists>key v w p. to_instrument_key row = Some key \<and> instrument_id_of row = i \<and>
        if_contains J data ''instrument_name'' = Some v \<and> if_string J v = Some (row_symbol row) \<and>
        if_contains J data ''last_price'' = Some w \<and> sends_number J w p \<and> \<not> is_nan p \<and>
        console_on_tick r t = Defined (to_string (kind key), row_symbol row, p)" by blast
qed

theorem payload_to_line_witness:
  "\<exists>t. decode_ticker sample_json sample_payload 8 0 = Defined (Some t) \<and>
    console_on_tick (fst (build_registry [bare_future])) t =
      Defined (''future'', ''BTC-27JUN25'', double_of_int 68553)"
proof -
  obtain r ws report where b: "build_registry [bare_future] = (r, ws, report)"
    by (cases "build_registry [bare_future]")
  have table: "table_rows [bare_future]" by (simp add: table_rows_def bare_future_def)
  obtain key where key: "to_instrument_key bare_future = Some key" using bare_future_mapped by blast
  have name: "instrument_name sample_json sample_payload = Some ''BTC-27JUN25''"
    by (simp add: sample_payload_def codec_eval)
  obtain t where t: "decode_ticker sample_json sample_payload 8 0 = Defined (Some t)"
    by (simp add: sample_payload_def codec_eval)
  note line = payload_to_line [OF sample_json_kinds table b name, of 0]
  have i: "instrument_id_of bare_future = 8" "row_symbol bare_future = ''BTC-27JUN25''"
    "instrument_type bare_future = ''future''" by (simp_all add: bare_future_def)
  have "bare_future \<in> set [bare_future]" by simp
  from line [THEN conjunct1, rule_format, OF this key] i t
  have "by_symbol r ''BTC-27JUN25'' = Some 8 \<and> decode_ticker sample_json sample_payload 8 0 = Defined (Some t)"
    by simp
  from line [THEN conjunct2, rule_format, OF this] obtain key' w p where
    "to_instrument_key bare_future = Some key'" "if_contains sample_json sample_payload ''last_price'' = Some w"
    "sends_number sample_json w p" "console_on_tick r t = Defined (to_string (kind key'), row_symbol bare_future, p)"
    by (simp only: list.set bex_simps) blast
  with key i have "if_contains sample_json sample_payload ''last_price'' = Some w"
      "sends_number sample_json w p" "console_on_tick r t = Defined (to_string (kind key), ''BTC-27JUN25'', p)"
    by simp_all
  moreover from this have "p = double_of_int 68553"
    by (auto simp: sample_payload_def sample_json_def sends_number_iff)
  moreover have "kind key = Future"
    using to_instrument_key_fields(3,4) [OF key] i by auto
  ultimately show ?thesis using t b by simp
qed

text \<open>C36: the exit code of \<open>main\<close> is 0 exactly when the configuration is valid, the rows were loaded
  and at least one of them is an instrument with an id; otherwise it is 1.  On a configuration error
  the logging is as the process found it, never initialised nor shut down; on every other path it was
  initialised and is shut down.  A run that gets to its end reports that no tick was dropped.\<close>

theorem main_exit_code:
  assumes "main lib getenv from_str connect exec_params commit n sink = Defined (events, code, final)"
    and "main_sink sink"
  shows "(code = 0 \<longleftrightarrow> (\<exists>config rows key. from_env getenv = Inr config \<and>
      load connect exec_params commit (postgres_conninfo config) ''DERIBIT'' = Defined (Inr rows) \<and>
      key \<in> set (mapped_keys rows) \<and> key_id key \<noteq> 0)) \<and>
    (code = 0 \<or> code = 1) \<and> (code = 0 \<longleftrightarrow> Stopped n 0 \<in> set events) \<and>
    (if \<exists>what. from_env getenv = Inl what then code = 1 \<and> final = boot_log_state lib
     else initialised final \<and> default_logger final = None \<and> thread_pool final = None)"
  using main_exit [OF assms(1)] main_stopped [OF assms] by (simp add: Bex_def) blast

theorem main_exit_code_witness:
  "\<exists>events final. main sample_logger sample_env (\<lambda>_. Info) (\<lambda>_. Inr ()) (\<lambda>_ _ _. Inr [sample_record]) (\<lambda>_. Inr ()) 0
      (sink_start True (new_sink kQueueCapacity)) = Defined (events, 0, final) \<and>
    initialised final \<and> default_logger final = None \<and> Stopped 0 0 \<in> set events"
proof -
  let ?s = "sink_start True (new_sink kQueueCapacity)"
  let ?m = "main sample_logger sample_env (\<lambda>_. Info) (\<lambda>_. Inr ()) (\<lambda>_ _ _. Inr [sample_record]) (\<lambda>_. Inr ()) 0 ?s"
  obtain r ws report where b: "build_registry [sample_row] = (r, ws, report)"
    by (cases "build_registry [sample_row]")
  obtain events code final where m: "?m = Defined (events, code, final)"
    using main_loaded [OF sample_from_env sample_load b] by blast
  have key: "key_id sample_key \<noteq> 0" "sample_key \<in> set (mapped_keys [sample_row])"
    by (simp add: sample_key_def) (simp add: set_mapped_keys sample_mapped)
  note exit_code = main_exit_code [OF m main_sink.started]
  have "code = 0"
    using exit_code key sample_from_env sample_load [of "postgres_conninfo sample_config" "''DERIBIT''"] by blast
  moreover have "initialised final \<and> default_logger final = None" using exit_code sample_from_env by simp
  ultimately show ?thesis using m exit_code by blast
qed

section \<open>The example client\<close>

text \<open>C38: the example session ends after at most six completions.  When it has nothing outstanding, its
  operations completed in the order resolve, connect, handshake, write, read, close; either the last
  one to complete failed, every one before succeeded, and what was reported is that operation's name
  and its error, and nothing was printed; or all six succeeded, and what was printed is the reply that
  the read delivered, and nothing was reported.\<close>

theorem example_outcome:
  fixes host port msg :: string
  defines "s0 \<equiv> session_run host port msg new_session"
  assumes "outstanding (io_run cs s0) = None"
  shows "(\<exists>k<6. map named (take (Suc k) cs) =
        take (Suc k) [''resolve'', ''connect'', ''handshake'', ''write'', ''read'', ''close''] \<and>
      (\<forall>j<k. failure (cs ! j) = None) \<and>
      ((\<exists>ec. failure (cs ! k) = Some ec \<and> cerr (io_run cs s0) = named (cs ! k) @ '': '' @ ec @ newline \<and>
          cout (io_run cs s0) = []) \<or>
        k = 5 \<and> failure (cs ! 5) = None \<and> cerr (io_run cs s0) = [] \<and>
          (\<exists>reply. cs ! 4 = Read_done (Inr reply) \<and> cout (io_run cs s0) = reply @ newline))) \<and>
    (\<forall>n s'. (completes ^^ n) s0 s' \<longrightarrow> n \<le> 6)"
proof -
  have "session_rank s0 = 6" by (simp add: s0_def session_run_def begin_op_def session_rank_def)
  then have "\<forall>n s'. (completes ^^ n) s0 s' \<longrightarrow> n \<le> 6" using example.run_bound by fastforce
  with session_outcome [OF assms(2) [unfolded s0_def]] show ?thesis
    unfolding s0_def client_steps_def by blast
qed

theorem example_outcome_witness:
  "cerr (io_run [Resolved (Inr ()), Connected (Inl ''refused'')] (session_run ''h'' ''80'' ''hi'' new_session)) =
    ''connect: refused'' @ newline"
proof -
  let ?s = "io_run [Resolved (Inr ()), Connected (Inl ''refused'')] (session_run ''h'' ''80'' ''hi'' new_session)"
  have over: "outstanding ?s = None"
    by (simp add: session_run_def new_session_def deliver_def handler_defs)
  from example_outcome [OF this] obtain k where k: "k < 6"
      "map named (take (Suc k) [Resolved (Inr ()), Connected (Inl ''refused'')]) =
        take (Suc k) [''resolve'', ''connect'', ''handshake'', ''write'', ''read'', ''close'']"
      "\<forall>j<k. failure ([Resolved (Inr ()), Connected (Inl ''refused'')] ! j) = None"
    and out: "(\<exists>ec. failure ([Resolved (Inr ()), Connected (Inl ''refused'')] ! k) = Some ec \<and>
        cerr ?s = named ([Resolved (Inr ()), Connected (Inl ''refused'')] ! k) @ '': '' @ ec @ newline \<and> cout ?s = []) \<or> k = 5"
    by blast
  from k(1,2) have "k = 0 \<or> k = 1" by (auto simp: less_Suc_eq eval_nat_numeral)
  with out show ?thesis by auto
qed

end
